(* ===== verification/Goat_Prelude.thy ===== *)
theory Goat_Prelude
  imports Complex_Main "HOL-Library.Word" "HOL-Library.Log_Nat" "HOL-Library.Monad_Syntax"
begin

text \<open>
  The shared base of the development: the machine types of the C++ code, checked reads of a
  byte vector, the generic invariant locale the state machines use, and the lemmas on lists,
  words and iteration that the components share.

  A value of type \<open>'a checked\<close> is the result of code that reads memory: \<open>None\<close> stands for a
  read or an erase outside the vector (undefined behaviour in C++), \<open>Some x\<close> for a defined
  result.  A function that in C++ returns \<open>std::optional<T>\<close> and reads memory has type
  \<open>T option checked\<close>.
\<close>

unbundle bit_operations_syntax

named_theorems ub_simps \<open>facts that resolve checked reads\<close>
named_theorems eval_simps \<open>definitions unfolded to evaluate the model on a concrete input\<close>

section \<open>Machine types\<close>

type_synonym byte = "8 word"
type_synonym u16 = "16 word"
type_synonym u32 = "32 word"
type_synonym bytes = "byte list"
type_synonym payload = "byte list"

type_synonym 'a checked = "'a option"

text \<open>Time points and durations of \<open>steady_clock\<close> in nanoseconds.\<close>

type_synonym time = int

section \<open>Checked access to a vector\<close>

definition read_at :: "'a list \<Rightarrow> nat \<Rightarrow> 'a checked" where
  "read_at xs i = (if i < length xs then Some (xs ! i) else None)"

definition erase_front :: "nat \<Rightarrow> 'a list \<Rightarrow> 'a list checked" where
  "erase_front n xs = (if n \<le> length xs then Some (drop n xs) else None)"

text \<open>\<open>Payload(v.begin() + i, v.begin() + i + n)\<close>.\<close>

definition subrange :: "'a list \<Rightarrow> nat \<Rightarrow> nat \<Rightarrow> 'a list checked" where
  "subrange xs i n = (if i + n \<le> length xs then Some (take n (drop i xs)) else None)"

lemma read_at_in_range [ub_simps, simp]: "i < length xs \<Longrightarrow> read_at xs i = Some (xs ! i)"
  by (simp add: read_at_def)

lemma erase_front_in_range [ub_simps, simp]:
  "n \<le> length xs \<Longrightarrow> erase_front n xs = Some (drop n xs)"
  by (simp add: erase_front_def)

lemma subrange_in_range [ub_simps, simp]:
  "i + n \<le> length xs \<Longrightarrow> subrange xs i n = Some (take n (drop i xs))"
  by (simp add: subrange_def)

section \<open>Iteration\<close>

lemma funpow_8 [eval_simps]: "(f ^^ 8) x = f (f (f (f (f (f (f (f x)))))))"
  by (simp add: numeral_eq_Suc)

lemma funpow_fixed: "f x = x \<Longrightarrow> (f ^^ n) x = x"
  by (induction n) auto

section \<open>Lists\<close>

lemma length_two_iff: "length xs = 2 \<longleftrightarrow> (\<exists>x y. xs = [x, y])"
  by (cases xs; cases "tl xs") auto

lemma take_append_exact [simp]: "take (length xs) (xs @ ys) = xs"
  by simp

lemma dropWhile_none: "\<forall>x \<in> set xs. P x \<Longrightarrow> dropWhile P (xs @ ys) = dropWhile P ys"
  by (induction xs) auto

lemma filter_all_false [simp]: "(\<And>x. x \<in> set xs \<Longrightarrow> \<not> P x) \<Longrightarrow> filter P xs = []"
  by (simp add: filter_empty_conv)

section \<open>Bytes\<close>

lemma unat_byte_less: "unat (b :: byte) < 256"
  using unsigned_less [of b, where ?'a = nat] by simp

lemma unat_of_nat_byte: "n < 256 \<Longrightarrow> unat (of_nat n :: byte) = n"
  by (simp add: unat_of_nat take_bit_nat_eq_self)

section \<open>Invariants of a step relation\<close>

text \<open>
  A set of initial states, a step relation and a predicate the steps keep.  The components'
  state machines interpret this locale; the reachable states are those of the transitive
  closure of the step relation.
\<close>

locale step_invariant =
  fixes initial :: "'s \<Rightarrow> bool"
    and step :: "'s \<Rightarrow> 's \<Rightarrow> bool"
    and inv :: "'s \<Rightarrow> bool"
  assumes initial_inv: "initial s \<Longrightarrow> inv s"
    and step_inv: "step s t \<Longrightarrow> inv s \<Longrightarrow> inv t"
begin

lemma steps_inv: "step\<^sup>*\<^sup>* s t \<Longrightarrow> inv s \<Longrightarrow> inv t"
  by (induction rule: rtranclp_induct) (auto intro: step_inv)

lemma reachable_inv: "initial s \<Longrightarrow> step\<^sup>*\<^sup>* s t \<Longrightarrow> inv t"
  by (blast intro: initial_inv steps_inv)

end

end
