(* ===== verification/Ieee_Float.thy ===== *)
theory Ieee_Float
  imports Goat_Prelude
begin

text \<open>
  The floating-point arithmetic the C++ sources use: IEEE 754 binary32 (\<open>float\<close>) and binary64
  (\<open>double\<close>), round to nearest, ties to even.  A \<open>float\<close> is its 32-bit pattern, so that the
  \<open>memcpy\<close> between \<open>uint32_t\<close> and \<open>float\<close> is the identity; a \<open>double\<close> is a value of type
  \<open>fp\<close>, a sign, a significand and an exponent.  Conversions, products and quotients are
  computed exactly on naturals and rounded once by \<open>fp_round\<close>.  The lemmas show that rounding
  is exact on representable numbers, that its relative error is at most half a unit in the last
  place otherwise, and that the bit encoding and decoding of a \<open>float\<close> are inverse.
\<close>

section \<open>Values\<close>

datatype fp = FpNaN | FpInf bool | FpFin bool nat int

type_synonym f32 = u32
type_synonym f64 = fp

text \<open>\<open>FpFin s m e\<close> is the number with sign \<open>s\<close> (true: negative) and magnitude \<open>m * 2 powi e\<close>.\<close>

fun fp_real :: "fp \<Rightarrow> real" where
  "fp_real (FpFin s m e) = (if s then - 1 else 1) * (real m * 2 powi e)"
| "fp_real _ = 0"

fun fp_isfinite :: "fp \<Rightarrow> bool" where
  "fp_isfinite (FpFin s m e) = True"
| "fp_isfinite _ = False"

definition signed_int :: "bool \<Rightarrow> nat \<Rightarrow> int" where
  "signed_int s m = (if s then - int m else int m)"

text \<open>The C++ relations \<open><\<close> and \<open><=\<close>: false when an operand is a NaN.\<close>

fun fp_less :: "fp \<Rightarrow> fp \<Rightarrow> bool" where
  "fp_less (FpFin s m e) (FpFin t n f) =
     (let c = min e f in signed_int s m * 2 ^ nat (e - c) < signed_int t n * 2 ^ nat (f - c))"
| "fp_less (FpInf s) (FpInf t) = (s \<and> \<not> t)"
| "fp_less (FpInf s) (FpFin t n f) = s"
| "fp_less (FpFin s m e) (FpInf t) = (\<not> t)"
| "fp_less _ _ = False"

fun fp_le :: "fp \<Rightarrow> fp \<Rightarrow> bool" where
  "fp_le (FpFin s m e) (FpFin t n f) =
     (let c = min e f in signed_int s m * 2 ^ nat (e - c) \<le> signed_int t n * 2 ^ nat (f - c))"
| "fp_le (FpInf s) (FpInf t) = (s \<or> \<not> t)"
| "fp_le (FpInf s) (FpFin t n f) = s"
| "fp_le (FpFin s m e) (FpInf t) = (\<not> t)"
| "fp_le _ _ = False"

section \<open>Rounding\<close>

text \<open>The natural number nearest to \<open>n / d\<close>, the even one of two.\<close>

definition nearest_even :: "nat \<Rightarrow> nat \<Rightarrow> nat" where
  "nearest_even n d =
     (let q = n div d; r = n mod d
      in if 2 * r < d \<or> (2 * r = d \<and> even q) then q else q + 1)"

text \<open>The ratio \<open>num / den / 2 powi e\<close> as a numerator and a denominator.\<close>

definition scale_ratio :: "int \<Rightarrow> nat \<Rightarrow> nat \<Rightarrow> nat \<times> nat" where
  "scale_ratio e num den =
     (if 0 \<le> e then (num, den * 2 ^ nat e) else (num * 2 ^ nat (- e), den))"

text \<open>The exponent that gives \<open>num / den\<close> a significand of exactly \<open>p\<close> bits.\<close>

definition fp_exponent :: "nat \<Rightarrow> nat \<Rightarrow> nat \<Rightarrow> int" where
  "fp_exponent p num den =
     (let e = int (floorlog 2 num) - int (floorlog 2 den) - int p;
          (n, d) = scale_ratio e num den
      in if n < d * 2 ^ p then e else e + 1)"

definition fp_round :: "nat \<Rightarrow> int \<Rightarrow> int \<Rightarrow> bool \<Rightarrow> nat \<Rightarrow> nat \<Rightarrow> fp" where
  "fp_round p emin emax s num den =
     (if num = 0 then FpFin s 0 emin
      else
        let e = max emin (fp_exponent p num den);
            (n, d) = scale_ratio e num den;
            m = nearest_even n d;
            (m', e') = (if m = 2 ^ p then (2 ^ (p - 1), e + 1) else (m, e))
        in if e' > emax then FpInf s else FpFin s m' e')"

abbreviation f32_round :: "bool \<Rightarrow> nat \<Rightarrow> nat \<Rightarrow> fp" where
  "f32_round \<equiv> fp_round 24 (- 149) 104"

abbreviation f64_round :: "bool \<Rightarrow> nat \<Rightarrow> nat \<Rightarrow> fp" where
  "f64_round \<equiv> fp_round 53 (- 1074) 971"

section \<open>The bit pattern of a float\<close>

definition f32_decode :: "f32 \<Rightarrow> fp" where
  "f32_decode w =
     (let s = bit w 31; e = unat (drop_bit 23 w AND 0xFF); f = unat (w AND 0x7FFFFF)
      in if e = 255 then (if f = 0 then FpInf s else FpNaN)
         else if e = 0 then FpFin s f (- 149)
         else FpFin s (2 ^ 23 + f) (int e - 150))"

fun f32_encode :: "fp \<Rightarrow> f32" where
  "f32_encode FpNaN = 0x7FC00000"
| "f32_encode (FpInf s) = (if s then 0xFF800000 else 0x7F800000)"
| "f32_encode (FpFin s m e) =
     of_nat ((if s then 2 ^ 31 else 0) +
             (if m < 2 ^ 23 then m else nat (e + 150) * 2 ^ 23 + (m - 2 ^ 23)))"

text \<open>The finite values a binary32 pattern can hold, each in its one representation.\<close>

fun f32_canonical :: "fp \<Rightarrow> bool" where
  "f32_canonical (FpFin s m e) =
     (m < 2 ^ 24 \<and> - 149 \<le> e \<and> e \<le> 104 \<and> (2 ^ 23 \<le> m \<or> e = - 149))"
| "f32_canonical _ = True"

section \<open>Operations\<close>

definition f32_isfinite :: "f32 \<Rightarrow> bool" where
  "f32_isfinite x = fp_isfinite (f32_decode x)"

definition f32_less :: "f32 \<Rightarrow> f32 \<Rightarrow> bool" where
  "f32_less x y = fp_less (f32_decode x) (f32_decode y)"

definition f32_le :: "f32 \<Rightarrow> f32 \<Rightarrow> bool" where
  "f32_le x y = fp_le (f32_decode x) (f32_decode y)"

definition f32_real :: "f32 \<Rightarrow> real" where
  "f32_real x = fp_real (f32_decode x)"

text \<open>\<open>static_cast<float>\<close> of an integer.\<close>

definition f32_of_int :: "int \<Rightarrow> f32" where
  "f32_of_int i = f32_encode (f32_round (i < 0) (nat \<bar>i\<bar>) 1)"

fun fp_div :: "(bool \<Rightarrow> nat \<Rightarrow> nat \<Rightarrow> fp) \<Rightarrow> fp \<Rightarrow> fp \<Rightarrow> fp" where
  "fp_div rnd (FpFin s m e) (FpFin t n f) =
     (if n = 0 then (if m = 0 then FpNaN else FpInf (s \<noteq> t))
      else rnd (s \<noteq> t) (m * 2 ^ nat (e - f)) (n * 2 ^ nat (f - e)))"
| "fp_div rnd (FpInf s) (FpFin t n f) = FpInf (s \<noteq> t)"
| "fp_div rnd (FpFin s m e) (FpInf t) = rnd (s \<noteq> t) 0 1"
| "fp_div rnd _ _ = FpNaN"

definition f32_div :: "f32 \<Rightarrow> f32 \<Rightarrow> f32" where
  "f32_div x y = f32_encode (fp_div f32_round (f32_decode x) (f32_decode y))"

text \<open>\<open>static_cast<double>\<close> of a \<open>float\<close> is exact.\<close>

definition f64_of_f32 :: "f32 \<Rightarrow> f64" where
  "f64_of_f32 x = f32_decode x"

text \<open>A \<open>double\<close> holds every integer below \<open>2 ^ 53\<close> in magnitude exactly; the sources convert
  32-bit limits and whole-number literals only.\<close>

definition f64_of_int :: "int \<Rightarrow> f64" where
  "f64_of_int i = FpFin (i < 0) (nat \<bar>i\<bar>) 0"

fun f64_mul :: "f64 \<Rightarrow> f64 \<Rightarrow> f64" where
  "f64_mul (FpFin s m e) (FpFin t n f) =
     f64_round (s \<noteq> t) (m * n * 2 ^ nat (e + f)) (2 ^ nat (- (e + f)))"
| "f64_mul (FpInf s) (FpInf t) = FpInf (s \<noteq> t)"
| "f64_mul (FpInf s) (FpFin t n f) = (if n = 0 then FpNaN else FpInf (s \<noteq> t))"
| "f64_mul (FpFin s m e) (FpInf t) = (if m = 0 then FpNaN else FpInf (s \<noteq> t))"
| "f64_mul _ _ = FpNaN"

text \<open>\<open>static_cast\<close> of a finite \<open>double\<close> to an integer truncates; \<open>std::round\<close> rounds halves away
  from zero.\<close>

fun f64_trunc :: "f64 \<Rightarrow> int" where
  "f64_trunc (FpFin s m e) =
     signed_int s (if 0 \<le> e then m * 2 ^ nat e else m div 2 ^ nat (- e))"
| "f64_trunc _ = 0"

fun f64_std_round :: "f64 \<Rightarrow> f64" where
  "f64_std_round (FpFin s m e) =
     (if 0 \<le> e then FpFin s m e
      else FpFin s ((m + 2 ^ nat (- e - 1)) div 2 ^ nat (- e)) 0)"
| "f64_std_round x = x"

text \<open>\<open>std::min\<close>: the second operand only when it is smaller.\<close>

definition f32_min :: "f32 \<Rightarrow> f32 \<Rightarrow> f32" where
  "f32_min x y = (if f32_less y x then y else x)"

section \<open>Reference functions on real numbers\<close>

text \<open>Truncation toward zero, and rounding to the nearest integer with halves away from zero.\<close>

definition trunc_real :: "real \<Rightarrow> int" where
  "trunc_real r = (if r < 0 then \<lceil>r\<rceil> else \<lfloor>r\<rfloor>)"

definition round_away :: "real \<Rightarrow> int" where
  "round_away r = (if r < 0 then - \<lfloor>1 / 2 - r\<rfloor> else \<lfloor>r + 1 / 2\<rfloor>)"

section \<open>Comparison is comparison of values\<close>

lemma powi_nat: "0 \<le> e \<Longrightarrow> (2::real) ^ nat e = 2 powi e"
  by (simp add: power_int_nonneg_exp)

lemma fp_real_aligned:
  assumes "c \<le> e"
  shows "real_of_int (signed_int s m * 2 ^ nat (e - c)) = fp_real (FpFin s m e) * 2 powi (- c)"
proof -
  have "(2::real) ^ nat (e - c) = 2 powi e * 2 powi (- c)"
    using assms by (simp add: powi_nat flip: power_int_add)
  then show ?thesis
    by (simp add: signed_int_def)
qed

lemma fp_real_compare:
  fixes s t :: bool and m n :: nat and e f :: int
  defines "c \<equiv> min e f"
  shows "signed_int s m * 2 ^ nat (e - c) < signed_int t n * 2 ^ nat (f - c)
           \<longleftrightarrow> fp_real (FpFin s m e) < fp_real (FpFin t n f)" (is "?l < ?r \<longleftrightarrow> ?x < ?y")
    and "signed_int s m * 2 ^ nat (e - c) \<le> signed_int t n * 2 ^ nat (f - c)
           \<longleftrightarrow> fp_real (FpFin s m e) \<le> fp_real (FpFin t n f)"
proof -
  have c: "c \<le> e" "c \<le> f" by (simp_all add: c_def)
  have "real_of_int ?l = ?x * 2 powi (- c)" "real_of_int ?r = ?y * 2 powi (- c)"
    by (rule fp_real_aligned [OF c(1)], rule fp_real_aligned [OF c(2)])
  moreover have "(0::real) < 2 powi (- c)" by simp
  ultimately show "?l < ?r \<longleftrightarrow> ?x < ?y" "?l \<le> ?r \<longleftrightarrow> ?x \<le> ?y"
    by (metis mult_less_cancel_right_pos of_int_less_iff, metis mult_le_cancel_right_pos of_int_le_iff)
qed

lemma fp_less_real: "fp_isfinite x \<Longrightarrow> fp_isfinite y \<Longrightarrow> fp_less x y \<longleftrightarrow> fp_real x < fp_real y"
  by (cases x; cases y) (simp_all only: fp_less.simps fp_isfinite.simps Let_def fp_real_compare)

lemma fp_le_real: "fp_isfinite x \<Longrightarrow> fp_isfinite y \<Longrightarrow> fp_le x y \<longleftrightarrow> fp_real x \<le> fp_real y"
  by (cases x; cases y) (simp_all only: fp_le.simps fp_isfinite.simps Let_def fp_real_compare)

section \<open>Rounding\<close>

lemma nearest_even_dvd: "0 < d \<Longrightarrow> d dvd n \<Longrightarrow> nearest_even n d = n div d"
  by (simp add: nearest_even_def)

lemma nearest_even_error:
  assumes "0 < d"
  shows "\<bar>real (nearest_even n d) - real n / real d\<bar> \<le> 1 / 2"
proof -
  define q r where "q = n div d" and "r = n mod d"
  have n: "real n / real d = real q + real r / real d"
    using assms by (simp add: q_def r_def field_simps flip: of_nat_mult of_nat_add)
  have rd: "r < d" using assms by (simp add: r_def)
  show ?thesis
  proof (cases "2 * r < d \<or> (2 * r = d \<and> even q)")
    case True
    then have "real r / real d \<le> 1 / 2"
      using assms by (auto simp: field_simps)
    with True show ?thesis
      by (simp add: nearest_even_def n flip: q_def r_def)
  next
    case False
    then have "d \<le> 2 * r" by auto
    then have "1 / 2 \<le> real r / real d" and "real r / real d \<le> 1"
      using assms rd by (simp_all add: field_simps)
    moreover have "nearest_even n d = q + 1"
      using False by (simp add: nearest_even_def Let_def flip: q_def r_def)
    ultimately show ?thesis
      by (simp add: n)
  qed
qed

lemma nearest_even_lower: "0 < d \<Longrightarrow> k * d \<le> n \<Longrightarrow> k \<le> nearest_even n d"
  by (auto simp: nearest_even_def Let_def less_eq_div_iff_mult_less_eq intro: le_SucI)

lemma nearest_even_upper:
  assumes "0 < d" "n < k * d"
  shows "nearest_even n d \<le> k"
proof -
  have "n div d < k" using assms by (simp add: div_less_iff_less_mult)
  then show ?thesis by (auto simp: nearest_even_def Let_def)
qed

lemma scale_ratio_pos: "0 < den \<Longrightarrow> 0 < snd (scale_ratio e num den)"
  by (simp add: scale_ratio_def)

lemma scale_ratio_real:
  "real (fst (scale_ratio e num den)) / real (snd (scale_ratio e num den))
     = real num / real den * 2 powi (- e)"
  by (simp add: scale_ratio_def powi_nat power_int_minus field_simps)

lemma scale_ratio_less_iff:
  assumes "0 < den"
  shows "fst (scale_ratio e num den) < snd (scale_ratio e num den) * 2 ^ p
           \<longleftrightarrow> real num / real den * 2 powi (- e) < 2 ^ p" (is "?n < ?d * 2 ^ p \<longleftrightarrow> _")
proof -
  have d: "0 < real ?d" using scale_ratio_pos [OF assms] by simp
  have "?n < ?d * 2 ^ p \<longleftrightarrow> real ?n < real (?d * 2 ^ p)"
    by (simp only: of_nat_less_iff)
  also have "\<dots> \<longleftrightarrow> real ?n / real ?d < 2 ^ p"
    using d by (simp add: pos_divide_less_eq mult.commute)
  finally show ?thesis by (simp only: scale_ratio_real)
qed

lemma floorlog2_bounds:
  assumes "0 < x"
  shows "2 powi (int (floorlog 2 x) - 1) \<le> real x" "real x < 2 powi int (floorlog 2 x)"
proof -
  have b: "2 ^ (floorlog 2 x - 1) \<le> x" "x < 2 ^ floorlog 2 x"
    using floorlog_bounds [of x 2] assms by auto
  have "0 < floorlog 2 x"
    using assms floorlog_eq_zero_iff [of 2 x] by linarith
  then have "2 powi (int (floorlog 2 x) - 1) = (2::real) ^ (floorlog 2 x - 1)"
    by (simp add: of_nat_diff power_int_nonneg_exp nat_diff_distrib)
  moreover have "real (2 ^ (floorlog 2 x - 1)) \<le> real x" "real x < real (2 ^ floorlog 2 x)"
    using b by (simp_all only: of_nat_le_iff of_nat_less_iff)
  ultimately show "2 powi (int (floorlog 2 x) - 1) \<le> real x" "real x < 2 powi int (floorlog 2 x)"
    by simp_all
qed

lemma fp_exponent_bounds:
  assumes "0 < num" "0 < den" "0 < p"
  defines "x \<equiv> real num / real den" and "e \<equiv> fp_exponent p num den"
  shows "2 powi (int p - 1) \<le> x * 2 powi (- e)" "x * 2 powi (- e) < 2 ^ p"
proof -
  define a b where "a = int (floorlog 2 num)" and "b = int (floorlog 2 den)"
  define e0 where "e0 = a - b - int p"
  note n = floorlog2_bounds [OF assms(1), folded a_def]
  note d = floorlog2_bounds [OF assms(2), folded b_def]
  have den: "0 < real den" using assms by simp
  have "2 powi (a - 1) / 2 powi b < x"
    unfolding x_def using n d den by (intro frac_less2) auto
  then have lo: "2 powi (a - 1 - b) < x" by (simp add: power_int_diff)
  have "x < 2 powi a / 2 powi (b - 1)"
    unfolding x_def using n d den by (intro frac_less) auto
  then have hi: "x < 2 powi (a - b + 1)" by (simp add: power_int_diff power_int_add)
  have "2 powi (a - 1 - b) * 2 powi (- e0) < x * 2 powi (- e0)" using lo by simp
  then have lo0: "2 powi (int p - 1) < x * 2 powi (- e0)"
    by (simp add: e0_def flip: power_int_add)
  have "x * 2 powi (- e0) < 2 powi (a - b + 1) * 2 powi (- e0)" using hi by simp
  then have hi0: "x * 2 powi (- e0) < 2 powi (int p + 1)"
    by (simp add: e0_def add.commute flip: power_int_add)
  have e: "e = (if x * 2 powi (- e0) < 2 ^ p then e0 else e0 + 1)"
    by (simp only: e_def fp_exponent_def Let_def case_prod_unfold scale_ratio_less_iff [OF assms(2)]
        x_def e0_def a_def b_def)
  have step: "x * 2 powi (- (e0 + 1)) = x * 2 powi (- e0) / 2"
    by (simp add: power_int_diff)
  show "2 powi (int p - 1) \<le> x * 2 powi (- e)" "x * 2 powi (- e) < 2 ^ p"
    using lo0 hi0 assms(3) by (auto simp: e step power_int_diff power_int_add)
qed

lemma fp_round_core:
  fixes s :: bool and emin emax :: int
  assumes pos: "0 < num" "0 < den" "0 < p"
  defines "x \<equiv> real num / real den" and "e \<equiv> max emin (fp_exponent p num den)"
  obtains m where
    "fp_round p emin emax s num den =
       (case (if m = 2 ^ p then (2 ^ (p - 1), e + 1) else (m, e)) of
          (m', e') \<Rightarrow> if e' > emax then FpInf s else FpFin s m' e')"
    "\<bar>real m - x * 2 powi (- e)\<bar> \<le> 1 / 2" "m \<le> 2 ^ p"
    "e = fp_exponent p num den \<Longrightarrow> 2 ^ (p - 1) \<le> m"
    "\<And>k. x * 2 powi (- e) = real k \<Longrightarrow> m = k"
proof
  define n d where "n = fst (scale_ratio e num den)" and "d = snd (scale_ratio e num den)"
  have d: "0 < d" using scale_ratio_pos pos by (simp add: d_def)
  have nd: "real n / real d = x * 2 powi (- e)"
    by (simp only: n_def d_def scale_ratio_real x_def)
  note ex = fp_exponent_bounds [OF pos, folded x_def]
  show "fp_round p emin emax s num den =
     (case (if nearest_even n d = 2 ^ p then (2 ^ (p - 1), e + 1) else (nearest_even n d, e)) of
        (m', e') \<Rightarrow> if e' > emax then FpInf s else FpFin s m' e')"
    using pos by (simp add: fp_round_def Let_def case_prod_unfold e_def n_def d_def)
  show "\<bar>real (nearest_even n d) - x * 2 powi (- e)\<bar> \<le> 1 / 2"
    using nearest_even_error [OF d, of n] by (simp only: nd)
  have "x * 2 powi (- e) \<le> x * 2 powi (- fp_exponent p num den)"
    by (intro mult_left_mono power_int_increasing) (auto simp: e_def x_def)
  with ex have "real n / real d < 2 ^ p" by (simp add: nd)
  then have "real n < real (2 ^ p * d)" using d by (simp add: pos_divide_less_eq)
  then have "n < 2 ^ p * d" by (simp only: of_nat_less_iff)
  then show "nearest_even n d \<le> 2 ^ p" by (rule nearest_even_upper [OF d])
  show "2 ^ (p - 1) \<le> nearest_even n d" if "e = fp_exponent p num den"
  proof -
    have "2 powi (int p - 1) = (2::real) ^ (p - 1)"
      using pos by (simp add: of_nat_diff power_int_nonneg_exp nat_diff_distrib)
    with ex that have "2 ^ (p - 1) \<le> real n / real d" by (simp add: nd)
    then have "real (2 ^ (p - 1) * d) \<le> real n" using d by (simp add: pos_le_divide_eq)
    then have "2 ^ (p - 1) * d \<le> n" by (simp only: of_nat_le_iff)
    then show ?thesis by (rule nearest_even_lower [OF d])
  qed
  show "nearest_even n d = k" if "x * 2 powi (- e) = real k" for k
  proof -
    have "real n = real (k * d)" using that d by (simp add: nd [symmetric] field_simps)
    then have "n = k * d" by (simp only: of_nat_eq_iff)
    then show ?thesis using d by (simp add: nearest_even_dvd)
  qed
qed

lemma half_step_powi: "0 < p \<Longrightarrow> (2::real) ^ (p - Suc 0) * 2 powi (e + 1) = 2 ^ p * 2 powi e"
  by (cases p) (simp_all add: power_int_add)

lemma fp_round_error:
  assumes pos: "0 < num" "0 < den" "0 < p"
    and r: "fp_round p emin emax s num den = FpFin t m e"
  defines "x \<equiv> real num / real den"
  shows "t = s" "\<bar>real m * 2 powi e - x\<bar> \<le> 2 powi (max emin (fp_exponent p num den)) / 2"
proof -
  define e0 where "e0 = max emin (fp_exponent p num den)"
  obtain m0 where
    eq: "fp_round p emin emax s num den =
       (case (if m0 = 2 ^ p then (2 ^ (p - 1), e0 + 1) else (m0, e0)) of
          (m', e') \<Rightarrow> if e' > emax then FpInf s else FpFin s m' e')"
    and err: "\<bar>real m0 - x * 2 powi (- e0)\<bar> \<le> 1 / 2"
    by (rule fp_round_core [OF pos, of emin emax s, folded x_def e0_def]) blast
  show "t = s" using eq r by (auto split: if_splits)
  have "real m * 2 powi e = real m0 * 2 powi e0"
    using eq r pos by (auto simp: half_step_powi split: if_splits)
  then have "\<bar>real m * 2 powi e - x\<bar> = \<bar>real m0 - x * 2 powi (- e0)\<bar> * 2 powi e0"
    by (simp add: power_int_minus field_simps abs_mult flip: abs_mult_pos)
  also have "\<dots> \<le> 1 / 2 * 2 powi e0"
    using err by (intro mult_right_mono) auto
  finally show "\<bar>real m * 2 powi e - x\<bar> \<le> 2 powi (max emin (fp_exponent p num den)) / 2"
    by (simp add: e0_def)
qed

lemma fp_exponent_le:
  assumes pos: "0 < num" "0 < den" "0 < p" and "real num / real den < 2 powi k"
  shows "fp_exponent p num den \<le> k - int p"
proof -
  let ?e = "fp_exponent p num den"
  have "2 powi (int p - 1) \<le> real num / real den * 2 powi (- ?e)"
    by (rule fp_exponent_bounds [OF pos])
  also have "\<dots> < 2 powi k * 2 powi (- ?e)"
    by (rule mult_strict_right_mono [OF assms(4)]) simp
  finally have "(2::real) powi (int p - 1) < 2 powi (k - ?e)" by (simp flip: power_int_add)
  then have "int p - 1 < k - ?e"
    using power_int_increasing [of "k - ?e" "int p - 1" "2::real"] by linarith
  then show ?thesis by simp
qed

lemma fp_round_finite:
  assumes pos: "0 < num" "0 < den" "0 < p" and "emin < emax"
    and "real num / real den < 2 powi (emax + int p - 1)"
  shows "fp_isfinite (fp_round p emin emax s num den)"
proof -
  define e0 where "e0 = max emin (fp_exponent p num den)"
  obtain m0 where
    eq: "fp_round p emin emax s num den =
       (case (if m0 = 2 ^ p then (2 ^ (p - 1), e0 + 1) else (m0, e0)) of
          (m', e') \<Rightarrow> if e' > emax then FpInf s else FpFin s m' e')"
    by (rule fp_round_core [OF pos, of emin emax s, folded e0_def]) blast
  have "e0 + 1 \<le> emax" using fp_exponent_le [OF pos assms(5)] assms(4) by (simp add: e0_def)
  then show ?thesis by (simp add: eq)
qed

lemma fp_round_exact:
  assumes pos: "0 < num" "0 < den" "0 < p" and "emin < emax"
    and "real num / real den < 2 powi (emax + int p - 1)"
    and x: "real num / real den = real M * 2 powi E" and M: "M < 2 ^ p" and E: "emin \<le> E"
  shows "fp_real (fp_round p emin emax s num den) = (if s then - 1 else 1) * (real num / real den)"
proof -
  define e1 where "e1 = fp_exponent p num den"
  define e0 where "e0 = max emin e1"
  obtain m0 where
    eq: "fp_round p emin emax s num den =
       (case (if m0 = 2 ^ p then (2 ^ (p - 1), e0 + 1) else (m0, e0)) of
          (m', e') \<Rightarrow> if e' > emax then FpInf s else FpFin s m' e')"
    and m0: "\<And>k. real num / real den * 2 powi (- e0) = real k \<Longrightarrow> m0 = k"
    by (rule fp_round_core [OF pos, of emin emax s, folded e1_def e0_def]) blast
  have "e0 \<le> E"
  proof (rule ccontr)
    assume "\<not> e0 \<le> E"
    then have *: "E + 1 \<le> e1" using E by (simp add: e0_def)
    have "2 powi (int p - 1) \<le> real M * 2 powi E * 2 powi (- e1)"
      using fp_exponent_bounds(1) [OF pos] by (simp only: x e1_def)
    also have "\<dots> = real M * 2 powi (E - e1)" by (simp flip: power_int_add)
    also have "\<dots> \<le> real M * 2 powi (- 1)"
      using * by (intro mult_left_mono power_int_increasing) auto
    also have "\<dots> < 2 ^ p * 2 powi (- 1)" 
      using M by (intro mult_strict_right_mono) (simp_all flip: of_nat_power_less_of_nat_cancel_iff)
    finally show False by (simp add: power_int_diff power_int_minus)
  qed
  then have "real num / real den * 2 powi (- e0) = real (M * 2 ^ nat (E - e0))"
    by (simp add: x powi_nat power_int_diff power_int_minus field_simps)
  from m0 [OF this] have m0': "real m0 * 2 powi e0 = real num / real den"
    using \<open>e0 \<le> E\<close> by (simp add: x powi_nat power_int_diff)
  have "e0 + 1 \<le> emax" using fp_exponent_le [OF pos assms(5)] assms(4) by (simp add: e0_def e1_def)
  with m0' pos show ?thesis
    by (auto simp: eq half_step_powi)
qed

lemma fp_round_canonical:
  assumes "0 < den"
  shows "f32_canonical (f32_round s num den)"
proof (cases "num = 0")
  case True
  then show ?thesis by (simp add: fp_round_def)
next
  case False
  then have pos: "0 < num" "0 < den" "0 < (24::nat)" using assms by simp_all
  define e0 where "e0 = max (- 149) (fp_exponent 24 num den)"
  obtain m0 where
    eq: "f32_round s num den =
       (case (if m0 = 2 ^ 24 then (2 ^ (24 - 1), e0 + 1) else (m0, e0)) of
          (m', e') \<Rightarrow> if e' > 104 then FpInf s else FpFin s m' e')"
    and m0: "m0 \<le> 2 ^ 24" "e0 = fp_exponent 24 num den \<Longrightarrow> 2 ^ (24 - 1) \<le> m0"
    by (rule fp_round_core [OF pos, of "- 149" 104 s, folded e0_def]) blast
  have "2 ^ 23 \<le> m0 \<or> e0 = - 149" using m0(2) by (auto simp: e0_def max_def)
  with m0(1) show ?thesis by (auto simp: eq e0_def)
qed

section \<open>Bit patterns\<close>

lemma packed_div: "N = k * c + f \<Longrightarrow> f < c \<Longrightarrow> N div c = (k::nat)"
  by simp

lemma packed_mod: "N = k * c + f \<Longrightarrow> f < c \<Longrightarrow> N mod c = (f::nat)"
  by simp

lemma f32_fields:
  "unat (drop_bit 23 w AND 0xFF :: f32) = unat w div 2 ^ 23 mod 256"
  "unat (w AND 0x7FFFFF :: f32) = unat w mod 2 ^ 23"
  "bit (w :: f32) 31 \<longleftrightarrow> 2 ^ 31 \<le> unat w"
proof -
  have m: "(0xFF :: f32) = mask 8" "(0x7FFFFF :: f32) = mask 23"
    by (simp_all add: mask_eq_exp_minus_1)
  show "unat (drop_bit 23 w AND 0xFF :: f32) = unat w div 2 ^ 23 mod 256"
    by (simp only: m unsigned_take_bit_eq unat_drop_bit_eq flip: take_bit_eq_mask)
      (simp add: take_bit_eq_mod drop_bit_eq_div)
  show "unat (w AND 0x7FFFFF :: f32) = unat w mod 2 ^ 23"
    by (simp only: m unsigned_take_bit_eq flip: take_bit_eq_mask) (simp add: take_bit_eq_mod)
  have "unat w < 2 ^ 32" using unsigned_less [of w, where ?'a = nat] by simp
  moreover have "bit w 31 \<longleftrightarrow> bit (unat w) 31" by (simp add: bit_unsigned_iff)
  moreover have "bit (n::nat) 31 \<longleftrightarrow> 2 ^ 31 \<le> n" if "n < 2 ^ 32" for n
  proof -
    have "n div 2 ^ 31 < 2" using that by (simp add: div_less_iff_less_mult)
    then have "n div 2 ^ 31 = 0 \<or> n div 2 ^ 31 = 1" by linarith
    then show ?thesis
      by (auto simp only: bit_iff_odd div_eq_0_iff) (simp_all add: Suc_le_eq div_greater_zero_iff [symmetric])
  qed
  ultimately show "bit w 31 \<longleftrightarrow> 2 ^ 31 \<le> unat w" by simp
qed

lemma f32_decode_fields:
  "f32_decode w =
     (let s = 2 ^ 31 \<le> unat w; e = unat w div 2 ^ 23 mod 256; f = unat w mod 2 ^ 23
      in if e = 255 then (if f = 0 then FpInf s else FpNaN)
         else if e = 0 then FpFin s f (- 149)
         else FpFin s (2 ^ 23 + f) (int e - 150))"
  by (simp only: f32_decode_def f32_fields)

lemma f32_decode_of_nat:
  assumes "f < 2 ^ 23" "x < 256"
  shows "f32_decode (of_nat ((if s then 2 ^ 31 else 0) + (x * 2 ^ 23 + f))) =
     (if x = 255 then (if f = 0 then FpInf s else FpNaN)
      else if x = 0 then FpFin s f (- 149)
      else FpFin s (2 ^ 23 + f) (int x - 150))"
proof -
  define N where "N = (if s then 2 ^ 31 else 0) + (x * 2 ^ 23 + f)"
  have "N < 2 ^ 32" using assms by (simp add: N_def)
  then have "unat (of_nat N :: f32) = N"
    by (simp add: unat_of_nat take_bit_nat_eq_self)
  moreover have "2 ^ 31 \<le> N \<longleftrightarrow> s" using assms by (simp add: N_def)
  moreover
  have N: "N = ((if s then 256 else 0) + x) * 2 ^ 23 + f" by (simp add: N_def)
  have "N div 2 ^ 23 = (if s then 256 else 0) + x" "N mod 2 ^ 23 = f"
    by (rule packed_div [OF N assms(1)], rule packed_mod [OF N assms(1)])
  ultimately show ?thesis
    using assms by (simp only: f32_decode_fields Let_def flip: N_def) auto
qed

lemma f32_decode_encode:
  assumes "f32_canonical v"
  shows "f32_decode (f32_encode v) = v"
proof (cases v)
  case (FpFin s m e)
  show ?thesis
  proof (cases "m < 2 ^ 23")
    case True
    then show ?thesis
      using assms f32_decode_of_nat [of m 0 s] by (simp add: FpFin)
  next
    case False
    then have lt: "m - 2 ^ 23 < 2 ^ 23" "nat (e + 150) < 256"
      and ne: "nat (e + 150) \<noteq> 255" "nat (e + 150) \<noteq> 0" and e: "- 149 \<le> e"
      using assms by (auto simp: FpFin)
    have "f32_decode (f32_encode v) = FpFin s (2 ^ 23 + (m - 2 ^ 23)) (int (nat (e + 150)) - 150)"
      by (simp only: FpFin f32_encode.simps False if_False f32_decode_of_nat [OF lt] ne)
    also have "\<dots> = v" using False e by (simp add: FpFin)
    finally show ?thesis .
  qed
qed (simp_all add: f32_decode_def)

lemma f32_decode_canonical: "f32_canonical (f32_decode w)"
proof -
  define f x where "f = unat w mod 2 ^ 23" and "x = unat w div 2 ^ 23 mod 256"
  have "f < 2 ^ 23" "x < 256" by (simp_all add: f_def x_def)
  then show ?thesis
    by (auto simp: f32_decode_fields Let_def simp flip: f_def x_def)
qed

section \<open>Exact products, truncation and rounding to integers\<close>

lemma f32_decode_finite_bounds:
  "f32_decode v = FpFin s m e \<Longrightarrow> m < 2 ^ 24 \<and> - 149 \<le> e \<and> e \<le> 104"
  using f32_decode_canonical [of v] by simp

lemma fp_round_zero: "fp_isfinite (fp_round p emin emax s 0 den)" "fp_real (fp_round p emin emax s 0 den) = 0"
  by (simp_all add: fp_round_def)

lemma powi_split: "(2::real) ^ nat e / 2 ^ nat (- e) = 2 powi e"
  by (cases "0 \<le> e") (simp_all add: powi_nat power_int_minus field_simps)

text \<open>The product of a \<open>float\<close> and a small integer is exact in \<open>double\<close> precision: the 24-bit
  significand times a factor below \<open>2 ^ 29\<close> fits the 53 bits of a \<open>double\<close>.\<close>

lemma f64_mul_exact:
  assumes "f32_isfinite v" and k: "k < 2 ^ 29"
  defines "r \<equiv> f64_mul (f64_of_f32 v) (f64_of_int (int k))"
  shows "fp_isfinite r \<and> fp_real r = f32_real v * real k"
proof -
  obtain s m e where v: "f32_decode v = FpFin s m e"
    using assms(1) by (cases "f32_decode v") (auto simp: f32_isfinite_def)
  have b: "m < 2 ^ 24" "- 149 \<le> e" "e \<le> 104"
    using f32_decode_finite_bounds [OF v] by auto
  define num den where "num = m * k * 2 ^ nat e" and "den = (2::nat) ^ nat (- e)"
  have r: "r = f64_round s num den"
    by (simp add: r_def f64_of_f32_def f64_of_int_def v num_def den_def)
  have x: "real num / real den = real (m * k) * 2 powi e"
    by (simp add: num_def den_def flip: powi_split)
  have target: "f32_real v * real k = (if s then - 1 else 1) * (real (m * k) * 2 powi e)"
    by (simp add: f32_real_def v)
  show ?thesis
  proof (cases "m * k = 0")
    case True
    then have "num = 0" by (simp add: num_def)
    with True show ?thesis unfolding r target by (simp add: fp_round_zero)
  next
    case False
    then have pos: "0 < num" "0 < den" "0 < (53::nat)" by (simp_all add: num_def den_def)
    have M: "m * k < 2 ^ 53"
      using mult_strict_mono [OF b(1) k] by simp
    have "real (m * k) * 2 powi e < real (2 ^ 53) * 2 powi 104"
      using M b(3) by (intro mult_less_le_imp_less power_int_increasing) (simp_all only: of_nat_less_iff, auto)
    then have big: "real num / real den < 2 powi (971 + int 53 - 1)"
      by (simp add: x)
    have emin: "- 1074 \<le> e" and lt: "(- 1074 :: int) < 971" using b(2) by simp_all
    show ?thesis
      using fp_round_finite [OF pos lt big, of s] fp_round_exact [OF pos lt big x M emin, of s]
      by (simp add: r target x)
  qed
qed

lemma floor_nat_powi: "\<lfloor>real m * 2 powi e\<rfloor> = int (if 0 \<le> e then m * 2 ^ nat e else m div 2 ^ nat (- e))"
proof (cases "0 \<le> e")
  case True
  then have "real m * 2 powi e = real (m * 2 ^ nat e)" by (simp add: powi_nat)
  with True show ?thesis by (simp only: floor_of_nat if_True)
next
  case False
  then have "real m * 2 powi e = real m / real (2 ^ nat (- e))"
    by (simp add: powi_nat power_int_minus field_simps)
  then have "\<lfloor>real m * 2 powi e\<rfloor> = int (m div 2 ^ nat (- e))"
    by (simp only: floor_divide_of_nat_eq)
  with False show ?thesis by simp
qed

lemma f64_trunc_real: "fp_isfinite x \<Longrightarrow> f64_trunc x = trunc_real (fp_real x)"
proof (cases x)
  case (FpFin s m e)
  have n: "0 \<le> real m * 2 powi e" by simp
  define q where "q = (if 0 \<le> e then m * 2 ^ nat e else m div 2 ^ nat (- e))"
  have f: "\<lfloor>real m * 2 powi e\<rfloor> = int q" unfolding q_def by (rule floor_nat_powi)
  have "f64_trunc x = signed_int s q" by (simp add: FpFin q_def)
  moreover have "trunc_real (fp_real x) = signed_int s q"
  proof (cases s)
    case True
    have "trunc_real (fp_real x) = - \<lfloor>real m * 2 powi e\<rfloor>"
      using n True by (cases "real m * 2 powi e = 0") (auto simp: FpFin trunc_real_def ceiling_minus)
    with True show ?thesis by (simp add: f signed_int_def)
  next
    case False
    moreover have "\<not> real m * 2 powi e < 0" using n by (simp only: not_less)
    ultimately show ?thesis by (simp add: FpFin trunc_real_def signed_int_def f)
  qed
  ultimately show ?thesis by simp
qed simp_all

lemma round_away_minus: "0 \<le> r \<Longrightarrow> round_away (- r) = - round_away r"
  by (cases "r = 0") (auto simp: round_away_def add.commute)

lemma round_away_of_nat: "round_away (real n) = int n"
  by (simp add: round_away_def floor_unique)

lemma round_away_powi:
  assumes "e < 0"
  shows "round_away (real m * 2 powi e) = int ((m + 2 ^ nat (- e - 1)) div 2 ^ nat (- e))"
proof -
  have half: "(2::real) ^ nat (- e) = 2 * 2 ^ nat (- e - 1)"
    using assms by (simp add: nat_diff_distrib flip: power_Suc)
  have "2 powi e = 1 / (2::real) ^ nat (- e)"
    using assms by (simp add: powi_nat power_int_minus field_simps)
  then have "real m * 2 powi e + 1 / 2 = real (m + 2 ^ nat (- e - 1)) / real (2 ^ nat (- e))"
    by (simp add: half field_simps)
  then have "\<lfloor>real m * 2 powi e + 1 / 2\<rfloor> = int ((m + 2 ^ nat (- e - 1)) div 2 ^ nat (- e))"
    by (simp only: floor_divide_of_nat_eq)
  moreover have "\<not> real m * 2 powi e < 0" by (simp add: not_less)
  ultimately show ?thesis by (simp only: round_away_def if_False)
qed

lemma f64_std_round_real:
  assumes "fp_isfinite x"
  shows "fp_isfinite (f64_std_round x) \<and> fp_real (f64_std_round x) = real_of_int (round_away (fp_real x))"
proof (cases x)
  case (FpFin s m e)
  define r where "r = real m * 2 powi e"
  have r: "0 \<le> r" by (simp add: r_def)
  have sgn: "round_away (fp_real x) = (if s then - 1 else 1) * round_away r"
    using round_away_minus [OF r] by (simp add: FpFin r_def)
  show ?thesis
  proof (cases "0 \<le> e")
    case True
    then have "r = real (m * 2 ^ nat e)" by (simp add: r_def powi_nat)
    then have "real_of_int (round_away r) = r" by (simp only: round_away_of_nat of_int_of_nat_eq)
    with True show ?thesis unfolding sgn by (simp add: FpFin r_def)
  next
    case False
    then show ?thesis
      unfolding sgn using round_away_powi [of e m] by (simp add: FpFin r_def)
  qed
qed (use assms in simp_all)

lemma trunc_real_of_int [simp]: "trunc_real (real_of_int i) = i"
  by (simp add: trunc_real_def)

section \<open>Accuracy of integer conversion and division\<close>

text \<open>One rounding to \<open>float\<close> precision in the normal range: a relative error of at most
  \<open>2 powi (- 24)\<close>.\<close>

lemma f32_round_error:
  assumes "0 < den" "num = 0 \<or> (2 powi (- 126) \<le> real num / real den \<and> real num / real den < 2 powi 127)"
  shows "fp_isfinite (f32_round s num den) \<and>
    \<bar>fp_real (f32_round s num den) - (if s then - 1 else 1) * (real num / real den)\<bar>
      \<le> real num / real den * 2 powi (- 24)"
proof (cases "num = 0")
  case True
  then show ?thesis by (simp add: fp_round_zero)
next
  case False
  define x where "x = real num / real den"
  from False assms have pos: "0 < num" "0 < den" "0 < (24::nat)"
    and x: "2 powi (- 126) \<le> x" "x < 2 powi 127" by (simp_all add: x_def)
  have fin: "fp_isfinite (f32_round s num den)"
    by (rule fp_round_finite [OF pos]) (use x in \<open>simp_all add: x_def\<close>)
  then obtain t m e where r: "f32_round s num den = FpFin t m e"
    by (cases "f32_round s num den") auto
  let ?e = "fp_exponent 24 num den"
  note eb = fp_exponent_bounds [OF pos, folded x_def]
  have "- 150 < ?e"
  proof (rule ccontr)
    assume "\<not> - 150 < ?e"
    then have "(2::real) powi 150 \<le> 2 powi (- ?e)" by (intro power_int_increasing) auto
    then have "2 powi (- 126) * 2 powi 150 \<le> x * 2 powi (- ?e)"
      using x by (intro mult_mono) auto
    with eb(2) show False by simp
  qed
  then have "\<bar>real m * 2 powi e - x\<bar> \<le> 2 powi ?e / 2" and ts: "t = s"
    using fp_round_error [OF pos r, folded x_def] by auto
  moreover have "2 powi ?e / 2 \<le> x * 2 powi (- 24)"
  proof -
    have "2 powi 23 * 2 powi ?e \<le> x * 2 powi (- ?e) * 2 powi ?e"
      using eb(1) by (intro mult_right_mono) simp_all
    also have "x * 2 powi (- ?e) * 2 powi ?e = x" by (simp flip: power_int_add)
    finally have "2 powi 23 * 2 powi ?e \<le> x" .
    then show ?thesis by (simp add: field_simps)
  qed
  ultimately have "\<bar>real m * 2 powi e - x\<bar> \<le> x * 2 powi (- 24)" by linarith
  then show ?thesis
    using fin by (auto simp: r ts x_def abs_minus_commute)
qed

lemma f32_encoded:
  assumes "0 < den"
  shows "f32_isfinite (f32_encode (f32_round s num den)) = fp_isfinite (f32_round s num den)"
    and "f32_real (f32_encode (f32_round s num den)) = fp_real (f32_round s num den)"
  using f32_decode_encode [OF fp_round_canonical [OF assms]]
  by (simp_all add: f32_isfinite_def f32_real_def)

lemma f32_of_int_error:
  assumes "\<bar>i\<bar> \<le> 2 ^ 31"
  shows "f32_isfinite (f32_of_int i) \<and>
    \<bar>f32_real (f32_of_int i) - real_of_int i\<bar> \<le> \<bar>real_of_int i\<bar> * 2 powi (- 24)"
proof -
  define n where "n = nat \<bar>i\<bar>"
  have i: "real_of_int i = (if i < 0 then - 1 else 1) * real n" by (simp add: n_def)
  have "n = 0 \<or> (2 powi (- 126) \<le> real n / real 1 \<and> real n / real 1 < 2 powi 127)"
  proof (cases "n = 0")
    case False
    then have "1 \<le> real n" by simp
    moreover have "real n \<le> 2 ^ 31" using assms by (simp add: n_def flip: of_int_abs)
    ultimately show ?thesis by (simp add: power_int_minus field_simps)
  qed simp
  from f32_round_error [OF zero_less_one this, of "i < 0"]
  have "fp_isfinite (f32_round (i < 0) n 1) \<and>
      \<bar>fp_real (f32_round (i < 0) n 1) - real_of_int i\<bar> \<le> real n * 2 powi (- 24)"
    by (simp only: i of_nat_1 div_by_1)
  moreover have "real n = \<bar>real_of_int i\<bar>" by (simp add: n_def)
  ultimately show ?thesis
    by (simp only: f32_of_int_def f32_encoded [OF zero_less_one] flip: n_def)
qed

lemma f32_of_int_exact:
  assumes "\<bar>i\<bar> < 2 ^ 24"
  shows "f32_isfinite (f32_of_int i) \<and> f32_real (f32_of_int i) = real_of_int i"
proof (cases "i = 0")
  case True
  then show ?thesis
    unfolding f32_of_int_def f32_encoded [OF zero_less_one] by (simp add: fp_round_zero)
next
  case False
  define n where "n = nat \<bar>i\<bar>"
  have i: "real_of_int i = (if i < 0 then - 1 else 1) * real n" by (simp add: n_def)
  have pos: "0 < n" "0 < (1::nat)" "0 < (24::nat)" using False by (simp_all add: n_def)
  have n: "n < 2 ^ 24" using assms by (simp add: n_def nat_less_iff)
  then have "real n < real (2 ^ 24)" by (simp only: of_nat_less_iff)
  then have "real n / real 1 < 2 powi (104 + int 24 - 1)" by simp
  then have "fp_real (f32_round (i < 0) n 1) = (if i < 0 then - 1 else 1) * (real n / real 1)"
    by (intro fp_round_exact [OF pos _ _ _ n, where E = 0]) simp_all
  with f32_of_int_error [of i] assms show ?thesis
    unfolding f32_of_int_def f32_encoded [OF zero_less_one] i by (simp add: n_def)
qed

lemma f32_div_error:
  assumes "f32_isfinite x" "f32_isfinite y" "f32_real y \<noteq> 0"
  defines "q \<equiv> f32_real x / f32_real y"
  assumes "q = 0 \<or> (2 powi (- 126) \<le> \<bar>q\<bar> \<and> \<bar>q\<bar> < 2 powi 127)"
  shows "f32_isfinite (f32_div x y) \<and> \<bar>f32_real (f32_div x y) - q\<bar> \<le> \<bar>q\<bar> * 2 powi (- 24)"
proof -
  obtain s m e t n f where x: "f32_decode x = FpFin s m e" and y: "f32_decode y = FpFin t n f"
    using assms(1,2) by (cases "f32_decode x"; cases "f32_decode y") (auto simp: f32_isfinite_def)
  have n: "0 < n" using assms(3) by (cases "n = 0") (auto simp: f32_real_def y)
  define num den where "num = m * 2 ^ nat (e - f)" and "den = n * 2 ^ nat (f - e)"
  have den: "0 < den" using n by (simp add: den_def)
  have r: "f32_div x y = f32_encode (f32_round (s \<noteq> t) num den)"
    using n by (simp add: f32_div_def x y num_def den_def)
  have "(2::real) ^ nat (e - f) / 2 ^ nat (f - e) = 2 powi e / 2 powi f"
    using powi_split [of "e - f"] by (simp add: power_int_diff)
  then have "real m / real n * (2 ^ nat (e - f) / 2 ^ nat (f - e)) = real m / real n * (2 powi e / 2 powi f)"
    by (simp only:)
  then have nd: "real num / real den = real m * 2 powi e / (real n * 2 powi f)"
    by (simp add: num_def den_def)
  have q: "q = (if s \<noteq> t then - 1 else 1) * (real num / real den)"
    unfolding nd by (simp add: q_def f32_real_def x y)
  then have aq: "\<bar>q\<bar> = real num / real den" by (simp add: abs_mult)
  have "num = 0 \<or> (2 powi (- 126) \<le> real num / real den \<and> real num / real den < 2 powi 127)"
    using assms(5) den by (auto simp: aq q split: if_splits)
  from f32_round_error [OF den this, of "s \<noteq> t"] show ?thesis
    unfolding r f32_encoded [OF den] aq by (simp add: q)
qed

end
