(* ===== verification/Goat_Types.thy ===== *)
theory Goat_Types
  imports Ieee_Float
begin

text \<open>
  The public data types of \<open>include/goat_motor_controller/types.hpp\<close> and the constants and
  command identifiers of \<open>protocol_ids.hpp\<close>: enumerations as datatypes, structs as records
  with the fields in the order of the source, and the in-class initialisers as default values.
  A \<open>float\<close> field is its bit pattern, a \<open>chrono::milliseconds\<close> field its count.
\<close>

section \<open>Enumerations of \<open>types.hpp\<close>\<close>

datatype control_watchdog_action = Disabled | Coast | BrakeCurrent

datatype operation_result = Success | InvalidData | IncompatibleData | NoReply | Rejected

text \<open>An \<open>AppConfigStorage\<close> may also hold a number that names no enumerator, by a cast.\<close>

datatype app_config_storage = Volatile | Persistent | OtherStorage int

section \<open>Structs of \<open>types.hpp\<close>\<close>

record motor_config_image =
  motor_bytes :: bytes

record app_config_image =
  app_bytes :: bytes

record lisp_code_image =
  lisp_bytes :: bytes

record foc_calibration_parameters =
  max_power_loss_w :: f32
  min_input_current_a :: f32
  max_input_current_a :: f32
  openloop_erpm :: f32
  sensorless_erpm :: f32

record foc_calibration_result =
  operation :: operation_result
  firmware_code :: "u16 option"

text \<open>The two \<open>std::function\<close> members are represented by whether they hold a callable; what the
  callables return is an input of the operations that call them.\<close>

record controller_config =
  device_path :: string
  baud :: int
  motor_poll_interval :: int
  imu_poll_interval :: int
  poll_response_timeout :: int
  query_guard_window :: int
  command_watchdog_timeout :: int
  command_watchdog_action :: control_watchdog_action
  max_brake_current :: f32
  command_watchdog_brake_current :: f32
  has_wall_time_ns :: bool
  has_open_serial_fn :: bool

definition default_controller_config :: controller_config where
  "default_controller_config =
     \<lparr>device_path = [], baud = 115200, motor_poll_interval = 50, imu_poll_interval = 10,
      poll_response_timeout = 20, query_guard_window = 5, command_watchdog_timeout = 0,
      command_watchdog_action = Disabled, max_brake_current = 0,
      command_watchdog_brake_current = 0, has_wall_time_ns = False, has_open_serial_fn = False\<rparr>"

record controller_config_snapshot =
  snap_motor_poll_interval :: int
  snap_imu_poll_interval :: int
  snap_poll_response_timeout :: int
  snap_query_guard_window :: int
  snap_command_watchdog_timeout :: int
  snap_command_watchdog_action :: control_watchdog_action
  snap_max_brake_current :: f32
  snap_command_watchdog_brake_current :: f32

record fw_version =
  major :: byte
  minor :: byte

record motor_state =
  motor_stamp_ns :: "64 word"
  rpm :: f32
  current_motor :: f32
  current_in :: f32
  duty_cycle :: f32
  vin :: f32
  temp_motor :: f32
  temp_fet :: f32
  tachometer :: u32
  tachometer_abs :: u32
  fault_code :: byte
  has_timeout :: bool
  kill_switch_active :: bool

definition default_motor_state :: motor_state where
  "default_motor_state =
     \<lparr>motor_stamp_ns = 0, rpm = 0, current_motor = 0, current_in = 0, duty_cycle = 0, vin = 0,
      temp_motor = 0, temp_fet = 0, tachometer = 0, tachometer_abs = 0, fault_code = 0,
      has_timeout = False, kill_switch_active = False\<rparr>"

record imu_data =
  imu_stamp_ns :: "64 word"
  roll :: f32
  pitch :: f32
  yaw :: f32
  acc_x :: f32
  acc_y :: f32
  acc_z :: f32
  gyro_x :: f32
  gyro_y :: f32
  gyro_z :: f32
  mag_x :: f32
  mag_y :: f32
  mag_z :: f32
  quat_w :: f32
  quat_x :: f32
  quat_y :: f32
  quat_z :: f32

text \<open>\<open>quat_w\<close> starts as \<open>1.0f\<close>, the bit pattern \<open>0x3F800000\<close>.\<close>

definition default_imu_data :: imu_data where
  "default_imu_data =
     \<lparr>imu_stamp_ns = 0, roll = 0, pitch = 0, yaw = 0, acc_x = 0, acc_y = 0, acc_z = 0,
      gyro_x = 0, gyro_y = 0, gyro_z = 0, mag_x = 0, mag_y = 0, mag_z = 0,
      quat_w = 0x3F800000, quat_x = 0, quat_y = 0, quat_z = 0\<rparr>"

section \<open>Constants of \<open>protocol_ids.hpp\<close>\<close>

definition kMaxPayloadBytes :: nat where
  "kMaxPayloadBytes = 512"

definition kMaxFramedPacketBytes :: nat where
  "kMaxFramedPacketBytes = kMaxPayloadBytes + 6"

definition kMaxLispCodeBytes :: nat where
  "kMaxLispCodeBytes = 512 * 1024 - 14"

datatype command_id =
  FwVersion | GetValues | SetDuty | SetCurrent | SetCurrentBrake | SetRpm | SetServoPos
| SetMotorConfig | GetMotorConfig | SetAppConfig | GetAppConfig | DetectApplyAllFoc
| AppDisableOutput | GetImuData | LispReadCode | LispWriteCode | LispEraseCode
| LispSetRunning | SetAppConfigNoStore

text \<open>\<open>static_cast<std::uint8_t>\<close> of a \<open>CommandId\<close>.\<close>

primrec id_byte :: "command_id \<Rightarrow> byte" where
  "id_byte FwVersion = 0"
| "id_byte GetValues = 4"
| "id_byte SetDuty = 5"
| "id_byte SetCurrent = 6"
| "id_byte SetCurrentBrake = 7"
| "id_byte SetRpm = 8"
| "id_byte SetServoPos = 12"
| "id_byte SetMotorConfig = 13"
| "id_byte GetMotorConfig = 14"
| "id_byte SetAppConfig = 16"
| "id_byte GetAppConfig = 17"
| "id_byte DetectApplyAllFoc = 58"
| "id_byte AppDisableOutput = 63"
| "id_byte GetImuData = 65"
| "id_byte LispReadCode = 130"
| "id_byte LispWriteCode = 131"
| "id_byte LispEraseCode = 132"
| "id_byte LispSetRunning = 133"
| "id_byte SetAppConfigNoStore = 149"

lemmas wire_constants [simp] = kMaxPayloadBytes_def kMaxFramedPacketBytes_def kMaxLispCodeBytes_def

lemma id_byte_inj: "id_byte a = id_byte b \<Longrightarrow> a = b"
  by (cases a; cases b; simp)

lemma id_byte_eq_iff [simp]: "id_byte a = id_byte b \<longleftrightarrow> a = b"
  by (blast dest: id_byte_inj)

end
