(* ===== verification/Crc16.thy ===== *)
theory Crc16
  imports Goat_Types
begin

text \<open>
  The CRC of the wire format: \<open>ControllerProtocol::crc16ccitt\<close> of \<open>src/protocol.cpp\<close> and
  \<open>PacketParser::crc16ccitt_\<close> of \<open>src/packet_parser.cpp\<close>, two copies of one loop.  Both are
  modelled at the widths of the source (a 16-bit register widened to 32 bits for the shift).
  The lemmas relate the byte loop to a bit-serial shift register, show that the register is
  linear and its step injective, and derive that the CRC detects every error burst of at most
  16 bits.
\<close>

section \<open>The loops of the sources\<close>

text \<open>The body of the inner loop over \<open>i\<close>.\<close>

definition crc_bit_step :: "u16 \<Rightarrow> u16" where
  "crc_bit_step crc =
     (let shifted = push_bit 1 (ucast crc :: u32)
      in if crc AND 0x8000 \<noteq> 0 then ucast (shifted XOR 0x1021) else ucast shifted)"

text \<open>The body of the loop over the bytes.\<close>

definition crc_update :: "u16 \<Rightarrow> byte \<Rightarrow> u16" where
  "crc_update crc b = (crc_bit_step ^^ 8) (ucast ((ucast crc :: u32) XOR push_bit 8 (ucast b)))"

definition crc16ccitt :: "bytes \<Rightarrow> u16" where
  "crc16ccitt data = foldl crc_update 0 data"

text \<open>The parser's own copy, a loop over the bytes with the register as an accumulator.\<close>

fun parser_crc_loop :: "u16 \<Rightarrow> bytes \<Rightarrow> u16" where
  "parser_crc_loop crc [] = crc"
| "parser_crc_loop crc (b # bs) =
     parser_crc_loop
       ((crc_bit_step ^^ 8) (ucast ((ucast crc :: u32) XOR push_bit 8 (ucast b)))) bs"

definition parser_crc16ccitt :: "bytes \<Rightarrow> u16" where
  "parser_crc16ccitt data = parser_crc_loop 0 data"

section \<open>A bit-serial register as the reference\<close>

text \<open>One message bit at a time, most significant bit first, into the shift register of the
  polynomial \<open>x^16 + x^12 + x^5 + 1\<close>.\<close>

definition lfsr :: "u16 \<Rightarrow> u16" where
  "lfsr c = push_bit 1 c XOR (if bit c 15 then 0x1021 else 0)"

definition feed_bit :: "u16 \<Rightarrow> bool \<Rightarrow> u16" where
  "feed_bit c b = lfsr (c XOR (if b then 0x8000 else 0))"

definition byte_bits :: "byte \<Rightarrow> bool list" where
  "byte_bits b = map (bit b) (rev [0..<8])"

definition bits_of :: "bytes \<Rightarrow> bool list" where
  "bits_of bs = concat (map byte_bits bs)"

definition crc_serial :: "u16 \<Rightarrow> bool list \<Rightarrow> u16" where
  "crc_serial c bs = foldl feed_bit c bs"

text \<open>An error pattern: at most 16 consecutive bits, not all of them zero, the rest zero.\<close>

definition is_burst :: "bool list \<Rightarrow> bool" where
  "is_burst bs \<longleftrightarrow>
     (\<exists>i es j. bs = replicate i False @ es @ replicate j False \<and> length es \<le> 16 \<and> True \<in> set es)"

definition xor_bytes :: "bytes \<Rightarrow> bytes \<Rightarrow> bytes" where
  "xor_bytes = map2 (XOR)"

lemmas crc_eval [eval_simps] = crc16ccitt_def crc_update_def crc_bit_step_def

section \<open>The register step\<close>

lemma ucast_xor: "ucast (a XOR b) = (ucast a XOR ucast b :: u16)" for a b :: u32
  by (rule bit_word_eqI) (auto simp: bit_simps)

lemma ucast_shift_widened: "ucast (push_bit n (ucast c :: u32)) = (push_bit n c :: u16)" for c :: u16
  by (rule bit_word_eqI) (auto simp: bit_simps)

lemma ucast_shift_byte: "ucast (push_bit n (ucast b :: u32)) = (push_bit n (ucast b) :: u16)" for b :: byte
  by (rule bit_word_eqI) (auto simp: bit_simps)

lemma ucast_widened: "ucast (ucast c :: u32) = (c :: u16)"
  by (rule bit_word_eqI) (auto simp: bit_simps)

lemma crc_bit_step_lfsr: "crc_bit_step = lfsr"
proof
  fix c :: u16
  have "c AND 0x8000 = 0 \<longleftrightarrow> \<not> bit c 15"
    using and_exp_eq_0_iff_not_bit [of c 15] by simp
  then show "crc_bit_step c = lfsr c"
    by (simp add: crc_bit_step_def lfsr_def ucast_xor ucast_shift_widened del: push_bit_Suc)
qed

lemma crc_update_lfsr: "crc_update c b = (lfsr ^^ 8) (c XOR push_bit 8 (ucast b))"
  by (simp add: crc_update_def crc_bit_step_lfsr ucast_xor ucast_widened ucast_shift_byte)

lemma lfsr_xor: "lfsr (a XOR b) = lfsr a XOR lfsr b"
proof -
  have "push_bit 1 (a XOR b) = push_bit 1 a XOR push_bit 1 b"
    by (rule push_bit_xor)
  then show ?thesis
    by (auto simp: lfsr_def bit_xor_iff xor.assoc xor.left_commute)
qed

lemma lfsr_0 [simp]: "lfsr 0 = 0"
  by (simp add: lfsr_def)

lemma lfsr_funpow_xor: "(lfsr ^^ n) (a XOR b) = (lfsr ^^ n) a XOR (lfsr ^^ n) b"
  by (induction n) (simp_all add: lfsr_xor)

lemma lfsr_eq_0D:
  assumes "lfsr c = 0"
  shows "c = 0"
proof -
  have "bit (lfsr c) 0 \<longleftrightarrow> bit c 15" by (simp add: lfsr_def bit_simps del: push_bit_Suc)
  with assms have "\<not> bit c 15" by simp
  with assms have shift: "push_bit 1 c = 0" by (simp add: lfsr_def del: push_bit_Suc)
  show ?thesis
  proof (rule bit_word_eqI)
    fix n assume "n < LENGTH(16)"
    moreover have "bit (push_bit 1 c) (Suc n) = False" by (simp only: shift bit_0_eq bot_apply bot_bool_def)
    ultimately show "bit c n = bit 0 n"
      using \<open>\<not> bit c 15\<close> by (cases "n = 15") (auto simp: bit_simps simp del: push_bit_Suc)
  qed
qed

lemma lfsr_funpow_eq_0: "(lfsr ^^ n) c = 0 \<longleftrightarrow> c = 0"
  by (induction n) (auto dest: lfsr_eq_0D)

lemma xor_eq_0_iff: "a XOR b = 0 \<longleftrightarrow> a = b" for a b :: "'a::len word"
proof
  assume "a XOR b = 0"
  then have "(a XOR b) XOR b = 0 XOR b" by (simp only:)
  then show "a = b" by (simp add: xor.assoc)
qed simp

lemma lfsr_funpow_inj: "(lfsr ^^ n) a = (lfsr ^^ n) b \<longleftrightarrow> a = b"
  using lfsr_funpow_eq_0 [of n "a XOR b"] by (simp add: lfsr_funpow_xor xor_eq_0_iff)

section \<open>The byte loop is the bit-serial register\<close>

text \<open>The word that holds up to 16 message bits in its top positions.\<close>

fun top_word :: "bool list \<Rightarrow> u16" where
  "top_word [] = 0"
| "top_word (b # bs) = (if b then 0x8000 else 0) XOR drop_bit 1 (top_word bs)"

lemma bit_top: "bit (if b then 0x8000 else 0 :: u16) k \<longleftrightarrow> b \<and> k = 15"
  using bit_exp_iff [of 15 k, where ?'a = "16 word"] by auto

lemma top_word_bit: "k < 16 \<Longrightarrow> bit (top_word bs) k \<longleftrightarrow> 15 - k < length bs \<and> bs ! (15 - k)"
proof (induction bs arbitrary: k)
  case (Cons b bs)
  show ?case
  proof (cases "k = 15")
    case True
    moreover have "\<not> bit (top_word bs) 16" using bit_imp_le_length [of "top_word bs" 16] by auto
    ultimately show ?thesis
      by (simp add: bit_xor_iff bit_top bit_drop_bit_eq)
  next
    case False
    with Cons.prems have "15 - k = Suc (15 - Suc k)" "Suc k < 16" by auto
    with False Cons.IH [of "Suc k"] show ?thesis
      by (simp add: bit_xor_iff bit_top bit_drop_bit_eq)
  qed
qed simp

lemma lfsr_drop_bit: "\<not> bit w 0 \<Longrightarrow> lfsr (drop_bit 1 w) = w"
proof -
  assume w: "\<not> bit w 0"
  have "\<not> bit (drop_bit 1 w) 15"
    using bit_imp_le_length [of w 16] by (auto simp: bit_drop_bit_eq)
  moreover have "push_bit 1 (drop_bit 1 w) = w"
  proof (rule bit_word_eqI)
    fix n assume "n < LENGTH(16)"
    then show "bit (push_bit 1 (drop_bit 1 w)) n = bit w n"
      using w by (cases n) (simp_all add: bit_simps del: push_bit_Suc)
  qed
  ultimately show ?thesis by (simp add: lfsr_def del: push_bit_Suc)
qed

lemma crc_serial_top_word:
  "length bs \<le> 16 \<Longrightarrow> crc_serial c bs = (lfsr ^^ length bs) (c XOR top_word bs)"
proof (induction bs arbitrary: c)
  case Nil
  then show ?case by (simp add: crc_serial_def)
next
  case (Cons b bs)
  define t :: u16 where "t = (if b then 0x8000 else 0)"
  have "\<not> bit (top_word bs) 0" using Cons.prems by (simp add: top_word_bit)
  then have w: "top_word bs = lfsr (drop_bit 1 (top_word bs))" by (rule lfsr_drop_bit [symmetric])
  have "crc_serial c (b # bs) = crc_serial (lfsr (c XOR t)) bs"
    by (simp add: crc_serial_def feed_bit_def t_def)
  also have "\<dots> = (lfsr ^^ length bs) (lfsr (c XOR t) XOR top_word bs)"
    using Cons by simp
  also have "\<dots> = (lfsr ^^ length bs) (lfsr (c XOR (t XOR drop_bit 1 (top_word bs))))"
    by (subst w) (simp add: lfsr_xor xor.assoc)
  finally show ?case
    by (simp add: funpow_Suc_right t_def del: funpow.simps)
qed

lemma length_byte_bits [simp]: "length (byte_bits b) = 8"
  by (simp add: byte_bits_def)

lemma top_word_byte_bits: "top_word (byte_bits b) = push_bit 8 (ucast b)"
proof (rule bit_word_eqI)
  fix n assume "n < LENGTH(16)"
  then have n: "n < 16" by simp
  have "byte_bits b ! (15 - n) = bit b (n - 8)" if "15 - n < 8"
  proof -
    have "rev [0..<8] ! (15 - n) = n - 8" using that n by (simp add: rev_nth)
    then show ?thesis using that by (simp add: byte_bits_def)
  qed
  then show "bit (top_word (byte_bits b)) n = bit (push_bit 8 (ucast b) :: u16) n"
    using n by (auto simp: top_word_bit bit_simps)
qed

lemma crc_serial_append: "crc_serial c (as @ bs) = crc_serial (crc_serial c as) bs"
  by (simp add: crc_serial_def)

lemma crc_update_serial: "crc_update c b = crc_serial c (byte_bits b)"
  by (simp add: crc_serial_top_word crc_update_lfsr top_word_byte_bits)

lemma foldl_crc_update: "foldl crc_update c bs = crc_serial c (bits_of bs)"
proof (induction bs arbitrary: c)
  case Nil
  then show ?case by (simp add: bits_of_def crc_serial_def)
next
  case (Cons b bs)
  then show ?case by (simp add: bits_of_def crc_serial_append crc_update_serial)
qed

lemma parser_crc_loop_foldl: "parser_crc_loop c bs = foldl crc_update c bs"
  by (induction bs arbitrary: c) (simp_all add: crc_update_def)

lemma parser_crc_eq: "parser_crc16ccitt bs = crc16ccitt bs"
  by (simp add: parser_crc16ccitt_def crc16ccitt_def parser_crc_loop_foldl)

section \<open>Linearity and burst errors\<close>

lemma length_bits_of [simp]: "length (bits_of bs) = 8 * length bs"
  by (induction bs) (simp_all add: bits_of_def)

lemma crc_serial_linear:
  "length as = length bs \<Longrightarrow>
     crc_serial (c XOR d) (map2 (\<noteq>) as bs) = crc_serial c as XOR crc_serial d bs"
proof (induction as bs arbitrary: c d rule: list_induct2)
  case Nil
  then show ?case by (simp add: crc_serial_def)
next
  case (Cons a as b bs)
  have "feed_bit (c XOR d) (a \<noteq> b) = feed_bit c a XOR feed_bit d b"
    by (cases a; cases b) (simp_all add: feed_bit_def xor.assoc xor.left_commute xor.commute flip: lfsr_xor)
  with Cons.IH [of "feed_bit c a" "feed_bit d b"] show ?case
    by (simp add: crc_serial_def)
qed

lemma crc_serial_zeros: "crc_serial c (replicate n False) = (lfsr ^^ n) c"
  by (induction n arbitrary: c) (simp_all add: crc_serial_def feed_bit_def funpow_swap1)

lemma top_word_eq_0: "length bs \<le> 16 \<Longrightarrow> top_word bs = 0 \<Longrightarrow> True \<notin> set bs"
proof
  assume len: "length bs \<le> 16" and z: "top_word bs = 0" and "True \<in> set bs"
  then obtain i where i: "i < length bs" "bs ! i" by (auto simp: in_set_conv_nth)
  then have "bit (top_word bs) (15 - i)" using len by (simp add: top_word_bit)
  then show False by (simp add: z)
qed

lemma crc_serial_burst:
  assumes "is_burst bs"
  shows "crc_serial 0 bs \<noteq> 0"
proof -
  obtain i es j where bs: "bs = replicate i False @ es @ replicate j False"
    and es: "length es \<le> 16" "True \<in> set es"
    using assms by (auto simp: is_burst_def)
  have "crc_serial 0 bs = (lfsr ^^ (j + length es)) (top_word es)"
    using es by (simp add: bs crc_serial_append crc_serial_zeros crc_serial_top_word
        funpow_fixed funpow_add)
  then show ?thesis
    using es top_word_eq_0 by (auto simp: lfsr_funpow_eq_0)
qed

lemma byte_bits_nth: "i < 8 \<Longrightarrow> byte_bits b ! i = bit b (7 - i)"
  by (simp add: byte_bits_def rev_nth)

lemma top_word_two_bytes:
  "top_word (byte_bits hi @ byte_bits lo) = push_bit 8 (ucast hi) OR ucast lo"
proof (rule bit_word_eqI)
  fix n assume "n < LENGTH(16)"
  then have n: "n < 16" by simp
  show "bit (top_word (byte_bits hi @ byte_bits lo)) n
      = bit (push_bit 8 (ucast hi) OR ucast lo :: u16) n"
  proof (cases "8 \<le> n")
    case True
    then have "15 - n < 8" "7 - (15 - n) = n - 8" "\<not> bit lo n"
      using n bit_imp_le_length [of lo n] by auto
    with True n show ?thesis
      by (auto simp: top_word_bit bit_simps nth_append byte_bits_nth)
  next
    case False
    then have "\<not> 15 - n < 8" "15 - n - 8 < 8" "7 - (15 - n - 8) = n" using n by auto
    with False n show ?thesis
      by (auto simp: top_word_bit bit_simps nth_append byte_bits_nth)
  qed
qed

text \<open>The residue: a message followed by two CRC bytes leaves the register at zero exactly when
  the bytes are the message's CRC.\<close>

lemma crc_residue:
  "crc_serial 0 (bits_of (msg @ [hi, lo])) = 0
     \<longleftrightarrow> crc16ccitt msg = push_bit 8 (ucast hi) OR ucast lo"
proof -
  have "crc_serial 0 (bits_of (msg @ [hi, lo]))
      = crc_serial (crc16ccitt msg) (byte_bits hi @ byte_bits lo)"
    by (simp add: bits_of_def crc_serial_append crc16ccitt_def foldl_crc_update)
  also have "\<dots> = (lfsr ^^ 16) (crc16ccitt msg XOR (push_bit 8 (ucast hi) OR ucast lo))"
    by (subst crc_serial_top_word) (simp_all add: top_word_two_bytes)
  finally show ?thesis
    by (simp only: lfsr_funpow_eq_0 xor_eq_0_iff)
qed

lemma bits_of_xor_bytes:
  "length as = length bs \<Longrightarrow> bits_of (xor_bytes as bs) = map2 (\<noteq>) (bits_of as) (bits_of bs)"
proof (induction as bs rule: list_induct2)
  case Nil
  then show ?case by (simp add: bits_of_def xor_bytes_def)
next
  case (Cons a as b bs)
  have "byte_bits (a XOR b) = map2 (\<noteq>) (byte_bits a) (byte_bits b)"
    by (auto intro!: nth_equalityI simp: byte_bits_nth bit_xor_iff)
  with Cons.IH show ?case
    by (simp add: bits_of_def xor_bytes_def)
qed

text \<open>A codeword (a message and its CRC bytes) hit by a burst is not a codeword.\<close>

lemma crc_burst_detected:
  assumes len: "length err = length msg + 2" and burst: "is_burst (bits_of err)"
    and code: "crc16ccitt msg = push_bit 8 (ucast hi) OR ucast lo"
    and rcv: "xor_bytes (msg @ [hi, lo]) err = msg' @ [hi', lo']"
  shows "crc16ccitt msg' \<noteq> push_bit 8 (ucast hi') OR ucast lo'"
proof -
  have "crc_serial 0 (bits_of (msg' @ [hi', lo']))
      = crc_serial (0 XOR 0) (map2 (\<noteq>) (bits_of (msg @ [hi, lo])) (bits_of err))"
    using len by (simp add: bits_of_xor_bytes flip: rcv)
  also have "\<dots> = crc_serial 0 (bits_of (msg @ [hi, lo])) XOR crc_serial 0 (bits_of err)"
    by (rule crc_serial_linear) (simp add: len)
  also have "\<dots> = crc_serial 0 (bits_of err)"
    using code [folded crc_residue] by simp
  finally show ?thesis
    using crc_serial_burst [OF burst] by (simp flip: crc_residue)
qed

end
