(* ===== verification/Wire_Codec.thy ===== *)
theory Wire_Codec
  imports Crc16
begin

text \<open>
  The internal helpers at the top of \<open>src/protocol.cpp\<close>: big-endian reads from a byte vector,
  \<open>append_integral_be\<close>, the scaled conversions of a \<open>float\<close> to a wire integer, and
  \<open>ControllerProtocol::frame\<close>.  A signed integer is its two's complement word; \<open>sint\<close> reads it.
  The lemmas give the round trip of every integer through the wire, the exact condition under
  which a \<open>float\<close> command is representable and the integer it becomes, and the shape of a frame.
\<close>

section \<open>Reads\<close>

definition read_u16 :: "bytes \<Rightarrow> nat \<Rightarrow> u16 checked" where
  "read_u16 p i =
     do { b0 \<leftarrow> read_at p i;
          b1 \<leftarrow> read_at p (i + 1);
          Some (push_bit 8 (ucast b0) OR ucast b1) }"

definition read_i16 :: "bytes \<Rightarrow> nat \<Rightarrow> u16 checked" where
  "read_i16 p i = read_u16 p i"

definition read_u32 :: "bytes \<Rightarrow> nat \<Rightarrow> u32 checked" where
  "read_u32 p i =
     do { b0 \<leftarrow> read_at p i;
          b1 \<leftarrow> read_at p (i + 1);
          b2 \<leftarrow> read_at p (i + 2);
          b3 \<leftarrow> read_at p (i + 3);
          Some (push_bit 24 (ucast b0) OR push_bit 16 (ucast b1) OR push_bit 8 (ucast b2) OR ucast b3) }"

definition read_i32 :: "bytes \<Rightarrow> nat \<Rightarrow> u32 checked" where
  "read_i32 p i = read_u32 p i"

text \<open>The \<open>memcpy\<close> of the bits into a \<open>float\<close>.\<close>

definition read_f32 :: "bytes \<Rightarrow> nat \<Rightarrow> f32 checked" where
  "read_f32 p i = do { bits \<leftarrow> read_u32 p i; Some bits }"

section \<open>Appends\<close>

definition append_integral_be :: "bytes \<Rightarrow> 'a::len word \<Rightarrow> bytes" where
  "append_integral_be payload raw =
     payload @ map (\<lambda>i. ucast (drop_bit (8 * i) raw AND 0xFF)) (rev [0..<LENGTH('a) div 8])"

section \<open>Scaled conversions\<close>

text \<open>\<open>lowest\<close> and \<open>maximum\<close> are the limits of the target type; \<open>scale\<close> is a whole-number literal.\<close>

definition out_of_range :: "f64 \<Rightarrow> int \<Rightarrow> int \<Rightarrow> bool" where
  "out_of_range scaled lowest maximum \<longleftrightarrow>
     \<not> fp_isfinite scaled \<or> fp_less scaled (f64_of_int lowest) \<or> fp_less (f64_of_int maximum) scaled"

definition scaled_integer :: "int \<Rightarrow> int \<Rightarrow> f32 \<Rightarrow> nat \<Rightarrow> int option" where
  "scaled_integer lowest maximum value scale =
     (let scaled = f64_mul (f64_of_f32 value) (f64_of_int (int scale))
      in if out_of_range scaled lowest maximum then None else Some (f64_trunc scaled))"

definition scaled_integer_rounded :: "int \<Rightarrow> int \<Rightarrow> f32 \<Rightarrow> nat \<Rightarrow> int option" where
  "scaled_integer_rounded lowest maximum value scale =
     (let scaled = f64_std_round (f64_mul (f64_of_f32 value) (f64_of_int (int scale)))
      in if out_of_range scaled lowest maximum then None else Some (f64_trunc scaled))"

abbreviation int32_min :: int where "int32_min \<equiv> - 2147483648"
abbreviation int32_max :: int where "int32_max \<equiv> 2147483647"
abbreviation int16_min :: int where "int16_min \<equiv> - 32768"
abbreviation int16_max :: int where "int16_max \<equiv> 32767"

section \<open>Framing\<close>

definition frame :: "payload \<Rightarrow> bytes" where
  "frame payload =
     (let len = length payload
      in if len = 0 \<or> len > kMaxPayloadBytes then []
         else
           let header =
                 (if len \<le> 255 then [0x02, of_nat len]
                  else [0x03, of_nat (drop_bit 8 len AND 0xFF), of_nat (len AND 0xFF)]);
               crc = crc16ccitt payload
           in header @ payload @ [ucast (drop_bit 8 crc AND 0xFF), ucast (crc AND 0xFF), 0x03])"

text \<open>A payload the wire format can carry.\<close>

definition frameable :: "payload \<Rightarrow> bool" where
  "frameable p \<longleftrightarrow> p \<noteq> [] \<and> length p \<le> kMaxPayloadBytes"

lemmas wire_eval [eval_simps] = read_u16_def read_i16_def read_u32_def read_i32_def read_f32_def
  append_integral_be_def frame_def upt_conv_Cons

section \<open>Integers on the wire\<close>

lemma ucast_and_FF: "ucast (w AND 0xFF) = (ucast w :: byte)" for w :: "'a::len word"
proof -
  have "w AND 0xFF = take_bit 8 w" by (simp add: take_bit_eq_mask mask_eq_exp_minus_1)
  moreover have "ucast (take_bit 8 w) = (ucast w :: byte)"
    by (rule bit_word_eqI) (auto simp: bit_simps)
  ultimately show ?thesis by simp
qed

lemma append_be_32:
  "append_integral_be p (w :: u32) =
     p @ [ucast (drop_bit 24 w), ucast (drop_bit 16 w), ucast (drop_bit 8 w), ucast w]"
  by (simp add: append_integral_be_def upt_conv_Cons ucast_and_FF)

lemma append_be_16: "append_integral_be p (w :: u16) = p @ [ucast (drop_bit 8 w), ucast w]"
  by (simp add: append_integral_be_def upt_conv_Cons ucast_and_FF)

lemma join_be_32:
  "push_bit 24 (ucast (ucast (drop_bit 24 w) :: byte)) OR push_bit 16 (ucast (ucast (drop_bit 16 w) :: byte))
     OR push_bit 8 (ucast (ucast (drop_bit 8 w) :: byte)) OR ucast (ucast w :: byte) = (w :: u32)"
proof (rule bit_word_eqI)
  fix n assume "n < LENGTH(32)"
  then have "n < 8 \<or> n \<in> {8..<16} \<or> n \<in> {16..<24} \<or> n \<in> {24..<32}" by auto
  then show "bit (push_bit 24 (ucast (ucast (drop_bit 24 w) :: byte)) OR push_bit 16 (ucast (ucast (drop_bit 16 w) :: byte))
     OR push_bit 8 (ucast (ucast (drop_bit 8 w) :: byte)) OR ucast (ucast w :: byte) :: u32) n = bit w n"
    by (auto simp: bit_simps)
qed

lemma join_be_16:
  "push_bit 8 (ucast (ucast (drop_bit 8 w) :: byte)) OR ucast (ucast w :: byte) = (w :: u16)"
proof (rule bit_word_eqI)
  fix n assume "n < LENGTH(16)"
  then have "n < 8 \<or> n \<in> {8..<16}" by auto
  then show "bit (push_bit 8 (ucast (ucast (drop_bit 8 w) :: byte)) OR ucast (ucast w :: byte) :: u16) n = bit w n"
    by (auto simp: bit_simps)
qed

lemma split_be_16:
  "ucast (drop_bit 8 (push_bit 8 (ucast hi) OR ucast lo :: u16)) = (hi :: byte)"
  "ucast (push_bit 8 (ucast hi) OR ucast lo :: u16) = (lo :: byte)"
proof -
  show "ucast (drop_bit 8 (push_bit 8 (ucast hi) OR ucast lo :: u16)) = hi"
  proof (rule bit_word_eqI)
    fix n assume n: "n < LENGTH(8)"
    have "\<not> bit lo (8 + n)" using bit_imp_le_length [of lo "8 + n"] by auto
    with n show "bit (ucast (drop_bit 8 (push_bit 8 (ucast hi) OR ucast lo :: u16)) :: byte) n = bit hi n"
      by (auto simp: bit_simps)
  qed
  show "ucast (push_bit 8 (ucast hi) OR ucast lo :: u16) = lo"
    by (rule bit_word_eqI) (auto simp: bit_simps)
qed

lemma read_at_append [simp]:
  "read_at (xs @ ys) (length xs) = read_at ys 0"
  "read_at (xs @ ys) (length xs + i) = read_at ys i"
  by (auto simp: read_at_def nth_append)

lemma read_at_Cons [simp]: "read_at (x # xs) 0 = Some x" "read_at (x # xs) (Suc i) = read_at xs i"
  by (auto simp: read_at_def)

lemma read_u32_append: "read_u32 (append_integral_be p w @ rest) (length p) = Some w"
  by (simp add: read_u32_def append_be_32 nth_append join_be_32)

lemma read_u16_append: "read_u16 (append_integral_be p w @ rest) (length p) = Some w"
  by (simp add: read_u16_def append_be_16 nth_append join_be_16)

lemma length_append_be [simp]:
  "length (append_integral_be p (w :: u32)) = length p + 4"
  "length (append_integral_be p (v :: u16)) = length p + 2"
  by (simp_all add: append_be_32 append_be_16)

lemma read_in_range [ub_simps]:
  "i + 1 < length p \<Longrightarrow> \<exists>w. read_u16 p i = Some w"
  "i + 3 < length p \<Longrightarrow> \<exists>v. read_u32 p i = Some v"
  by (simp_all add: read_u16_def read_u32_def)

section \<open>Scaled floats on the wire\<close>

lemma fp_real_f64_of_int [simp]:
  "fp_isfinite (f64_of_int i)" "fp_real (f64_of_int i) = real_of_int i"
  by (simp_all add: f64_of_int_def)

lemma out_of_range_iff:
  "out_of_range x lo hi \<longleftrightarrow> \<not> (fp_isfinite x \<and> real_of_int lo \<le> fp_real x \<and> fp_real x \<le> real_of_int hi)"
  by (auto simp: out_of_range_def fp_less_real not_less)

lemma f64_mul_not_finite: "\<not> f32_isfinite v \<Longrightarrow> \<not> fp_isfinite (f64_mul (f64_of_f32 v) (f64_of_int i))"
  by (cases "f32_decode v") (auto simp: f32_isfinite_def f64_of_f32_def f64_of_int_def)

lemma f64_std_round_finite: "fp_isfinite (f64_std_round x) = fp_isfinite x"
  by (cases x) auto

lemma scaled_integer_iff:
  assumes "scale < 2 ^ 29"
  shows "scaled_integer lo hi v scale = Some k \<longleftrightarrow>
    f32_isfinite v \<and> real_of_int lo \<le> f32_real v * real scale \<and>
    f32_real v * real scale \<le> real_of_int hi \<and> k = trunc_real (f32_real v * real scale)"
proof (cases "f32_isfinite v")
  case True
  from f64_mul_exact [OF this assms] show ?thesis
    using True by (auto simp: scaled_integer_def Let_def out_of_range_iff f64_trunc_real simp del: f64_mul.simps)
next
  case False
  from f64_mul_not_finite [OF this] show ?thesis
    using False by (auto simp: scaled_integer_def Let_def out_of_range_def)
qed

lemma scaled_integer_rounded_iff:
  assumes "scale < 2 ^ 29"
  shows "scaled_integer_rounded lo hi v scale = Some k \<longleftrightarrow>
    f32_isfinite v \<and> lo \<le> round_away (f32_real v * real scale) \<and>
    round_away (f32_real v * real scale) \<le> hi \<and> k = round_away (f32_real v * real scale)"
proof (cases "f32_isfinite v")
  case True
  from f64_mul_exact [OF this assms] show ?thesis
    using True by (auto simp: scaled_integer_rounded_def Let_def out_of_range_iff f64_trunc_real
        f64_std_round_real simp del: f64_mul.simps)
next
  case False
  from f64_mul_not_finite [OF this] show ?thesis
    using False by (auto simp: scaled_integer_rounded_def Let_def out_of_range_def f64_std_round_finite)
qed

lemma trunc_real_between:
  "real_of_int lo \<le> r \<Longrightarrow> r \<le> real_of_int hi \<Longrightarrow> lo \<le> trunc_real r \<and> trunc_real r \<le> hi"
  by (auto simp: trunc_real_def le_ceiling_iff ceiling_le_iff le_floor_iff floor_le_iff; linarith)

lemma sint_word_of_int_32: "int32_min \<le> k \<Longrightarrow> k \<le> int32_max \<Longrightarrow> sint (word_of_int k :: u32) = k"
  by (simp add: sint_sbintrunc' signed_take_bit_int_eq_self)

lemma sint_word_of_int_16: "int16_min \<le> k \<Longrightarrow> k \<le> int16_max \<Longrightarrow> sint (word_of_int k :: u16) = k"
  by (simp add: sint_sbintrunc' signed_take_bit_int_eq_self)

section \<open>The shape of a frame\<close>

definition frame_header :: "nat \<Rightarrow> bytes" where
  "frame_header len =
     (if len \<le> 255 then [0x02, of_nat len]
      else [0x03, of_nat (len div 256), of_nat (len mod 256)])"

definition crc_bytes :: "payload \<Rightarrow> bytes" where
  "crc_bytes p = [ucast (drop_bit 8 (crc16ccitt p)), ucast (crc16ccitt p)]"

lemma nat_and_FF: "n AND 0xFF = n mod 256" for n :: nat
  using take_bit_eq_mask [of 8 n] by (simp add: take_bit_eq_mod mask_eq_exp_minus_1)

lemma frame_eq: "frameable p \<Longrightarrow> frame p = frame_header (length p) @ p @ crc_bytes p @ [0x03]"
proof -
  assume "frameable p"
  then have len: "0 < length p" "length p \<le> 512" by (simp_all add: frameable_def)
  then have "drop_bit 8 (length p) AND 0xFF = length p div 256"
    by (simp add: nat_and_FF drop_bit_eq_div)
  with len show ?thesis
    by (simp add: frame_def Let_def frame_header_def crc_bytes_def nat_and_FF ucast_and_FF)
qed

lemma frame_empty_iff: "frame p = [] \<longleftrightarrow> \<not> frameable p"
  by (auto simp: frame_def Let_def frameable_def)

lemma length_frame:
  "frameable p \<Longrightarrow> length (frame p) = length p + (if length p \<le> 255 then 5 else 6)"
  by (simp add: frame_eq frame_header_def crc_bytes_def)

end
