(* ===== verification/Packet_Parser.thy ===== *)
theory Packet_Parser
  imports Wire_Codec
begin

text \<open>
  \<open>PacketParser\<close> of \<open>src/packet_parser.cpp\<close>: the incremental decoder of framed packets.  Its
  state is the buffer; every read and erase of the buffer is checked, so that a result other
  than \<open>None\<close> means the code stayed inside its vector.
\<close>

section \<open>The code\<close>

datatype decode_result = DecodeSuccess | NeedMoreData | InvalidHeader | InvalidPacket

definition kStartShort :: byte where "kStartShort = 2"
definition kStartLong16 :: byte where "kStartLong16 = 3"
definition kStopByte :: byte where "kStopByte = 3"

text \<open>The second half of \<open>try_decode_packet_\<close>, once the header is known: the result, the payload
  and the packet size (the two out parameters).\<close>

definition decode_body :: "bytes \<Rightarrow> nat \<Rightarrow> nat \<Rightarrow> (decode_result \<times> payload \<times> nat) checked" where
  "decode_body buffer header_len payload_len =
     (let total_len = header_len + payload_len + 2 + 1;
          payload_start = header_len;
          crc_hi_index = payload_start + payload_len;
          crc_lo_index = payload_start + payload_len + 1;
          stop_index = payload_start + payload_len + 2
      in if length buffer < total_len then Some (NeedMoreData, [], total_len)
         else
           do { stop \<leftarrow> read_at buffer stop_index;
                if stop \<noteq> kStopByte then Some (InvalidPacket, [], total_len)
                else
                  do { payload \<leftarrow> subrange buffer payload_start payload_len;
                       crc_hi \<leftarrow> read_at buffer crc_hi_index;
                       crc_lo \<leftarrow> read_at buffer crc_lo_index;
                       let crc_rx = (ucast (push_bit 8 (ucast crc_hi :: u32) OR ucast crc_lo) :: u16);
                       let crc_calc = parser_crc16ccitt payload;
                       if crc_rx \<noteq> crc_calc then Some (InvalidPacket, [], total_len)
                       else Some (DecodeSuccess, payload, total_len) } })"

definition try_decode_packet :: "bytes \<Rightarrow> (decode_result \<times> payload \<times> nat) checked" where
  "try_decode_packet buffer =
     (let available = length buffer
      in if available = 0 then Some (NeedMoreData, [], 0)
         else
           do { start \<leftarrow> read_at buffer 0;
                if start = kStartShort then
                  (if available < 2 then Some (NeedMoreData, [], 0)
                   else
                     do { b1 \<leftarrow> read_at buffer 1;
                          let payload_len = unat b1;
                          if payload_len < 1 then Some (InvalidHeader, [], 2)
                          else decode_body buffer 2 payload_len })
                else if start = kStartLong16 then
                  (if available < 3 then Some (NeedMoreData, [], 0)
                   else
                     do { b1 \<leftarrow> read_at buffer 1;
                          b2 \<leftarrow> read_at buffer 2;
                          let payload_len = push_bit 8 (unat b1) OR unat b2;
                          if payload_len \<le> 255 \<or> payload_len > kMaxPayloadBytes
                          then Some (InvalidHeader, [], 3)
                          else decode_body buffer 3 payload_len })
                else Some (InvalidHeader, [], 1) })"

definition is_start :: "byte \<Rightarrow> bool" where
  "is_start b \<longleftrightarrow> b = kStartShort \<or> b = kStartLong16"

lemma decode_body_size:
  "decode_body buf h n = Some (r, p, sz) \<Longrightarrow> sz = h + n + 3"
  by (auto simp: decode_body_def Let_def bind_eq_Some_conv split: if_splits)

lemma try_decode_invalid_packet_size:
  "try_decode_packet buf = Some (InvalidPacket, p, sz) \<Longrightarrow> 0 < sz"
  by (auto simp: try_decode_packet_def Let_def bind_eq_Some_conv dest!: decode_body_size split: if_splits)

text \<open>The \<open>for (;;)\<close> loop of \<open>feed_byte\<close>: the new buffer and the decoded payload.  The inner loop
  that erases leading bytes is \<open>dropWhile\<close>.\<close>

function feed_loop :: "bytes \<Rightarrow> (bytes \<times> payload option) checked" where
  "feed_loop buffer =
     (let buf = dropWhile (\<lambda>b. \<not> is_start b) buffer
      in if buf = [] then Some ([], None)
         else
           (case try_decode_packet buf of
              None \<Rightarrow> None
            | Some (result, payload, packet_size) \<Rightarrow>
                if result = DecodeSuccess then
                  do { rest \<leftarrow> erase_front packet_size buf; Some (rest, Some payload) }
                else if result = NeedMoreData then Some (buf, None)
                else
                  (case (if result = InvalidHeader then erase_front 1 buf
                         else erase_front packet_size buf) of
                     None \<Rightarrow> None
                   | Some rest \<Rightarrow> if rest = [] then Some ([], None) else feed_loop rest)))"
  by pat_completeness auto
termination
proof (relation "measure length")
  fix buffer buf result payload packet_size rest and x :: "decode_result \<times> payload \<times> nat" and y
  assume buf: "buf = dropWhile (\<lambda>b. \<not> is_start b) buffer" "buf \<noteq> []"
    and dec: "try_decode_packet buf = Some x" "(result, y) = x" "(payload, packet_size) = y"
    and res: "result \<noteq> DecodeSuccess" "result \<noteq> NeedMoreData"
    and rest: "(if result = InvalidHeader then erase_front 1 buf else erase_front packet_size buf) = Some rest"
  have le: "length buf \<le> length buffer" by (simp add: buf length_dropWhile_le)
  have "\<exists>k. 0 < k \<and> rest = drop k buf"
    using rest res dec try_decode_invalid_packet_size [of buf payload packet_size]
    by (cases result) (auto simp: erase_front_def split: if_splits)
  then have "length rest < length buf" using buf(2) by auto
  with le show "(rest, buffer) \<in> measure length" by simp
qed simp

declare feed_loop.simps [simp del]

definition feed_byte :: "bytes \<Rightarrow> byte \<Rightarrow> (bytes \<times> payload option) checked" where
  "feed_byte buffer b = feed_loop (buffer @ [b])"

primrec feed_bytes :: "bytes \<Rightarrow> bytes \<Rightarrow> (bytes \<times> payload list) checked" where
  "feed_bytes buffer [] = Some (buffer, [])"
| "feed_bytes buffer (b # bs) =
     do { (buffer', decoded) \<leftarrow> feed_byte buffer b;
          (buffer'', out) \<leftarrow> feed_bytes buffer' bs;
          Some (buffer'', (case decoded of None \<Rightarrow> out | Some p \<Rightarrow> p # out)) }"

definition parser_reset :: "bytes \<Rightarrow> bytes" where
  "parser_reset buffer = []"

lemmas start_defs = kStartShort_def kStartLong16_def kStopByte_def is_start_def

section \<open>Decoding a buffer of known shape\<close>

lemma long_length: "push_bit 8 (unat (a :: byte)) OR unat (b :: byte) = unat a * 256 + unat b"
proof -
  have "push_bit 8 (unat a) AND unat b = 0"
  proof (rule bit_eqI)
    fix n
    show "bit (push_bit 8 (unat a) AND unat b) n = bit (0 :: nat) n"
      using bit_imp_le_length [of b n] by (auto simp: bit_simps)
  qed
  then have "push_bit 8 (unat a) OR unat b = push_bit 8 (unat a) + unat b"
    by (simp add: disjunctive_add_eq_or)
  then show ?thesis by (simp add: push_bit_eq_mult)
qed

lemma ucast_join_16:
  "ucast (push_bit 8 (ucast (hi :: byte) :: u32) OR ucast (lo :: byte)) = (push_bit 8 (ucast hi) OR ucast lo :: u16)"
  by (rule bit_word_eqI) (auto simp: bit_simps)

lemma decode_body_split:
  assumes "length h = hl" "length p = n"
  shows "decode_body (h @ p @ [hi, lo, stop] @ rest) hl n =
    Some (if stop = 3 \<and> crc16ccitt p = push_bit 8 (ucast hi) OR ucast lo
          then (DecodeSuccess, p, hl + n + 3) else (InvalidPacket, [], hl + n + 3))"
proof -
  let ?b = "h @ p @ [hi, lo, stop] @ rest"
  have "?b ! (hl + n) = hi" "?b ! (hl + n + 1) = lo" "?b ! (hl + n + 2) = stop"
    "take n (drop hl ?b) = p"
    using assms by (simp_all add: nth_append)
  then show ?thesis
    using assms by (auto simp: decode_body_def Let_def kStopByte_def ucast_join_16 parser_crc_eq)
qed

lemma decode_body_short:
  "length buf < hl + n + 3 \<Longrightarrow> decode_body buf hl n = Some (NeedMoreData, [], hl + n + 3)"
  by (simp add: decode_body_def Let_def)

lemma try_decode_start_only [simp]:
  "try_decode_packet [2] = Some (NeedMoreData, [], 0)"
  "try_decode_packet [3] = Some (NeedMoreData, [], 0)"
  "try_decode_packet [3, a] = Some (NeedMoreData, [], 0)"
  by (simp_all add: try_decode_packet_def start_defs)

lemma try_decode_short:
  "try_decode_packet (2 # n # t) =
     (if n = 0 then Some (InvalidHeader, [], 2) else decode_body (2 # n # t) 2 (unat n))"
  by (simp add: try_decode_packet_def start_defs unat_eq_0)

lemma try_decode_long:
  "try_decode_packet (3 # a # b # t) =
     (let len = unat a * 256 + unat b
      in if len \<le> 255 \<or> 512 < len then Some (InvalidHeader, [], 3) else decode_body (3 # a # b # t) 3 len)"
  by (simp add: try_decode_packet_def start_defs long_length Let_def)

section \<open>The states between bytes\<close>

text \<open>A buffer that waits for more bytes: empty, or one candidate whose header is still valid and
  whose declared length is not reached.\<close>

definition long_ok :: "byte \<Rightarrow> byte \<Rightarrow> bool" where
  "long_ok a b \<longleftrightarrow> 255 < unat a * 256 + unat b \<and> unat a * 256 + unat b \<le> 512"

fun waiting :: "bytes \<Rightarrow> bool" where
  "waiting [] = True"
| "waiting [s] = is_start s"
| "waiting [s, a] = ((s = 2 \<and> a \<noteq> 0) \<or> s = 3)"
| "waiting (s # a # b # t) =
     ((s = 2 \<and> a \<noteq> 0 \<and> length t < unat a + 2) \<or>
      (s = 3 \<and> long_ok a b \<and> length t < unat a * 256 + unat b + 3))"

lemma feed_loop_waiting:
  assumes "waiting buf"
  shows "feed_loop buf = Some (buf, None)"
proof -
  have "dropWhile (\<lambda>b. \<not> is_start b) buf = buf"
    using assms by (induction buf rule: waiting.induct) (auto simp: start_defs)
  moreover have "buf = [] \<or> (\<exists>k. try_decode_packet buf = Some (NeedMoreData, [], k))"
    using assms
    by (induction buf rule: waiting.induct)
      (auto simp: start_defs try_decode_short try_decode_long decode_body_short long_ok_def Let_def)
  ultimately show ?thesis
    by (subst feed_loop.simps) (auto simp: Let_def)
qed

lemma waiting_length: "waiting buf \<Longrightarrow> length buf < kMaxFramedPacketBytes"
proof (induction buf rule: waiting.induct)
  case (4 s a b t)
  then show ?case using unat_byte_less [of a] by (auto simp: long_ok_def)
qed simp_all

section \<open>One byte more\<close>

lemma frame_header_short: "a \<noteq> 0 \<Longrightarrow> frame_header (unat a) = [2, a]" for a :: byte
  using unat_byte_less [of a] by (simp add: frame_header_def)

lemma frame_header_long: "long_ok a b \<Longrightarrow> frame_header (unat a * 256 + unat b) = [3, a, b]"
  using unat_byte_less [of b] by (simp add: frame_header_def long_ok_def)

lemma try_decode_candidate:
  assumes "frameable p"
  shows "try_decode_packet (frame_header (length p) @ p @ [hi, lo, stop] @ rest) =
    Some (if stop = 3 \<and> crc16ccitt p = push_bit 8 (ucast hi) OR ucast lo
          then (DecodeSuccess, p, length (frame_header (length p)) + length p + 3)
          else (InvalidPacket, [], length (frame_header (length p)) + length p + 3))"
proof (cases "length p \<le> 255")
  case True
  have n: "unat (of_nat (length p) :: byte) = length p" "(of_nat (length p) :: byte) \<noteq> 0"
    using True assms by (simp_all add: frameable_def unat_of_nat_byte flip: unat_eq_0)
  show ?thesis
    using True n decode_body_split [of "[2, of_nat (length p)]" 2 p "length p" hi lo stop rest]
    by (simp add: frame_header_def try_decode_short)
next
  case False
  then have l: "255 < length p" "length p \<le> 512" using assms by (simp_all add: frameable_def)
  have n: "unat (of_nat (length p div 256) :: byte) = length p div 256"
    "unat (of_nat (length p mod 256) :: byte) = length p mod 256"
    using l by (simp_all add: unat_of_nat_byte)
  show ?thesis
    using False l n decode_body_split
        [of "[3, of_nat (length p div 256), of_nat (length p mod 256)]" 3 p "length p" hi lo stop rest]
    by (simp add: frame_header_def try_decode_long Let_def)
qed

lemma frame_header_start: "\<exists>s t. frame_header n = s # t \<and> is_start s"
  by (simp add: frame_header_def start_defs)

lemma feed_loop_candidate:
  assumes "frameable p"
  shows "feed_loop (frame_header (length p) @ p @ [hi, lo, stop]) =
    Some ([], if stop = 3 \<and> crc16ccitt p = push_bit 8 (ucast hi) OR ucast lo then Some p else None)"
proof -
  let ?b = "frame_header (length p) @ p @ [hi, lo, stop]"
  have d: "dropWhile (\<lambda>b. \<not> is_start b) ?b = ?b" "?b \<noteq> []"
    using frame_header_start [of "length p"] by auto
  show ?thesis
    using try_decode_candidate [OF assms, of hi lo stop "[]"]
    by (subst feed_loop.simps) (simp add: d Let_def erase_front_def)
qed

lemma feed_loop_small:
  assumes "length buf \<le> 2"
  shows "\<exists>rest. feed_loop buf = Some (rest, None) \<and> waiting rest"
proof -
  have one: "\<exists>rest. feed_loop [x] = Some (rest, None) \<and> waiting rest" for x
  proof (cases "is_start x")
    case True
    then show ?thesis using feed_loop_waiting [of "[x]"] by simp
  next
    case False
    then show ?thesis by (subst feed_loop.simps) simp
  qed
  consider "buf = []" | x where "buf = [x]" | x y where "buf = [x, y]"
    using assms by (cases buf; cases "tl buf") auto
  then show ?thesis
  proof cases
    case 1
    then show ?thesis using feed_loop_waiting [of "[]"] by simp
  next
    case 2
    then show ?thesis using one by simp
  next
    case (3 x y)
    show ?thesis
    proof (cases "is_start x")
      case False
      then have "feed_loop buf = feed_loop [y]"
        by (subst (1 2) feed_loop.simps) (simp add: 3)
      then show ?thesis using one [of y] by simp
    next
      case True
      show ?thesis
      proof (cases "waiting [x, y]")
        case False
        then have "x = 2" "y = 0" using True by (auto simp: start_defs)
        then have "feed_loop buf = feed_loop [0]"
          by (subst feed_loop.simps) (simp add: 3 start_defs try_decode_short)
        then show ?thesis using one [of 0] by simp
      qed (use 3 feed_loop_waiting in auto)
    qed
  qed
qed

text \<open>The candidate that a byte completes: the header of its own payload, the payload, and three
  trailing bytes.\<close>

lemma completed_candidate:
  assumes "waiting buf" "\<not> waiting (buf @ [b])" "2 < length buf"
  obtains p hi lo where "frameable p" "buf @ [b] = frame_header (length p) @ p @ [hi, lo, b]"
proof -
  obtain s a c t where buf: "buf = s # a # c # t"
    using assms(3) by (cases buf; cases "tl buf"; cases "tl (tl buf)") auto
  have split: "\<exists>p hi lo. length p = n \<and> xs = p @ [hi, lo]" if "length xs = n + 2" for xs :: bytes and n
  proof -
    have "length (drop n xs) = 2" using that by simp
    then obtain hi lo where "drop n xs = [hi, lo]" by (auto simp only: length_two_iff)
    then have "xs = take n xs @ [hi, lo]" by (metis append_take_drop_id)
    moreover have "length (take n xs) = n" using that by simp
    ultimately show ?thesis by blast
  qed
  show thesis
  proof (cases "s = 2")
    case True
    with assms buf have a: "a \<noteq> 0" and "length (c # t) = unat a + 2" by (auto simp: start_defs)
    from split [OF this(2)] obtain p hi lo where p: "length p = unat a" "c # t = p @ [hi, lo]" by blast
    have "frameable p" using a p unat_byte_less [of a] by (auto simp: frameable_def unat_eq_0)
    moreover have "buf @ [b] = frame_header (length p) @ p @ [hi, lo, b]"
      using True p by (simp add: buf frame_header_short [OF a])
    ultimately show ?thesis by (rule that)
  next
    case False
    with assms buf have s: "s = 3" and l: "long_ok a c" and "length t = (unat a * 256 + unat c) + 2" by auto
    from split [OF this(3)] obtain p hi lo where p: "length p = unat a * 256 + unat c" "t = p @ [hi, lo]"
      by blast
    have "frameable p" using l p by (auto simp: frameable_def long_ok_def)
    moreover have "buf @ [b] = frame_header (length p) @ p @ [hi, lo, b]"
      using s p by (simp add: buf frame_header_long [OF l])
    ultimately show ?thesis by (rule that)
  qed
qed

lemma feed_byte_step:
  assumes "waiting buf"
  obtains
    (keep) "waiting (buf @ [b])" "feed_byte buf b = Some (buf @ [b], None)"
  | (decoded) p where "frameable p" "buf @ [b] = frame p" "feed_byte buf b = Some ([], Some p)"
  | (dropped) "2 < length buf" "feed_byte buf b = Some ([], None)"
  | (resync) rest where "length buf \<le> 2" "feed_byte buf b = Some (rest, None)" "waiting rest"
proof (cases "waiting (buf @ [b])")
  case True
  then show ?thesis using feed_loop_waiting keep by (simp add: feed_byte_def)
next
  case False
  show ?thesis
  proof (cases "2 < length buf")
    case True
    from completed_candidate [OF assms False True] obtain p hi lo
      where p: "frameable p" and b: "buf @ [b] = frame_header (length p) @ p @ [hi, lo, b]" .
    have f: "feed_byte buf b =
        Some ([], if b = 3 \<and> crc16ccitt p = push_bit 8 (ucast hi) OR ucast lo then Some p else None)"
      unfolding feed_byte_def b by (rule feed_loop_candidate [OF p])
    show ?thesis
    proof (cases "b = 3 \<and> crc16ccitt p = push_bit 8 (ucast hi) OR ucast lo")
      case ok: True
      have "crc_bytes p = [hi, lo]"
        by (simp only: crc_bytes_def conjunct2 [OF ok] split_be_16)
      with ok p b have "buf @ [b] = frame p" by (simp add: frame_eq)
      with ok f p show ?thesis using decoded by simp
    next
      case bad: False
      with f True show ?thesis using dropped by auto
    qed
  next
    case small: False
    show ?thesis
    proof (cases "length buf = 2")
      case True
      then obtain s a where buf: "buf = [s, a]" by (auto simp only: length_two_iff)
      have "s = 3" "\<not> long_ok a b"
        using assms False unat_byte_less [of a] by (auto simp: buf start_defs unat_eq_0)
      then have "feed_byte buf b = feed_loop [a, b]"
        unfolding feed_byte_def
        by (subst feed_loop.simps) (auto simp: buf start_defs try_decode_long long_ok_def Let_def)
      with feed_loop_small [of "[a, b]"] show ?thesis using True resync by auto
    next
      case False
      with small have "length (buf @ [b]) \<le> 2" by simp
      from feed_loop_small [OF this] show ?thesis using small resync by (auto simp: feed_byte_def)
    qed
  qed
qed

lemma feed_loop_suffix: "feed_loop buf = Some (rest, r) \<Longrightarrow> \<exists>d. buf = d @ rest"
proof (induction buf rule: feed_loop.induct)
  case (1 buffer)
  define buf where "buf = dropWhile (\<lambda>b. \<not> is_start b) buffer"
  have b: "buffer = takeWhile (\<lambda>b. \<not> is_start b) buffer @ buf" by (simp add: buf_def)
  have front: "\<exists>d. buf = d @ ys" if "erase_front k buf = Some ys" for k ys
    using that by (auto simp: erase_front_def split: if_splits intro: exI [of _ "take k buf"])
  have "\<exists>d. buf = d @ rest"
  proof (cases "buf = []")
    case True
    with "1.prems" show ?thesis by (subst (asm) feed_loop.simps) (simp add: Let_def flip: buf_def)
  next
    case False
    with "1.prems" obtain res p k where dec: "try_decode_packet buf = Some (res, p, k)"
      by (subst (asm) feed_loop.simps) (auto simp: Let_def split: option.splits simp flip: buf_def)
    show ?thesis
    proof (cases "res = DecodeSuccess \<or> res = NeedMoreData")
      case True
      with "1.prems" False dec front show ?thesis
        by (subst (asm) feed_loop.simps) (auto simp: Let_def bind_eq_Some_conv simp flip: buf_def)
    next
      case inv: False
      with "1.prems" False dec obtain ys
        where ys: "(if res = InvalidHeader then erase_front 1 buf else erase_front k buf) = Some ys"
          and r: "(if ys = [] then Some ([], None) else feed_loop ys) = Some (rest, r)"
        by (subst (asm) feed_loop.simps) (auto simp: Let_def split: option.splits simp flip: buf_def)
      obtain d where d: "buf = d @ ys" using ys front by (auto split: if_splits)
      show ?thesis
      proof (cases "ys = []")
        case True
        with r show ?thesis by simp
      next
        case False
        with r have "feed_loop ys = Some (rest, r)" by simp
        from "1.IH" [OF buf_def \<open>buf \<noteq> []\<close> dec refl refl _ _ ys False this] inv
        show ?thesis by (metis d append_assoc)
      qed
    qed
  qed
  with b show ?case by (metis append_assoc)
qed

section \<open>Streams\<close>

lemma feed_bytes_append:
  "feed_bytes buf (xs @ ys) =
     do { (buf', out) \<leftarrow> feed_bytes buf xs; (buf'', out') \<leftarrow> feed_bytes buf' ys; Some (buf'', out @ out') }"
proof (induction xs arbitrary: buf)
  case Nil
  then show ?case by (cases "feed_bytes buf ys") auto
next
  case (Cons b xs)
  show ?case
  proof (cases "feed_byte buf b")
    case (Some r)
    obtain buf' d where r: "r = (buf', d)" by (cases r)
    show ?thesis
      using Cons.IH [of buf'] Some r
      by (cases "feed_bytes buf' xs"; cases "feed_bytes (fst (the (feed_bytes buf' xs))) ys")
        (auto split: option.splits)
  qed simp
qed

lemma feed_bytes_waiting:
  "(\<And>xs ys. zs = xs @ ys \<Longrightarrow> waiting (buf @ xs)) \<Longrightarrow> feed_bytes buf zs = Some (buf @ zs, [])"
proof (induction zs rule: rev_induct)
  case Nil
  then show ?case by simp
next
  case (snoc z zs)
  have "waiting (buf @ xs)" if "zs = xs @ ys" for xs ys using snoc.prems [of xs "ys @ [z]"] that by simp
  then have "feed_bytes buf zs = Some (buf @ zs, [])" by (rule snoc.IH)
  moreover have "waiting (buf @ zs @ [z])" using snoc.prems [of "zs @ [z]" "[]"] by simp
  ultimately show ?case
    using feed_loop_waiting [of "buf @ zs @ [z]"] by (simp add: feed_bytes_append feed_byte_def)
qed

lemma waiting_prefix:
  assumes "frameable p" "xs @ ys = frame_header (length p) @ p @ [hi, lo]"
  shows "waiting xs"
proof (cases "length p \<le> 255")
  case True
  have n: "unat (of_nat (length p) :: byte) = length p" "(of_nat (length p) :: byte) \<noteq> 0"
    using True assms by (simp_all add: frameable_def unat_of_nat_byte flip: unat_eq_0)
  from True assms have xs: "xs @ ys = [2, of_nat (length p)] @ p @ [hi, lo]"
    by (simp add: frame_header_def)
  then have "length (xs @ ys) = length p + 4" by simp
  then have "length xs \<le> length p + 4" by simp
  with xs n show ?thesis
    by (cases xs rule: waiting.cases) (auto simp: start_defs)
next
  case False
  then have l: "255 < length p" "length p \<le> 512" using assms by (simp_all add: frameable_def)
  have n: "unat (of_nat (length p div 256) :: byte) = length p div 256"
    "unat (of_nat (length p mod 256) :: byte) = length p mod 256"
    using l by (simp_all add: unat_of_nat_byte)
  from False assms have xs: "xs @ ys = [3, of_nat (length p div 256), of_nat (length p mod 256)] @ p @ [hi, lo]"
    by (simp add: frame_header_def)
  then have "length (xs @ ys) = length p + 5" by simp
  then have "length xs \<le> length p + 5" by simp
  with xs n l show ?thesis
    by (cases xs rule: waiting.cases) (auto simp: start_defs long_ok_def)
qed

end
