(* ===== verification/Parser_Streams.thy ===== *)
theory Parser_Streams
  imports Packet_Parser
begin

text \<open>
  What the packet parser does with a byte stream: it never leaves its vector and keeps a bounded
  buffer, it returns the payloads of any sequence of frames however the bytes are split into
  reads, it returns nothing that is not a frame of the stream, it drops a frame that a burst has
  damaged and goes on with the next, and it can stay out of step for ever.
\<close>

section \<open>The interface of a packet codec\<close>

text \<open>
  What a client of a framed transport relies on: an encoder of messages, and a decoder that runs
  over a stream, returns the messages it completes and carries a state from one read to the next.
\<close>

primrec over_reads ::
  "('s \<Rightarrow> 'b list \<Rightarrow> ('s \<times> 'm list) checked) \<Rightarrow> 's \<Rightarrow> 'b list list \<Rightarrow> ('s \<times> 'm list) checked" where
  "over_reads run s [] = Some (s, [])"
| "over_reads run s (c # cs) =
     do { (s', out) \<leftarrow> run s c; (s'', out') \<leftarrow> over_reads run s' cs; Some (s'', out @ out') }"

locale packet_codec =
  fixes run :: "'s \<Rightarrow> 'b list \<Rightarrow> ('s \<times> 'm list) checked"
    and encode :: "'m \<Rightarrow> 'b list"
    and idle :: 's
    and valid :: "'m \<Rightarrow> bool"
  assumes run_Nil: "run s [] = Some (s, [])"
    and run_append: "run s (xs @ ys) =
      do { (s', out) \<leftarrow> run s xs; (s'', out') \<leftarrow> run s' ys; Some (s'', out @ out') }"
    and run_encode: "valid m \<Longrightarrow> run idle (encode m) = Some (idle, [m])"
begin

lemma run_stream:
  "(\<And>m. m \<in> set ms \<Longrightarrow> valid m) \<Longrightarrow> run idle (concat (map encode ms)) = Some (idle, ms)"
  by (induction ms) (simp_all add: run_Nil run_append run_encode)

lemma run_recovered:
  "run s xs = Some (idle, out) \<Longrightarrow> (\<And>m. m \<in> set ms \<Longrightarrow> valid m) \<Longrightarrow>
     run s (xs @ concat (map encode ms)) = Some (idle, out @ ms)"
  by (simp add: run_append run_stream)

text \<open>Reads of any size: the concatenation of what the reads return is what one read returns.\<close>

lemma run_reads: "over_reads run s cs = run s (concat cs)"
proof (induction cs arbitrary: s)
  case (Cons c cs)
  then show ?case by (cases "run s c") (auto simp: run_append)
qed (simp add: run_Nil)

end

section \<open>The parser implements it\<close>

lemma feed_bytes_candidate:
  assumes "frameable p"
  shows "feed_bytes [] (frame_header (length p) @ p @ [hi, lo, stop]) =
    Some ([], if stop = 3 \<and> crc16ccitt p = push_bit 8 (ucast hi) OR ucast lo then [p] else [])"
proof -
  let ?c = "frame_header (length p) @ p @ [hi, lo]"
  have "feed_bytes [] ?c = Some ([] @ ?c, [])"
    by (rule feed_bytes_waiting) (use waiting_prefix [OF assms, where hi = hi and lo = lo] in auto)
  moreover have "frame_header (length p) @ p @ [hi, lo, stop] = ?c @ [stop]" by simp
  ultimately show ?thesis
    using feed_loop_candidate [OF assms, of hi lo stop]
    by (simp only: feed_bytes_append) (simp add: feed_byte_def)
qed

lemma crc_bytes_join:
  obtains hi lo where "crc_bytes p = [hi, lo]" "crc16ccitt p = push_bit 8 (ucast hi) OR ucast lo"
  using that [OF crc_bytes_def] by (simp add: join_be_16)

lemma feed_bytes_frame:
  assumes "frameable p"
  shows "feed_bytes [] (frame p) = Some ([], [p])"
proof -
  obtain hi lo where c: "crc_bytes p = [hi, lo]" "crc16ccitt p = push_bit 8 (ucast hi) OR ucast lo"
    by (rule crc_bytes_join)
  then show ?thesis
    using feed_bytes_candidate [OF assms, of hi lo 3] assms by (simp add: frame_eq)
qed

interpretation wire: packet_codec feed_bytes frame "[]" frameable
  by unfold_locales (simp_all add: feed_bytes_append feed_bytes_frame)

section \<open>Safety of one byte and of a stream\<close>

lemma feed_byte_total:
  assumes "waiting buf"
  obtains buf' d where "feed_byte buf b = Some (buf', d)" "waiting buf'"
  by (rule feed_byte_step [OF assms, of b]) (use that in auto)

lemma feed_bytes_total:
  "waiting buf \<Longrightarrow> \<exists>buf' out. feed_bytes buf xs = Some (buf', out) \<and> waiting buf'"
proof (induction xs arbitrary: buf)
  case (Cons b xs)
  obtain buf' d where "feed_byte buf b = Some (buf', d)" "waiting buf'"
    by (rule feed_byte_total [OF Cons.prems])
  with Cons.IH [of buf'] show ?case by auto
qed simp

text \<open>
  C1: The parser never reads or erases outside its buffer, always returns, and between calls
  holds either nothing or one incomplete candidate, so its buffer stays below the size of the
  largest frame, whatever bytes arrive and however they are split into reads.
\<close>

theorem parser_memory_safe:
  "\<exists>buf out. over_reads feed_bytes (parser_reset old) reads = Some (buf, out)
     \<and> waiting buf \<and> length buf < kMaxFramedPacketBytes"
  using feed_bytes_total [of "[]" "concat reads"] waiting_length
  by (auto simp: parser_reset_def wire.run_reads)

text \<open>
  C2: Any sequence of framed payloads, cut into reads at any positions, is decoded to exactly
  that sequence, and the parser is empty afterwards.
\<close>

theorem parser_round_trip:
  assumes "\<And>p. p \<in> set ps \<Longrightarrow> frameable p" "concat reads = concat (map frame ps)"
  shows "over_reads feed_bytes (parser_reset old) reads = Some ([], ps)"
  using wire.run_stream [of ps] assms by (simp add: parser_reset_def wire.run_reads)

theorem parser_round_trip_witness:
  "over_reads feed_bytes (parser_reset [2, 9]) [[2, 1], [0x41, 0x58], [0xE5, 3]] = Some ([], [[0x41]])"
proof (rule parser_round_trip)
  show "concat [[2, 1], [0x41, 0x58], [0xE5, 3]] = concat (map frame [[0x41]])"
    by (simp add: eval_simps)
qed (auto simp: frameable_def)

section \<open>Soundness\<close>

text \<open>\<open>carries xs out buf\<close>: the stream \<open>xs\<close> consists of skipped bytes, of frames whose payloads in
  order are \<open>out\<close>, and of a rest \<open>buf\<close>.\<close>

inductive carries :: "bytes \<Rightarrow> payload list \<Rightarrow> bytes \<Rightarrow> bool" where
  Rest: "carries buf [] buf"
| Skip: "carries xs out buf \<Longrightarrow> carries (b # xs) out buf"
| Frame: "frameable p \<Longrightarrow> carries xs out buf \<Longrightarrow> carries (frame p @ xs) (p # out) buf"

inductive_simps carries_Nil: "carries xs [] buf"

lemma carries_skip: "carries xs out buf \<Longrightarrow> carries (d @ xs) out buf"
  by (induction d) (auto intro: carries.Skip)

lemma feed_bytes_carries:
  "waiting buf \<Longrightarrow> feed_bytes buf xs = Some (buf', out) \<Longrightarrow> carries (buf @ xs) out buf'"
proof (induction xs arbitrary: buf out)
  case Nil
  then show ?case by (simp add: carries.Rest)
next
  case (Cons b xs)
  obtain mid d rest_out where fb: "feed_byte buf b = Some (mid, d)"
    and rest: "feed_bytes mid xs = Some (buf', rest_out)"
    and out: "out = (case d of None \<Rightarrow> rest_out | Some p \<Rightarrow> p # rest_out)"
    using Cons.prems by (auto simp: bind_eq_Some_conv)
  have "waiting mid" using feed_byte_total [OF Cons.prems(1), of b] fb by auto
  then have ih: "carries (mid @ xs) rest_out buf'" using Cons.IH rest by blast
  obtain e where e: "buf @ [b] = e @ mid" using fb feed_loop_suffix unfolding feed_byte_def by blast
  have split: "buf @ b # xs = (e @ mid) @ xs" by (simp flip: e)
  show ?case
  proof (cases d)
    case None
    with carries_skip [OF ih, of e] out show ?thesis unfolding split by simp
  next
    case (Some p)
    then have "frameable p \<and> buf @ [b] = frame p \<and> mid = []"
      using feed_byte_step [OF Cons.prems(1), of b] fb by auto
    with Some out ih e show ?thesis unfolding split using carries.Frame [of p xs rest_out buf'] by simp
  qed
qed

text \<open>
  C3: Nothing is made up: every payload the parser returns is the content of a well-formed frame
  of the stream (right header, CRC and stop byte), distinct payloads come from disjoint frames,
  in the order of the stream, and the buffer is the end of the stream.
\<close>

theorem parser_sound:
  assumes "over_reads feed_bytes (parser_reset old) reads = Some (buf, out)"
  shows "carries (concat reads) out buf"
  using feed_bytes_carries [of "[]" "concat reads" buf out] assms
  by (simp add: parser_reset_def wire.run_reads)

theorem parser_sound_witness:
  "carries (concat [[9 :: byte, 2, 1], [0x41, 0x58, 0xE5, 3, 2]]) [[0x41]] [2]"
proof (rule parser_sound)
  have r: "concat [[9, 2, 1], [0x41, 0x58, 0xE5, 3, 2]] = [9] @ frame [0x41] @ [2]"
    by (simp add: eval_simps)
  have "feed_bytes [] [9] = Some ([], [])" "feed_bytes [] [2] = Some ([2], [])"
    using feed_loop_waiting [of "[2]"] by (simp_all add: feed_byte_def feed_loop.simps [of "[9]"] start_defs)
  then show "over_reads feed_bytes (parser_reset []) [[9, 2, 1], [0x41, 0x58, 0xE5, 3, 2]] = Some ([2], [[0x41]])"
    unfolding wire.run_reads parser_reset_def r feed_bytes_append
    by (simp add: feed_bytes_frame frameable_def del: feed_bytes.simps(2))
qed

section \<open>Damaged streams\<close>

lemma length_xor_bytes [simp]: "length (xor_bytes xs ys) = min (length xs) (length ys)"
  by (simp add: xor_bytes_def)

text \<open>
  C4: A frame whose payload or CRC is hit by an error burst of at most 16 bits is dropped whole
  without a payload, and every frame after it is decoded.
\<close>

theorem parser_drops_burst_damage:
  assumes "frameable p" "length err = length p + 2" "is_burst (bits_of err)"
    and "\<And>q. q \<in> set qs \<Longrightarrow> frameable q"
  shows "feed_bytes [] (frame_header (length p) @ xor_bytes (p @ crc_bytes p) err @ [3] @ concat (map frame qs))
    = Some ([], qs)"
proof -
  obtain hi lo where c: "crc_bytes p = [hi, lo]" "crc16ccitt p = push_bit 8 (ucast hi) OR ucast lo"
    by (rule crc_bytes_join)
  let ?r = "xor_bytes (p @ [hi, lo]) err"
  have "length (drop (length p) ?r) = 2" using assms(2) by simp
  then obtain hi' lo' where d: "drop (length p) ?r = [hi', lo']" by (auto simp only: length_two_iff)
  define p' where "p' = take (length p) ?r"
  have r: "?r = p' @ [hi', lo']" by (metis append_take_drop_id p'_def d)
  have len: "length p' = length p" using assms(2) by (simp add: p'_def)
  have "frameable p'" using assms(1) len by (auto simp: frameable_def)
  moreover have "crc16ccitt p' \<noteq> push_bit 8 (ucast hi') OR ucast lo'"
    by (rule crc_burst_detected [OF assms(2,3) c(2) r])
  ultimately have "feed_bytes [] (frame_header (length p) @ p' @ [hi', lo', 3]) = Some ([], [])"
    using feed_bytes_candidate [of p' hi' lo' 3] by (simp add: len)
  from wire.run_recovered [OF this assms(4)] show ?thesis by (simp add: c r)
qed

theorem parser_drops_burst_damage_witness:
  "feed_bytes [] (frame_header (length [0x41, 0x42 :: byte])
      @ xor_bytes ([0x41, 0x42] @ crc_bytes [0x41, 0x42]) [0, 0xFF, 0x80, 0] @ [3] @ concat (map frame [[7]]))
    = Some ([], [[7]])"
proof (rule parser_drops_burst_damage)
  have "bits_of [0, 0xFF, 0x80, 0] = replicate 8 False @ replicate 9 True @ replicate 15 False"
    by (simp add: bits_of_def byte_bits_def numeral_eq_Suc upt_conv_Cons)
  then show "is_burst (bits_of [0, 0xFF, 0x80, 0])"
    unfolding is_burst_def
    by (intro exI [of _ 8] exI [of _ "replicate 9 True"] exI [of _ 15]) simp
qed (auto simp: frameable_def)

lemma feed_bytes_garbage: "\<forall>b \<in> set g. \<not> is_start b \<Longrightarrow> feed_bytes [] g = Some ([], [])"
  by (induction g) (simp_all add: feed_byte_def feed_loop.simps)

text \<open>
  C5: Line noise before, between and after frames is skipped as long as it holds no start byte:
  every frame after it is still decoded.
\<close>

theorem parser_skips_noise:
  assumes "\<And>g p. (g, p) \<in> set items \<Longrightarrow> (\<forall>b \<in> set g. \<not> is_start b) \<and> frameable p"
  shows "feed_bytes [] (concat (map (\<lambda>(g, p). g @ frame p) items)) = Some ([], map snd items)"
  using assms
proof (induction items)
  case (Cons i items)
  obtain g p where i: "i = (g, p)" by (cases i)
  with Cons.prems [of g p] have "feed_bytes [] g = Some ([], [])" "feed_bytes [] (frame p) = Some ([], [p])"
    by (simp_all add: feed_bytes_garbage feed_bytes_frame)
  moreover have "feed_bytes [] (concat (map (\<lambda>(g, p). g @ frame p) items)) = Some ([], map snd items)"
    by (rule Cons.IH) (use Cons.prems in force)
  ultimately show ?case by (simp add: feed_bytes_append i)
qed simp

theorem parser_skips_noise_witness:
  "feed_bytes [] (concat (map (\<lambda>(g, p). g @ frame p) [([0, 0xFF], [4]), ([4], [5, 6])])) = Some ([], map snd [([0 :: byte, 0xFF], [4]), ([4], [5, 6 :: byte])])"
  by (rule parser_skips_noise) (auto simp: start_defs frameable_def)

section \<open>Staying out of step\<close>

text \<open>The content of a frame that contains the start of a frame of its own length.\<close>

definition echo_payload :: payload where
  "echo_payload = [0, 2, 3]"

text \<open>What the parser holds when it joined the stream of \<open>frame echo_payload\<close> three bytes late.\<close>

definition echo_tail :: bytes where
  "echo_tail = drop 3 (frame echo_payload)"

lemma echo_frame: "frame echo_payload = [2, 3, 0] @ echo_tail"
  by (simp add: echo_tail_def echo_payload_def eval_simps)

lemma echo_tail_bytes: "\<exists>hi lo. echo_tail = [2, 3, hi, lo, 3]"
  by (simp add: echo_tail_def echo_payload_def eval_simps)

lemma feed_echo_tail: "feed_bytes [] echo_tail = Some (echo_tail, [])"
proof -
  obtain hi lo where "echo_tail = frame_header 3 @ [hi, lo, 3]"
    using echo_tail_bytes by (auto simp: frame_header_def)
  then have "waiting xs" if "echo_tail = xs @ ys" for xs ys
    using that waiting_prefix [of "[hi, lo, 3]" xs "ys @ [0, 0]" 0 0] by (simp add: frameable_def numeral_3_eq_3 flip: append_assoc)
  then have "feed_bytes [] echo_tail = Some ([] @ echo_tail, [])"
    by (intro feed_bytes_waiting) simp
  then show ?thesis by simp
qed

lemma feed_echo_frame: "feed_bytes echo_tail (frame echo_payload) = Some (echo_tail, [])"
proof -
  obtain hi lo where t: "echo_tail @ [2, 3, 0] = frame_header (length [hi, lo, 3]) @ [hi, lo, 3] @ [2, 3, 0]"
    using echo_tail_bytes by (auto simp: frame_header_def)
  have "feed_bytes [] (echo_tail @ [2, 3, 0]) = Some ([], [])"
    unfolding t by (subst feed_bytes_candidate) (simp_all add: frameable_def)
  then have "feed_bytes [] ((echo_tail @ [2, 3, 0]) @ echo_tail) = Some (echo_tail, [])"
    by (simp only: feed_bytes_append [of _ "echo_tail @ [2, 3, 0]"]) (simp add: feed_echo_tail)
  then have "feed_bytes [] (echo_tail @ frame echo_payload) = Some (echo_tail, [])"
    by (simp only: echo_frame append_assoc)
  then show ?thesis
    by (simp only: feed_bytes_append feed_echo_tail)
      (cases "feed_bytes echo_tail (frame echo_payload)"; auto)
qed

text \<open>
  C6: Joining a stream in the middle of a frame can leave the parser out of step for ever: if the
  stream repeats one frame that contains the header of a frame of its own length, no number of
  intact frames brings the parser back, and none of their payloads is returned.
\<close>

theorem parser_may_never_resynchronise:
  "feed_bytes [] (drop 3 (frame echo_payload) @ concat (replicate n (frame echo_payload)))
     = Some (drop 3 (frame echo_payload), [])"
proof -
  have "feed_bytes echo_tail (concat (replicate n (frame echo_payload))) = Some (echo_tail, [])"
    by (induction n) (simp_all add: feed_bytes_append feed_echo_frame)
  then show ?thesis
    by (simp add: feed_bytes_append feed_echo_tail flip: echo_tail_def)
qed

end
