(* ===== verification/Protocol_Build.thy ===== *)
theory Protocol_Build
  imports Parser_Streams
begin

text \<open>
  The request builders of \<open>ControllerProtocol\<close> in \<open>src/protocol.cpp\<close>, each a function from the
  arguments of the C++ function to the framed packet, the empty list when the arguments are
  refused.  The lemmas give the exact condition under which each packet is built, its exact
  content, and that every packet is one frame whose payload starts with the command's identifier.
\<close>

section \<open>Requests\<close>

definition build_fw_version_request :: bytes where
  "build_fw_version_request = frame [id_byte FwVersion]"

definition build_get_values_request :: bytes where
  "build_get_values_request = frame [id_byte GetValues]"

definition build_get_imu_data_request :: bytes where
  "build_get_imu_data_request =
     (let payload = [id_byte GetImuData];
          payload = append_integral_be payload (0xFFFF :: u16)
      in frame payload)"

definition build_get_motor_config_request :: bytes where
  "build_get_motor_config_request = frame [id_byte GetMotorConfig]"

definition build_set_motor_config_request :: "motor_config_image \<Rightarrow> bytes" where
  "build_set_motor_config_request img =
     (if length (motor_bytes img) < 4 \<or> length (motor_bytes img) \<ge> kMaxPayloadBytes then []
      else frame ([id_byte SetMotorConfig] @ motor_bytes img))"

definition build_get_app_config_request :: bytes where
  "build_get_app_config_request = frame [id_byte GetAppConfig]"

definition build_set_app_config_request :: "app_config_image \<Rightarrow> app_config_storage \<Rightarrow> bytes" where
  "build_set_app_config_request img storage =
     (if length (app_bytes img) < 4 \<or> length (app_bytes img) \<ge> kMaxPayloadBytes then []
      else
        case storage of
          Volatile \<Rightarrow> frame ([id_byte SetAppConfigNoStore] @ app_bytes img)
        | Persistent \<Rightarrow> frame ([id_byte SetAppConfig] @ app_bytes img)
        | OtherStorage _ \<Rightarrow> [])"

text \<open>The sum of length and offset is taken at 64 bits.\<close>

definition build_lisp_read_request :: "u32 \<Rightarrow> u32 \<Rightarrow> bytes" where
  "build_lisp_read_request len offset =
     (if len = 0 \<or> len > of_nat (kMaxPayloadBytes - 10) \<or>
         (ucast len :: 64 word) + ucast offset > 2147483647
      then []
      else
        let payload = [id_byte LispReadCode];
            payload = append_integral_be payload len;
            payload = append_integral_be payload offset
        in frame payload)"

definition build_lisp_erase_request :: "u32 \<Rightarrow> bytes" where
  "build_lisp_erase_request sz =
     (if sz = 0 \<or> sz > 2147483647 then []
      else frame (append_integral_be [id_byte LispEraseCode] sz))"

definition build_lisp_write_request :: "bytes \<Rightarrow> u32 \<Rightarrow> bytes" where
  "build_lisp_write_request chunk offset =
     (if chunk = [] \<or> length chunk > kMaxPayloadBytes - 5 then []
      else frame (append_integral_be [id_byte LispWriteCode] offset @ chunk))"

definition build_lisp_set_running_request :: "bool \<Rightarrow> bytes" where
  "build_lisp_set_running_request run = frame [id_byte LispSetRunning, (if run then 1 else 0)]"

text \<open>The literals \<open>99999.0f\<close>, \<open>9999.0f\<close> and \<open>999999.0f\<close> are whole numbers below \<open>2 ^ 24\<close>.\<close>

definition foc_out_of_range :: "foc_calibration_parameters \<Rightarrow> bool" where
  "foc_out_of_range p \<longleftrightarrow>
     \<not> f32_less 0 (max_power_loss_w p) \<or>
     f32_less (f32_of_int 99999) (max_power_loss_w p) \<or>
     f32_less (min_input_current_a p) (f32_of_int (- 9999)) \<or>
     f32_less 0 (min_input_current_a p) \<or>
     f32_less (max_input_current_a p) 0 \<or>
     f32_less (f32_of_int 9999) (max_input_current_a p) \<or>
     f32_less (openloop_erpm p) 0 \<or> f32_less (f32_of_int 999999) (openloop_erpm p) \<or>
     f32_less (sensorless_erpm p) 0 \<or> f32_less (f32_of_int 999999) (sensorless_erpm p)"

definition build_foc_calibration_request :: "foc_calibration_parameters \<Rightarrow> bytes" where
  "build_foc_calibration_request p =
     (if foc_out_of_range p then []
      else
        case (scaled_integer_rounded int32_min int32_max (max_power_loss_w p) 1000,
              scaled_integer_rounded int32_min int32_max (min_input_current_a p) 1000,
              scaled_integer_rounded int32_min int32_max (max_input_current_a p) 1000,
              scaled_integer_rounded int32_min int32_max (openloop_erpm p) 1000,
              scaled_integer_rounded int32_min int32_max (sensorless_erpm p) 1000) of
          (Some max_loss, Some min_current, Some max_current, Some openloop, Some sensorless) \<Rightarrow>
            let payload = [id_byte DetectApplyAllFoc, 0];
                payload = append_integral_be payload (word_of_int max_loss :: u32);
                payload = append_integral_be payload (word_of_int min_current :: u32);
                payload = append_integral_be payload (word_of_int max_current :: u32);
                payload = append_integral_be payload (word_of_int openloop :: u32);
                payload = append_integral_be payload (word_of_int sensorless :: u32)
            in frame payload
        | _ \<Rightarrow> [])"

definition build_app_disable_output_command :: "int \<Rightarrow> bytes" where
  "build_app_disable_output_command duration =
     (if duration < 0 \<or> duration > int32_max then []
      else frame (append_integral_be [id_byte AppDisableOutput, 0] (word_of_int duration :: u32)))"

definition pack_lisp_code :: "lisp_code_image \<Rightarrow> bytes" where
  "pack_lisp_code img =
     (if lisp_bytes img = [] \<or> length (lisp_bytes img) > kMaxLispCodeBytes then []
      else
        let code = [0, 0] @ lisp_bytes img;
            packed = append_integral_be [] (of_nat (length (lisp_bytes img)) :: u32);
            packed = append_integral_be packed (crc16ccitt code)
        in packed @ code)"

section \<open>Control commands\<close>

definition build_set_rpm_command :: "u32 \<Rightarrow> bytes" where
  "build_set_rpm_command r = frame (append_integral_be [id_byte SetRpm] r)"

definition build_set_duty_command :: "f32 \<Rightarrow> bytes" where
  "build_set_duty_command duty =
     (case scaled_integer int32_min int32_max duty 100000 of
        None \<Rightarrow> []
      | Some scaled \<Rightarrow>
          if f32_less duty (f32_of_int (- 1)) \<or> f32_less (f32_of_int 1) duty then []
          else frame (append_integral_be [id_byte SetDuty] (word_of_int scaled :: u32)))"

definition build_set_current_command :: "f32 \<Rightarrow> bytes" where
  "build_set_current_command amps =
     (case scaled_integer int32_min int32_max amps 1000 of
        None \<Rightarrow> []
      | Some scaled \<Rightarrow> frame (append_integral_be [id_byte SetCurrent] (word_of_int scaled :: u32)))"

definition build_set_current_brake_command :: "f32 \<Rightarrow> bytes" where
  "build_set_current_brake_command amps =
     (case scaled_integer int32_min int32_max amps 1000 of
        None \<Rightarrow> []
      | Some scaled \<Rightarrow> frame (append_integral_be [id_byte SetCurrentBrake] (word_of_int scaled :: u32)))"

definition build_set_servo_pos_command :: "f32 \<Rightarrow> bytes" where
  "build_set_servo_pos_command position =
     (case scaled_integer int16_min int16_max position 1000 of
        None \<Rightarrow> []
      | Some scaled \<Rightarrow>
          if f32_less position 0 \<or> f32_less (f32_of_int 1) position then []
          else frame (append_integral_be [id_byte SetServoPos] (word_of_int scaled :: u16)))"

section \<open>Comparison with a literal\<close>

lemma f32_zero [simp]: "f32_isfinite 0" "f32_real 0 = 0"
  by (simp_all add: f32_isfinite_def f32_real_def f32_decode_fields)

lemma f32_less_real: "f32_isfinite x \<Longrightarrow> f32_isfinite y \<Longrightarrow> f32_less x y \<longleftrightarrow> f32_real x < f32_real y"
  by (simp add: f32_less_def f32_isfinite_def f32_real_def fp_less_real)

lemma f32_less_literal:
  assumes "f32_isfinite x" "\<bar>i\<bar> < 2 ^ 24"
  shows "f32_less x (f32_of_int i) \<longleftrightarrow> f32_real x < real_of_int i"
    and "f32_less (f32_of_int i) x \<longleftrightarrow> real_of_int i < f32_real x"
  using f32_of_int_exact [OF assms(2)] assms(1) by (simp_all add: f32_less_real)

section \<open>The contract of a control command with a float argument\<close>

text \<open>The big-endian bytes of a word.\<close>

definition be :: "'a::len word \<Rightarrow> bytes" where
  "be w = append_integral_be [] w"

lemma append_be: "append_integral_be p w = p @ be w"
  by (simp add: be_def append_integral_be_def)

lemma length_be [simp]: "length (be (w :: u32)) = 4" "length (be (v :: u16)) = 2"
  by (simp_all add: be_def)

lemma read_be:
  "read_u32 (p @ be w @ rest) (length p) = Some w"
  "read_u16 (p @ be v @ rest) (length p) = Some v"
  using read_u32_append [of p w rest] read_u16_append [of p v rest] by (simp_all add: append_be)

lemma read_be_list:
  fixes ws :: "u32 list"
  shows "i < length ws \<Longrightarrow> n = length pre + 4 * i \<Longrightarrow>
    read_u32 (pre @ concat (map be ws) @ post) n = Some (ws ! i)"
proof (induction ws arbitrary: pre i)
  case (Cons w ws)
  show ?case
  proof (cases i)
    case 0
    with Cons.prems show ?thesis using read_be(1) [of pre w "concat (map be ws) @ post"] by simp
  next
    case (Suc j)
    with Cons.prems Cons.IH [of j "pre @ be w"] show ?thesis by simp
  qed
qed simp

lemma frame_packet_id: "frameable (b # p) \<Longrightarrow> length p < 255 \<Longrightarrow> frame (b # p) ! 2 = b"
  by (simp add: frame_eq frame_header_def)

text \<open>Nothing, or one frame whose payload starts with the identifier of the command.\<close>

definition framed_command :: "command_id \<Rightarrow> bytes \<Rightarrow> bool" where
  "framed_command cid pkt \<longleftrightarrow>
     pkt = [] \<or> (\<exists>body. frameable (id_byte cid # body) \<and> pkt = frame (id_byte cid # body))"

lemma framed_Nil [simp]: "framed_command cid []"
  by (simp add: framed_command_def)

lemma framed_frame: "length body < 512 \<Longrightarrow> framed_command cid (frame (id_byte cid # body))"
  unfolding framed_command_def by (rule disjI2, rule exI [of _ body]) (simp add: frameable_def)

lemma framed_command_decoded:
  "framed_command cid pkt \<Longrightarrow> pkt \<noteq> [] \<Longrightarrow> \<exists>body. feed_bytes [] pkt = Some ([], [id_byte cid # body])"
  by (auto simp: framed_command_def feed_bytes_frame)

locale float_command =
  fixes build :: "f32 \<Rightarrow> bytes"
    and cid :: command_id
    and accepts :: "real \<Rightarrow> bool"
    and body :: "real \<Rightarrow> bytes"
  assumes build_eq: "build v =
      (if f32_isfinite v \<and> accepts (f32_real v) then frame (id_byte cid # body (f32_real v)) else [])"
    and body_short: "length (body r) \<le> 4"
begin

lemma frameable_body: "frameable (id_byte cid # body r)"
  using body_short [of r] by (simp add: frameable_def)

lemma refused_iff: "build v = [] \<longleftrightarrow> \<not> (f32_isfinite v \<and> accepts (f32_real v))"
  using frame_empty_iff [of "id_byte cid # body (f32_real v)"] frameable_body by (simp add: build_eq)

lemma delivered: "build v \<noteq> [] \<Longrightarrow> feed_bytes [] (build v) = Some ([], [id_byte cid # body (f32_real v)])"
  unfolding refused_iff by (simp add: build_eq feed_bytes_frame frameable_body)

lemma packet_id: "build v \<noteq> [] \<Longrightarrow> build v ! 2 = id_byte cid"
  unfolding refused_iff using body_short [of "f32_real v"]
  by (simp add: build_eq frame_packet_id frameable_body)

lemma framed: "framed_command cid (build v)"
  using body_short [of "f32_real v"] by (simp add: build_eq framed_frame)

end

definition duty_range :: "real \<Rightarrow> bool" where "duty_range r \<longleftrightarrow> - 1 \<le> r \<and> r \<le> 1"
definition servo_range :: "real \<Rightarrow> bool" where "servo_range r \<longleftrightarrow> 0 \<le> r \<and> r \<le> 1"
definition current_range :: "real \<Rightarrow> bool" where
  "current_range r \<longleftrightarrow> - 2147483648 \<le> r * 1000 \<and> r * 1000 \<le> 2147483647"

lemmas command_ranges = duty_range_def servo_range_def current_range_def

lemma scaled_current:
  "scaled_integer int32_min int32_max v 1000 =
     (if f32_isfinite v \<and> current_range (f32_real v) then Some (trunc_real (f32_real v * 1000)) else None)"
  using scaled_integer_iff [of 1000 int32_min int32_max v]
  by (cases "scaled_integer int32_min int32_max v 1000") (auto simp: current_range_def)

lemma scaled_duty:
  "f32_isfinite v \<Longrightarrow> duty_range (f32_real v) \<Longrightarrow>
     scaled_integer int32_min int32_max v 100000 = Some (trunc_real (f32_real v * 100000))"
  by (simp add: scaled_integer_iff duty_range_def)

lemma scaled_servo:
  "f32_isfinite v \<Longrightarrow> servo_range (f32_real v) \<Longrightarrow>
     scaled_integer int16_min int16_max v 1000 = Some (trunc_real (f32_real v * 1000))"
  by (simp add: scaled_integer_iff servo_range_def)

lemma scaled_finite: "scale < 2 ^ 29 \<Longrightarrow> scaled_integer lo hi v scale = Some k \<Longrightarrow> f32_isfinite v"
  by (simp add: scaled_integer_iff)

interpretation duty: float_command build_set_duty_command SetDuty duty_range
  "\<lambda>r. be (word_of_int (trunc_real (r * 100000)) :: u32)"
proof
  fix v
  show "build_set_duty_command v = (if f32_isfinite v \<and> duty_range (f32_real v)
      then frame (id_byte SetDuty # be (word_of_int (trunc_real (f32_real v * 100000)) :: u32)) else [])"
    using scaled_duty [of v] f32_less_literal [of v 1] f32_less_literal [of v "- 1"]
    by (cases "f32_isfinite v")
      (auto simp: build_set_duty_command_def append_be duty_range_def split: option.split
        dest: scaled_finite [rotated])
qed simp

interpretation servo: float_command build_set_servo_pos_command SetServoPos servo_range
  "\<lambda>r. be (word_of_int (trunc_real (r * 1000)) :: u16)"
proof
  fix v
  show "build_set_servo_pos_command v = (if f32_isfinite v \<and> servo_range (f32_real v)
      then frame (id_byte SetServoPos # be (word_of_int (trunc_real (f32_real v * 1000)) :: u16)) else [])"
    using scaled_servo [of v] f32_less_literal [of v 1] f32_less_real [of v 0]
    by (cases "f32_isfinite v")
      (auto simp: build_set_servo_pos_command_def append_be servo_range_def split: option.split
        dest: scaled_finite [rotated])
qed simp

interpretation current: float_command build_set_current_command SetCurrent current_range
  "\<lambda>r. be (word_of_int (trunc_real (r * 1000)) :: u32)"
  by unfold_locales (simp_all add: build_set_current_command_def scaled_current append_be)

interpretation brake: float_command build_set_current_brake_command SetCurrentBrake current_range
  "\<lambda>r. be (word_of_int (trunc_real (r * 1000)) :: u32)"
  by unfold_locales (simp_all add: build_set_current_brake_command_def scaled_current append_be)

section \<open>What the firmware receives\<close>

text \<open>The packet decodes to one payload: the identifier and one signed 32-bit (16-bit) integer.\<close>

definition carries_i32 :: "bytes \<Rightarrow> command_id \<Rightarrow> int \<Rightarrow> bool" where
  "carries_i32 pkt cid k \<longleftrightarrow>
     (\<exists>p w. feed_bytes [] pkt = Some ([], [p]) \<and> length p = 5 \<and> p ! 0 = id_byte cid
        \<and> read_i32 p 1 = Some w \<and> sint w = k)"

definition carries_i16 :: "bytes \<Rightarrow> command_id \<Rightarrow> int \<Rightarrow> bool" where
  "carries_i16 pkt cid k \<longleftrightarrow>
     (\<exists>p w. feed_bytes [] pkt = Some ([], [p]) \<and> length p = 3 \<and> p ! 0 = id_byte cid
        \<and> read_i16 p 1 = Some w \<and> sint w = k)"

lemma carries_i32I:
  assumes "feed_bytes [] pkt = Some ([], [id_byte cid # be (w :: u32)])"
  shows "carries_i32 pkt cid (sint w)"
  using assms read_be(1) [of "[id_byte cid]" w "[]"] by (auto simp: carries_i32_def read_i32_def)

lemma carries_i16I:
  assumes "feed_bytes [] pkt = Some ([], [id_byte cid # be (w :: u16)])"
  shows "carries_i16 pkt cid (sint w)"
  using assms read_be(2) [of "[id_byte cid]" w "[]"] by (auto simp: carries_i16_def read_i16_def)

lemma trunc_real_toward_zero:
  "\<bar>real_of_int (trunc_real x)\<bar> \<le> \<bar>x\<bar>" "\<bar>real_of_int (trunc_real x) - x\<bar> < 1"
  by (cases "x < 0"; simp add: trunc_real_def; linarith)+

lemma sint_trunc_32:
  "- 2147483648 \<le> x \<Longrightarrow> x \<le> 2147483647 \<Longrightarrow> sint (word_of_int (trunc_real x) :: u32) = trunc_real x"
  using trunc_real_between [of int32_min x int32_max] by (simp add: sint_word_of_int_32)

lemma sint_trunc_16:
  "- 32768 \<le> x \<Longrightarrow> x \<le> 32767 \<Longrightarrow> sint (word_of_int (trunc_real x) :: u16) = trunc_real x"
  using trunc_real_between [of int16_min x int16_max] by (simp add: sint_word_of_int_16)

text \<open>
  C7: A duty-cycle command is built exactly for a finite duty cycle between -1 and 1; the packet
  is one frame that carries the duty cycle in units of 1/100000, cut toward zero, so the wire
  never asks for a larger magnitude than the caller did.
\<close>

theorem duty_command_exact:
  "if f32_isfinite d \<and> - 1 \<le> f32_real d \<and> f32_real d \<le> 1
   then carries_i32 (build_set_duty_command d) SetDuty (trunc_real (f32_real d * 100000))
     \<and> \<bar>real_of_int (trunc_real (f32_real d * 100000))\<bar> \<le> \<bar>f32_real d * 100000\<bar>
   else build_set_duty_command d = []"
proof (cases "build_set_duty_command d = []")
  case False
  then have "f32_isfinite d \<and> duty_range (f32_real d)" by (simp add: duty.refused_iff)
  moreover from this have "carries_i32 (build_set_duty_command d) SetDuty (trunc_real (f32_real d * 100000))"
    using carries_i32I [OF duty.delivered [OF False]] by (simp add: sint_trunc_32 duty_range_def)
  ultimately show ?thesis by (simp add: duty_range_def trunc_real_toward_zero)
qed (auto simp: duty.refused_iff duty_range_def)

text \<open>
  A servo command is built exactly for a finite position between 0 and 1 and carries the
  position in thousandths, cut toward zero, in 16 bits.
\<close>

theorem servo_command_exact:
  "if f32_isfinite v \<and> 0 \<le> f32_real v \<and> f32_real v \<le> 1
   then carries_i16 (build_set_servo_pos_command v) SetServoPos \<lfloor>f32_real v * 1000\<rfloor>
   else build_set_servo_pos_command v = []"
proof (cases "build_set_servo_pos_command v = []")
  case False
  then have v: "f32_isfinite v \<and> servo_range (f32_real v)" by (simp add: servo.refused_iff)
  then have "trunc_real (f32_real v * 1000) = \<lfloor>f32_real v * 1000\<rfloor>" by (simp add: trunc_real_def servo_range_def)
  moreover have "carries_i16 (build_set_servo_pos_command v) SetServoPos (trunc_real (f32_real v * 1000))"
    using carries_i16I [OF servo.delivered [OF False]] v by (simp add: sint_trunc_16 servo_range_def)
  ultimately show ?thesis using v by (simp add: servo_range_def)
qed (auto simp: servo.refused_iff servo_range_def)

text \<open>
  C9: Current and brake-current commands are built exactly for finite currents whose value in
  milliamperes fits 32 bits; they carry that value cut toward zero, so the magnitude on the wire
  is never above the requested one and differs from it by less than one milliampere.
\<close>

theorem current_commands_exact:
  assumes "(build, cid) \<in> {(build_set_current_command, SetCurrent), (build_set_current_brake_command, SetCurrentBrake)}"
  shows "if f32_isfinite a \<and> - 2147483648 \<le> f32_real a * 1000 \<and> f32_real a * 1000 \<le> 2147483647
   then (\<exists>k. carries_i32 (build a) cid k \<and> \<bar>real_of_int k\<bar> \<le> \<bar>f32_real a * 1000\<bar>
          \<and> \<bar>real_of_int k - f32_real a * 1000\<bar> < 1)
   else build a = []"
proof (cases "f32_isfinite a \<and> current_range (f32_real a)")
  case True
  have "feed_bytes [] (build a) = Some ([], [id_byte cid # be (word_of_int (trunc_real (f32_real a * 1000)) :: u32)])"
    using assms True current.refused_iff brake.refused_iff current.delivered brake.delivered by auto
  then have "carries_i32 (build a) cid (trunc_real (f32_real a * 1000))"
    using carries_i32I [of "build a" cid "word_of_int (trunc_real (f32_real a * 1000))"] True
    by (simp add: sint_trunc_32 current_range_def)
  with True show ?thesis using trunc_real_toward_zero [of "f32_real a * 1000"] by (auto simp: current_range_def)
next
  case False
  then have "build a = []" using assms current.refused_iff brake.refused_iff by auto
  with False show ?thesis by (auto simp: current_range_def)
qed

theorem current_commands_exact_witness:
  "\<exists>k. carries_i32 (build_set_current_command 0x3FC00000) SetCurrent k
     \<and> \<bar>real_of_int k\<bar> \<le> \<bar>f32_real 0x3FC00000 * 1000\<bar> \<and> \<bar>real_of_int k - f32_real 0x3FC00000 * 1000\<bar> < 1"
proof -
  have "f32_isfinite 0x3FC00000" "f32_real 0x3FC00000 = 1.5"
    by (simp_all add: f32_isfinite_def f32_real_def f32_decode_fields power_int_def power_one_over)
  then show ?thesis
    using current_commands_exact [where build = build_set_current_command and cid = SetCurrent and a = "0x3FC00000"] by simp
qed

section \<open>FOC calibration requests\<close>

lemma round_away_between:
  "real_of_int lo \<le> r \<Longrightarrow> r \<le> real_of_int hi \<Longrightarrow> lo \<le> round_away r \<and> round_away r \<le> hi"
  by (cases "r < 0"; simp add: round_away_def; linarith)

lemma scaled_rounded_1000:
  assumes "f32_isfinite v" "\<bar>f32_real v\<bar> \<le> 1000000"
  shows "scaled_integer_rounded int32_min int32_max v 1000 = Some (round_away (f32_real v * 1000))"
  using assms round_away_between [of int32_min "f32_real v * 1000" int32_max]
  by (simp add: scaled_integer_rounded_iff)

lemma scaled_rounded_not_finite: "\<not> f32_isfinite v \<Longrightarrow> scaled_integer_rounded int32_min int32_max v 1000 = None"
  using scaled_integer_rounded_iff [of 1000 int32_min int32_max v]
  by (cases "scaled_integer_rounded int32_min int32_max v 1000") auto

definition foc_acceptable :: "foc_calibration_parameters \<Rightarrow> bool" where
  "foc_acceptable p \<longleftrightarrow>
     (\<forall>v \<in> {max_power_loss_w p, min_input_current_a p, max_input_current_a p, openloop_erpm p, sensorless_erpm p}.
        f32_isfinite v) \<and>
     0 < f32_real (max_power_loss_w p) \<and> f32_real (max_power_loss_w p) \<le> 99999 \<and>
     - 9999 \<le> f32_real (min_input_current_a p) \<and> f32_real (min_input_current_a p) \<le> 0 \<and>
     0 \<le> f32_real (max_input_current_a p) \<and> f32_real (max_input_current_a p) \<le> 9999 \<and>
     0 \<le> f32_real (openloop_erpm p) \<and> f32_real (openloop_erpm p) \<le> 999999 \<and>
     0 \<le> f32_real (sensorless_erpm p) \<and> f32_real (sensorless_erpm p) \<le> 999999"

definition foc_payload :: "foc_calibration_parameters \<Rightarrow> payload" where
  "foc_payload p =
     [id_byte DetectApplyAllFoc, 0] @
     concat (map (\<lambda>v. be (word_of_int (round_away (f32_real v * 1000)) :: u32))
       [max_power_loss_w p, min_input_current_a p, max_input_current_a p, openloop_erpm p, sensorless_erpm p])"

lemma foc_out_of_range_finite:
  assumes "\<forall>v \<in> {max_power_loss_w p, min_input_current_a p, max_input_current_a p, openloop_erpm p, sensorless_erpm p}.
        f32_isfinite v"
  shows "foc_out_of_range p \<longleftrightarrow> \<not> foc_acceptable p"
  using assms by (auto simp: foc_out_of_range_def foc_acceptable_def f32_less_literal f32_less_real)

lemma build_foc_eq:
  "build_foc_calibration_request p = (if foc_acceptable p then frame (foc_payload p) else [])"
proof (cases "\<forall>v \<in> {max_power_loss_w p, min_input_current_a p, max_input_current_a p, openloop_erpm p, sensorless_erpm p}.
        f32_isfinite v")
  case True
  show ?thesis
    using foc_out_of_range_finite [OF True] True
    by (auto simp: build_foc_calibration_request_def foc_payload_def append_be foc_acceptable_def
        scaled_rounded_1000)
next
  case False
  then have "\<not> foc_acceptable p" unfolding foc_acceptable_def by blast
  with False show ?thesis
    by (auto simp: build_foc_calibration_request_def scaled_rounded_not_finite split: option.split)
qed

lemma frameable_foc: "frameable (foc_payload p)"
  by (simp add: foc_payload_def frameable_def)

text \<open>
  C10: A calibration request is built exactly when all five parameters are finite and inside
  their limits (a NaN, which passes every comparison of the range check, is refused by the
  conversion); it decodes to the identifier, the local-bus byte and the parameters in
  thousandths, rounded half away from zero, each readable as a signed 32-bit integer.
\<close>

theorem foc_request_exact:
  "if foc_acceptable p
   then feed_bytes [] (build_foc_calibration_request p) = Some ([], [foc_payload p])
     \<and> length (foc_payload p) = 22 \<and> take 2 (foc_payload p) = [id_byte DetectApplyAllFoc, 0]
     \<and> map (\<lambda>i. map_option sint (read_i32 (foc_payload p) i)) [2, 6, 10, 14, 18] =
         map (\<lambda>v. Some (round_away (f32_real v * 1000)))
           [max_power_loss_w p, min_input_current_a p, max_input_current_a p, openloop_erpm p, sensorless_erpm p]
   else build_foc_calibration_request p = []"
proof (cases "foc_acceptable p")
  case True
  define w where "w v = (word_of_int (round_away (f32_real v * 1000)) :: u32)" for v
  have s: "sint (w v) = round_away (f32_real v * 1000)" if "\<bar>f32_real v\<bar> \<le> 1000000" for v
    using that round_away_between [of int32_min "f32_real v * 1000" int32_max]
    by (simp add: w_def sint_word_of_int_32)
  let ?ws = "map w [max_power_loss_w p, min_input_current_a p, max_input_current_a p, openloop_erpm p, sensorless_erpm p]"
  have p: "foc_payload p = [id_byte DetectApplyAllFoc, 0] @ concat (map be ?ws) @ []"
    by (simp add: foc_payload_def w_def)
  have "read_u32 (foc_payload p) (2 + 4 * i) = Some (?ws ! i)" if "i < 5" for i
    unfolding p by (rule read_be_list) (use that in simp_all)
  from this [of 0] this [of 1] this [of 2] this [of 3] this [of 4]
  have r: "read_u32 (foc_payload p) 2 = Some (w (max_power_loss_w p))"
    "read_u32 (foc_payload p) 6 = Some (w (min_input_current_a p))"
    "read_u32 (foc_payload p) 10 = Some (w (max_input_current_a p))"
    "read_u32 (foc_payload p) 14 = Some (w (openloop_erpm p))"
    "read_u32 (foc_payload p) 18 = Some (w (sensorless_erpm p))"
    by simp_all
  have l: "length (foc_payload p) = 22" "take 2 (foc_payload p) = [id_byte DetectApplyAllFoc, 0]"
    by (simp_all add: foc_payload_def)
  from True show ?thesis
    by (simp add: build_foc_eq feed_bytes_frame frameable_foc read_i32_def r l s foc_acceptable_def)
qed (simp add: build_foc_eq)

section \<open>Every packet is one frame of its command\<close>

lemmas request_defs = build_fw_version_request_def build_get_values_request_def
  build_get_imu_data_request_def build_get_motor_config_request_def
  build_set_motor_config_request_def build_get_app_config_request_def
  build_set_app_config_request_def build_lisp_read_request_def build_lisp_erase_request_def
  build_lisp_write_request_def build_lisp_set_running_request_def
  build_app_disable_output_command_def build_set_rpm_command_def

lemma framed_foc: "framed_command DetectApplyAllFoc (build_foc_calibration_request p)"
  using framed_frame [of "tl (foc_payload p)" DetectApplyAllFoc]
  by (simp add: build_foc_eq foc_payload_def del: id_byte.simps)

text \<open>
  C11: Whatever its arguments, every builder returns either nothing or exactly one frame whose
  payload starts with the identifier of its command, so the parser at the other end decodes it
  to one payload of that command.  A storage that is none of the two of the enumeration yields
  nothing.
\<close>

theorem built_packets_framed:
  "framed_command FwVersion build_fw_version_request
   \<and> framed_command GetValues build_get_values_request
   \<and> framed_command GetImuData build_get_imu_data_request
   \<and> framed_command GetMotorConfig build_get_motor_config_request
   \<and> framed_command SetMotorConfig (build_set_motor_config_request motor)
   \<and> framed_command GetAppConfig build_get_app_config_request
   \<and> framed_command SetAppConfigNoStore (build_set_app_config_request app Volatile)
   \<and> framed_command SetAppConfig (build_set_app_config_request app Persistent)
   \<and> build_set_app_config_request app (OtherStorage n) = []
   \<and> framed_command LispReadCode (build_lisp_read_request len offset)
   \<and> framed_command LispEraseCode (build_lisp_erase_request len)
   \<and> framed_command LispWriteCode (build_lisp_write_request chunk offset)
   \<and> framed_command LispSetRunning (build_lisp_set_running_request run)
   \<and> framed_command DetectApplyAllFoc (build_foc_calibration_request foc)
   \<and> framed_command AppDisableOutput (build_app_disable_output_command ms)
   \<and> framed_command SetRpm (build_set_rpm_command r)
   \<and> framed_command SetDuty (build_set_duty_command v)
   \<and> framed_command SetCurrent (build_set_current_command v)
   \<and> framed_command SetCurrentBrake (build_set_current_brake_command v)
   \<and> framed_command SetServoPos (build_set_servo_pos_command v)"
  by (simp add: request_defs append_be framed_frame framed_foc duty.framed current.framed
      brake.framed servo.framed del: id_byte.simps)

section \<open>Stored code\<close>

text \<open>
  C12: A LispBM image is packed exactly when it holds between 1 and 524274 bytes.  The packed form
  is eight bytes longer; it starts with the image's length and a CRC that equals the CRC of
  everything after the first six bytes, and the image follows two zero flag bytes unchanged.
\<close>

theorem packed_lisp_layout:
  "if 1 \<le> length (lisp_bytes img) \<and> length (lisp_bytes img) \<le> 524274
   then length (pack_lisp_code img) = length (lisp_bytes img) + 8
     \<and> map_option unat (read_u32 (pack_lisp_code img) 0) = Some (length (lisp_bytes img))
     \<and> read_u16 (pack_lisp_code img) 4 = Some (crc16ccitt (drop 6 (pack_lisp_code img)))
     \<and> drop 6 (pack_lisp_code img) = [0, 0] @ lisp_bytes img
   else pack_lisp_code img = []"
proof (cases "1 \<le> length (lisp_bytes img) \<and> length (lisp_bytes img) \<le> 524274")
  case True
  let ?n = "of_nat (length (lisp_bytes img)) :: u32"
  let ?code = "[0, 0] @ lisp_bytes img"
  have p: "pack_lisp_code img = be ?n @ be (crc16ccitt ?code) @ ?code"
    using True by (auto simp: pack_lisp_code_def append_be Let_def)
  have "unat ?n = length (lisp_bytes img)" using True by (simp add: unat_of_nat take_bit_nat_eq_self)
  moreover have "read_u32 (pack_lisp_code img) 0 = Some ?n"
    using read_be(1) [of "[]" ?n] by (simp add: p)
  moreover have "read_u16 (pack_lisp_code img) 4 = Some (crc16ccitt ?code)"
    using read_be(2) [of "be ?n" "crc16ccitt ?code" ?code] by (simp add: p)
  moreover have "drop 6 (pack_lisp_code img) = ?code" by (simp add: p)
  ultimately show ?thesis using True by (simp add: p)
qed (auto simp: pack_lisp_code_def Suc_le_eq)

lemma sum_64: "unat ((ucast (a :: u32) :: 64 word) + ucast (b :: u32)) = unat a + unat b"
proof -
  have "unat a < 2 ^ 32" "unat b < 2 ^ 32"
    using unsigned_less [of a, where ?'a = nat] unsigned_less [of b, where ?'a = nat] by simp_all
  then show ?thesis by (simp add: unat_word_ariths unsigned_ucast_eq take_bit_nat_eq_self)
qed

text \<open>
  C13: A read request for stored code is sent exactly for 1 to 502 bytes that end within the
  signed 32-bit range; a write request exactly for 1 to 507 bytes; an erase request exactly for
  a positive size in the signed range.  The length and offset on the wire are then non-negative
  as the signed integers the firmware reads.
\<close>

theorem lisp_request_bounds:
  "(build_lisp_read_request len offset \<noteq> [] \<longleftrightarrow>
      1 \<le> unat len \<and> unat len \<le> 502 \<and> unat len + unat offset \<le> 2147483647)
   \<and> (build_lisp_write_request chunk offset \<noteq> [] \<longleftrightarrow> 1 \<le> length chunk \<and> length chunk \<le> 507)
   \<and> (build_lisp_erase_request len \<noteq> [] \<longleftrightarrow> 1 \<le> unat len \<and> 0 \<le> sint len)"
proof (intro conjI)
  have [simp]: "frame (b # body) \<noteq> []" if "length body < 512" for b body
    using that by (simp add: frame_empty_iff frameable_def)
  have z: "len \<noteq> 0 \<longleftrightarrow> 1 \<le> unat len" by (simp add: unat_eq_0 Suc_le_eq flip: unat_gt_0)
  have "(2147483647 :: 64 word) < ucast len + ucast offset \<longleftrightarrow> 2147483647 < unat len + unat offset"
    by (simp add: word_less_nat_alt sum_64)
  then show "build_lisp_read_request len offset \<noteq> [] \<longleftrightarrow>
      1 \<le> unat len \<and> unat len \<le> 502 \<and> unat len + unat offset \<le> 2147483647"
    using z by (auto simp: build_lisp_read_request_def append_be word_less_nat_alt)
  show "build_lisp_write_request chunk offset \<noteq> [] \<longleftrightarrow> 1 \<le> length chunk \<and> length chunk \<le> 507"
    by (auto simp: build_lisp_write_request_def append_be Suc_le_eq)
  show "build_lisp_erase_request len \<noteq> [] \<longleftrightarrow> 1 \<le> unat len \<and> 0 \<le> sint len"
    using z bit_last_iff [of len] f32_fields(3) [of len]
    by (auto simp: build_lisp_erase_request_def append_be word_less_nat_alt)
qed

end
