(* ===== verification/Protocol_Parse.thy ===== *)
theory Protocol_Parse
  imports Protocol_Build
begin

text \<open>
  The response parsers of \<open>ControllerProtocol\<close> in \<open>src/protocol.cpp\<close>.  Each takes the payload of a
  decoded packet and returns \<open>None\<close> if the code would read outside the payload, and otherwise what
  the C++ function returns.  The lemmas show that no parser ever reads outside, which payloads are
  refused, and which value each field gets, with the accuracy of the float fields.
\<close>

section \<open>The parsers\<close>

definition has_id :: "payload \<Rightarrow> command_id \<Rightarrow> bool checked" where
  "has_id payload cid = do { b \<leftarrow> read_at payload 0; Some (b = id_byte cid) }"

definition parse_config_image :: "payload \<Rightarrow> command_id \<Rightarrow> bytes option checked" where
  "parse_config_image payload expected_id =
     (if length payload < 1 + 4 \<or> length payload > kMaxPayloadBytes then Some None
      else
        do { ok \<leftarrow> has_id payload expected_id;
             if \<not> ok then Some None
             else do { rest \<leftarrow> erase_front 1 payload; Some (Some rest) } })"

definition parse_fw_version :: "payload \<Rightarrow> fw_version option checked" where
  "parse_fw_version payload =
     (if length payload < 3 then Some None
      else
        do { ok \<leftarrow> has_id payload FwVersion;
             if \<not> ok then Some None
             else
               do { b1 \<leftarrow> read_at payload 1;
                    b2 \<leftarrow> read_at payload 2;
                    Some (Some \<lparr>major = b1, minor = b2\<rparr>) } })"

text \<open>\<open>static_cast<float>(x) / d\<close> for a signed wire integer and a whole-number literal.\<close>

definition scaled_f32 :: "int \<Rightarrow> int \<Rightarrow> f32" where
  "scaled_f32 k d = f32_div (f32_of_int k) (f32_of_int d)"

definition parse_get_values :: "payload \<Rightarrow> motor_state option checked" where
  "parse_get_values payload =
     (let kMinLen = 1 + 53; kStatusOffset = 72; kStatusLen = 1 + kStatusOffset + 1
      in if length payload < kMinLen then Some None
         else
           do { ok \<leftarrow> has_id payload GetValues;
                if \<not> ok then Some None
                else
                  do { let p = 1;
                       tfet \<leftarrow> read_i16 payload (p + 0);
                       tmotor \<leftarrow> read_i16 payload (p + 2);
                       cmotor \<leftarrow> read_i32 payload (p + 4);
                       cin \<leftarrow> read_i32 payload (p + 8);
                       duty \<leftarrow> read_i16 payload (p + 20);
                       erpm \<leftarrow> read_i32 payload (p + 22);
                       v \<leftarrow> read_i16 payload (p + 26);
                       tacho \<leftarrow> read_i32 payload (p + 44);
                       tacho_abs \<leftarrow> read_i32 payload (p + 48);
                       fault \<leftarrow> read_at payload (p + 52);
                       let s = default_motor_state
                         \<lparr>temp_fet := scaled_f32 (sint tfet) 10,
                          temp_motor := scaled_f32 (sint tmotor) 10,
                          current_motor := scaled_f32 (sint cmotor) 100,
                          current_in := scaled_f32 (sint cin) 100,
                          duty_cycle := scaled_f32 (sint duty) 1000,
                          rpm := f32_of_int (sint erpm),
                          vin := scaled_f32 (sint v) 10,
                          tachometer := tacho,
                          tachometer_abs := tacho_abs,
                          fault_code := fault\<rparr>;
                       if length payload \<ge> kStatusLen then
                         do { status \<leftarrow> read_at payload (p + kStatusOffset);
                              Some (Some (s\<lparr>has_timeout := status AND 0x01 \<noteq> 0,
                                            kill_switch_active := status AND 0x02 \<noteq> 0\<rparr>)) }
                       else Some (Some s) } })"

text \<open>\<open>__builtin_popcount\<close> of the 16-bit mask.\<close>

definition popcount16 :: "u16 \<Rightarrow> nat" where
  "popcount16 msk = length (filter (bit msk) [0..<16])"

text \<open>The lambda \<open>next_if_present\<close>: its captured state is the read position and the field bit.\<close>

definition next_if_present :: "payload \<Rightarrow> u16 \<Rightarrow> nat \<times> u32 \<Rightarrow> f32 \<Rightarrow> (f32 \<times> nat \<times> u32) checked" where
  "next_if_present payload msk c field =
     (case c of (p, field_bit) \<Rightarrow>
        if (ucast msk :: u32) AND field_bit \<noteq> 0
        then do { v \<leftarrow> read_f32 payload p; Some (v, p + 4, push_bit 1 field_bit) }
        else Some (field, p, push_bit 1 field_bit))"

definition parse_get_imu_data :: "payload \<Rightarrow> imu_data option checked" where
  "parse_get_imu_data payload =
     (if length payload < 3 then Some None
      else
        do { ok \<leftarrow> has_id payload GetImuData;
             if \<not> ok then Some None
             else
               do { msk \<leftarrow> read_u16 payload 1;
                    let field_count = popcount16 msk;
                    if length payload < 3 + field_count * 4 then Some None
                    else
                      do { let d = default_imu_data;
                           (x0, c) \<leftarrow> next_if_present payload msk (3, 1) (roll d);
                           (x1, c) \<leftarrow> next_if_present payload msk c (pitch d);
                           (x2, c) \<leftarrow> next_if_present payload msk c (yaw d);
                           (x3, c) \<leftarrow> next_if_present payload msk c (acc_x d);
                           (x4, c) \<leftarrow> next_if_present payload msk c (acc_y d);
                           (x5, c) \<leftarrow> next_if_present payload msk c (acc_z d);
                           (x6, c) \<leftarrow> next_if_present payload msk c (gyro_x d);
                           (x7, c) \<leftarrow> next_if_present payload msk c (gyro_y d);
                           (x8, c) \<leftarrow> next_if_present payload msk c (gyro_z d);
                           (x9, c) \<leftarrow> next_if_present payload msk c (mag_x d);
                           (x10, c) \<leftarrow> next_if_present payload msk c (mag_y d);
                           (x11, c) \<leftarrow> next_if_present payload msk c (mag_z d);
                           (x12, c) \<leftarrow> next_if_present payload msk c (quat_w d);
                           (x13, c) \<leftarrow> next_if_present payload msk c (quat_x d);
                           (x14, c) \<leftarrow> next_if_present payload msk c (quat_y d);
                           (x15, c) \<leftarrow> next_if_present payload msk c (quat_z d);
                           Some (Some (d\<lparr>roll := x0, pitch := x1, yaw := x2,
                                         acc_x := x3, acc_y := x4, acc_z := x5,
                                         gyro_x := x6, gyro_y := x7, gyro_z := x8,
                                         mag_x := x9, mag_y := x10, mag_z := x11,
                                         quat_w := x12, quat_x := x13, quat_y := x14, quat_z := x15\<rparr>)) } } })"

definition parse_motor_config :: "payload \<Rightarrow> motor_config_image option checked" where
  "parse_motor_config payload =
     do { r \<leftarrow> parse_config_image payload GetMotorConfig;
          Some (map_option (\<lambda>b. \<lparr>motor_bytes = b\<rparr>) r) }"

definition parse_app_config :: "payload \<Rightarrow> app_config_image option checked" where
  "parse_app_config payload =
     do { r \<leftarrow> parse_config_image payload GetAppConfig;
          Some (map_option (\<lambda>b. \<lparr>app_bytes = b\<rparr>) r) }"

text \<open>The chunk and the two out parameters \<open>total_size\<close> and \<open>offset\<close>.\<close>

definition parse_lisp_read_reply :: "payload \<Rightarrow> (payload \<times> u32 \<times> u32) option checked" where
  "parse_lisp_read_reply payload =
     (if length payload < 9 then Some None
      else
        do { ok \<leftarrow> has_id payload LispReadCode;
             if \<not> ok then Some None
             else
               do { total \<leftarrow> read_i32 payload 1;
                    chunk_offset \<leftarrow> read_i32 payload 5;
                    let chunk_size = length payload - 9;
                    if sint total < 0 \<or> sint chunk_offset < 0 \<or>
                       nat (sint total) > kMaxLispCodeBytes \<or>
                       nat (sint chunk_offset) + chunk_size > nat (sint total) \<or>
                       (total = 0 \<and> (chunk_offset \<noteq> 0 \<or> chunk_size \<noteq> 0))
                    then Some None
                    else do { chunk \<leftarrow> erase_front 9 payload; Some (Some (chunk, total, chunk_offset)) } } })"

definition parse_config_ack :: "payload \<Rightarrow> command_id \<Rightarrow> bool checked" where
  "parse_config_ack payload expected_id =
     (if length payload \<noteq> 1 then Some False else has_id payload expected_id)"

definition parse_lisp_write_ack :: "payload \<Rightarrow> u32 \<Rightarrow> bool checked" where
  "parse_lisp_write_ack payload expected_offset =
     (if length payload \<noteq> 6 then Some False
      else
        do { ok \<leftarrow> has_id payload LispWriteCode;
             if \<not> ok then Some False
             else
               do { b1 \<leftarrow> read_at payload 1;
                    if b1 \<noteq> 1 then Some False
                    else do { off \<leftarrow> read_u32 payload 2; Some (off = expected_offset) } } })"

definition parse_bool_ack :: "payload \<Rightarrow> command_id \<Rightarrow> bool checked" where
  "parse_bool_ack payload expected_id =
     (if length payload \<noteq> 2 then Some False
      else
        do { ok \<leftarrow> has_id payload expected_id;
             if \<not> ok then Some False
             else do { b1 \<leftarrow> read_at payload 1; Some (b1 = 1) } })"

definition parse_foc_calibration_reply :: "payload \<Rightarrow> u16 option checked" where
  "parse_foc_calibration_reply payload =
     (if length payload \<noteq> 3 then Some None
      else
        do { ok \<leftarrow> has_id payload DetectApplyAllFoc;
             if \<not> ok then Some None
             else do { code \<leftarrow> read_i16 payload 1; Some (Some code) } })"

section \<open>No parser reads outside its payload\<close>

lemma has_id_in_range [ub_simps]: "payload \<noteq> [] \<Longrightarrow> has_id payload cid = Some (payload ! 0 = id_byte cid)"
  by (simp add: has_id_def)

lemma read_word_in_range [ub_simps]:
  "i + 1 < length p \<Longrightarrow> read_u16 p i = Some (push_bit 8 (ucast (p ! i)) OR ucast (p ! (i + 1)))"
  "i + 3 < length p \<Longrightarrow> read_u32 p i = Some (push_bit 24 (ucast (p ! i)) OR push_bit 16 (ucast (p ! (i + 1)))
     OR push_bit 8 (ucast (p ! (i + 2))) OR ucast (p ! (i + 3)))"
  by (simp_all add: read_u16_def read_u32_def)

section \<open>The fields of an IMU sample\<close>

definition imu_fields :: "imu_data \<Rightarrow> f32 list" where
  "imu_fields d =
     [roll d, pitch d, yaw d, acc_x d, acc_y d, acc_z d, gyro_x d, gyro_y d, gyro_z d,
      mag_x d, mag_y d, mag_z d, quat_w d, quat_x d, quat_y d, quat_z d]"

text \<open>The sequence of calls of \<open>next_if_present\<close>.\<close>

primrec next_fields :: "payload \<Rightarrow> u16 \<Rightarrow> nat \<times> u32 \<Rightarrow> f32 list \<Rightarrow> (f32 list \<times> nat \<times> u32) checked" where
  "next_fields payload msk c [] = Some ([], c)"
| "next_fields payload msk c (f # fs) =
     do { (v, c') \<leftarrow> next_if_present payload msk c f;
          (vs, c'') \<leftarrow> next_fields payload msk c' fs;
          Some (v # vs, c'') }"

text \<open>How many of the fields \<open>i, ..., i + n - 1\<close> the mask announces.\<close>

definition announced :: "u16 \<Rightarrow> nat \<Rightarrow> nat \<Rightarrow> nat" where
  "announced msk i n = length (filter (bit msk) [i..<i + n])"

lemma announced_simps:
  "announced msk i 0 = 0"
  "announced msk i (Suc n) = (if bit msk i then 1 else 0) + announced msk (Suc i) n"
  by (simp_all add: announced_def upt_conv_Cons del: upt_Suc)

lemma field_bit_set: "i < 16 \<Longrightarrow> (ucast (msk :: u16) :: u32) AND 2 ^ i \<noteq> 0 \<longleftrightarrow> bit msk i"
  using and_exp_eq_0_iff_not_bit [of "ucast msk :: u32" i]
  by (simp add: bit_ucast_iff)

lemma next_fields_layout:
  assumes "i + length fs \<le> 16" "p + 4 * announced msk i (length fs) \<le> length payload"
  shows "\<exists>vs c. next_fields payload msk (p, 2 ^ i) fs = Some (vs, c) \<and> length vs = length fs \<and>
    (\<forall>j < length fs.
       if bit msk (i + j) then read_f32 payload (p + 4 * announced msk i j) = Some (vs ! j) else vs ! j = fs ! j)"
  using assms
proof (induction fs arbitrary: i p)
  case Nil
  then show ?case by simp
next
  case (Cons f fs)
  define p' where "p' = p + (if bit msk i then 4 else 0)"
  have shift: "push_bit (Suc 0) (2 ^ i :: u32) = 2 ^ Suc i" by (simp add: push_bit_eq_mult)
  obtain v where v: "next_if_present payload msk (p, 2 ^ i) f = Some (v, p', 2 ^ Suc i)"
    and vv: "if bit msk i then read_f32 payload p = Some v else v = f"
  proof (cases "bit msk i")
    case True
    with Cons.prems have "p + 3 < length payload" by (simp add: announced_simps)
    then obtain w where "read_f32 payload p = Some w"
      by (auto simp: read_f32_def read_word_in_range)
    with True Cons.prems that show ?thesis
      by (simp add: next_if_present_def field_bit_set shift p'_def del: push_bit_Suc power_Suc)
  next
    case False
    with Cons.prems that show ?thesis
      by (simp add: next_if_present_def field_bit_set shift p'_def del: push_bit_Suc power_Suc)
  qed
  have "p' + 4 * announced msk (Suc i) (length fs) \<le> length payload"
    using Cons.prems by (simp add: announced_simps p'_def split: if_splits)
  with Cons.IH [of "Suc i" p'] Cons.prems obtain vs c
    where vs: "next_fields payload msk (p', 2 ^ Suc i) fs = Some (vs, c)" "length vs = length fs"
      and each: "\<forall>j < length fs. if bit msk (Suc i + j)
        then read_f32 payload (p' + 4 * announced msk (Suc i) j) = Some (vs ! j) else vs ! j = fs ! j"
    by auto
  have "if bit msk (i + j) then read_f32 payload (p + 4 * announced msk i j) = Some ((v # vs) ! j)
      else (v # vs) ! j = (f # fs) ! j" if "j < length (f # fs)" for j
    using that each vv by (cases j) (auto simp: announced_simps p'_def add.assoc split: if_splits)
  with v vs show ?case by (auto simp del: power_Suc)
qed

lemma parse_imu_fields:
  assumes "3 \<le> length payload" "payload ! 0 = id_byte GetImuData" "read_u16 payload 1 = Some msk"
    "3 + popcount16 msk * 4 \<le> length payload"
    "next_fields payload msk (3, 1) (imu_fields default_imu_data) = Some (vs, c)"
  shows "\<exists>d. parse_get_imu_data payload = Some (Some d) \<and> imu_fields d = vs \<and> imu_stamp_ns d = 0"
proof -
  have [simp]: "payload \<noteq> []" using assms(1) by auto
  show ?thesis
    using assms(1-4) assms(5) [unfolded imu_fields_def]
    by (auto simp: parse_get_imu_data_def has_id_in_range imu_fields_def bind_eq_Some_conv default_imu_data_def)
qed

lemma parse_imu_total: "\<exists>r. parse_get_imu_data payload = Some r"
proof (cases "3 \<le> length payload \<and> payload ! 0 = id_byte GetImuData")
  case True
  then have [simp]: "payload \<noteq> []" by auto
  obtain msk where msk: "read_u16 payload 1 = Some msk" using True by (simp add: read_word_in_range)
  show ?thesis
  proof (cases "3 + popcount16 msk * 4 \<le> length payload")
    case long: True
    have "length (imu_fields default_imu_data) = 16" by (simp add: imu_fields_def)
    then obtain vs c where "next_fields payload msk (3, 1) (imu_fields default_imu_data) = Some (vs, c)"
      using next_fields_layout [of 0 "imu_fields default_imu_data" 3 msk payload] long
      by (auto simp: popcount16_def announced_def)
    from parse_imu_fields [OF _ _ msk long this] True show ?thesis by auto
  qed (use True msk in \<open>simp add: parse_get_imu_data_def has_id_in_range\<close>)
qed (cases "3 \<le> length payload"; cases payload; auto simp: parse_get_imu_data_def has_id_def)

text \<open>
  C14: An IMU reply is accepted exactly when it is a \<open>GetImuData\<close> payload that is long enough for
  the fields its mask announces.  Field number \<open>j\<close> (roll, pitch, yaw, the accelerations, ..., in
  the order of the mask bits) is then the big-endian float after the announced fields before it,
  or its default (1 for the quaternion's w, 0 for the rest) when the mask leaves it out; no read
  leaves the payload.
\<close>

theorem imu_reply_layout:
  "if 3 \<le> length payload \<and> payload ! 0 = id_byte GetImuData
      \<and> 3 + 4 * announced (the (read_u16 payload 1)) 0 16 \<le> length payload
   then \<exists>d msk. parse_get_imu_data payload = Some (Some d) \<and> read_u16 payload 1 = Some msk
     \<and> length (imu_fields d) = 16
     \<and> (\<forall>j < 16. if bit msk j then read_f32 payload (3 + 4 * announced msk 0 j) = Some (imu_fields d ! j)
                  else imu_fields d ! j = (if j = 12 then 0x3F800000 else 0))
   else parse_get_imu_data payload = Some None"
proof (cases "3 \<le> length payload \<and> payload ! 0 = id_byte GetImuData")
  case True
  then have [simp]: "payload \<noteq> []" by auto
  obtain msk where msk: "read_u16 payload 1 = Some msk"
    using True by (simp add: read_word_in_range)
  have pop: "popcount16 msk = announced msk 0 16" by (simp add: popcount16_def announced_def)
  show ?thesis
  proof (cases "3 + 4 * announced msk 0 16 \<le> length payload")
    case long: True
    have len: "length (imu_fields default_imu_data) = 16" by (simp add: imu_fields_def)
    from next_fields_layout [of 0 "imu_fields default_imu_data" 3 msk payload] long
    obtain vs c where vs: "next_fields payload msk (3, 1) (imu_fields default_imu_data) = Some (vs, c)"
      "length vs = 16"
      and each: "\<forall>j < 16. if bit msk j then read_f32 payload (3 + 4 * announced msk 0 j) = Some (vs ! j)
        else vs ! j = imu_fields default_imu_data ! j"
      by (auto simp: len)
    have dflt: "imu_fields default_imu_data ! j = (if j = 12 then 0x3F800000 else 0)" if "j < 16" for j
      using that by (auto simp: imu_fields_def default_imu_data_def nth_Cons' less_Suc_eq numeral_eq_Suc)
    obtain d where "parse_get_imu_data payload = Some (Some d)" "imu_fields d = vs"
      using parse_imu_fields [of payload msk vs c] True msk long vs pop by (auto simp: mult.commute)
    with True msk long vs each dflt show ?thesis by auto
  next
    case False
    with True msk pop show ?thesis
      by (simp add: parse_get_imu_data_def has_id_in_range mult.commute)
  qed
next
  case False
  then show ?thesis
    by (cases "3 \<le> length payload"; cases payload) (auto simp: parse_get_imu_data_def has_id_def)
qed

theorem imu_reply_layout_witness:
  "\<exists>d msk. parse_get_imu_data [65, 0x10, 0x01, 1, 2, 3, 4, 5, 6, 7, 8] = Some (Some d)
     \<and> read_u16 [65 :: byte, 0x10, 0x01, 1, 2, 3, 4, 5, 6, 7, 8] 1 = Some msk
     \<and> length (imu_fields d) = 16
     \<and> (\<forall>j < 16. if bit msk j
           then read_f32 [65, 0x10, 0x01, 1, 2, 3, 4, 5, 6, 7, 8] (3 + 4 * announced msk 0 j) = Some (imu_fields d ! j)
           else imu_fields d ! j = (if j = 12 then 0x3F800000 else 0))"
  using imu_reply_layout [of "[65, 0x10, 0x01, 1, 2, 3, 4, 5, 6, 7, 8]"]
  by (simp add: eval_simps announced_def)

section \<open>The fields of a motor sample\<close>

text \<open>A float that is finite and differs from \<open>r\<close> by at most the fraction \<open>eps\<close> of it.\<close>

definition approximates :: "f32 \<Rightarrow> real \<Rightarrow> real \<Rightarrow> bool" where
  "approximates x r eps \<longleftrightarrow> f32_isfinite x \<and> \<bar>f32_real x - r\<bar> \<le> \<bar>r\<bar> * eps"

lemma quotient_range:
  assumes "1 / 2 \<le> \<bar>x\<bar>" "\<bar>x\<bar> \<le> 2 ^ 32" "1 \<le> d" "d \<le> (1000 :: real)"
  shows "2 powi (- 126) \<le> \<bar>x / d\<bar> \<and> \<bar>x / d\<bar> < 2 powi 127"
proof -
  have "1 / 2 / 1000 \<le> \<bar>x\<bar> / d" using assms by (intro frac_le) auto
  moreover have "\<bar>x\<bar> / d \<le> 2 ^ 32 / 1" using assms by (intro frac_le) auto
  ultimately show ?thesis using assms by (simp add: abs_divide power_int_minus)
qed

lemma scaled_f32_div:
  assumes "1 \<le> d" "d \<le> 1000" "\<bar>k\<bar> \<le> 2 ^ 31"
  defines "x \<equiv> f32_real (f32_of_int k)"
  shows "approximates (scaled_f32 k d) (x / real_of_int d) (2 powi (- 24))"
proof -
  have d: "f32_isfinite (f32_of_int d)" "f32_real (f32_of_int d) = real_of_int d"
    using f32_of_int_exact [of d] assms by auto
  have k: "f32_isfinite (f32_of_int k)" "\<bar>x - real_of_int k\<bar> \<le> \<bar>real_of_int k\<bar> * 2 powi (- 24)"
    using f32_of_int_error [OF assms(3)] by (auto simp: x_def)
  have "x = 0 \<or> (1 / 2 \<le> \<bar>x\<bar> \<and> \<bar>x\<bar> \<le> 2 ^ 32)"
  proof (cases "k = 0")
    case True
    with k show ?thesis by simp
  next
    case False
    then have "1 \<le> \<bar>real_of_int k\<bar>" by simp
    moreover have "\<bar>real_of_int k\<bar> \<le> 2 ^ 31" using assms(3) by (simp flip: of_int_abs)
    ultimately show ?thesis using k(2) by (simp add: power_int_minus abs_if split: if_splits; linarith)
  qed
  then have "x / real_of_int d = 0 \<or>
      (2 powi (- 126) \<le> \<bar>x / real_of_int d\<bar> \<and> \<bar>x / real_of_int d\<bar> < 2 powi 127)"
    using quotient_range [of x "real_of_int d"] assms(1,2) by auto
  then show ?thesis
    using f32_div_error [of "f32_of_int k" "f32_of_int d"] d k(1) assms(1)
    by (simp add: approximates_def scaled_f32_def x_def)
qed

lemma scaled_f32_small:
  assumes "1 \<le> d" "d \<le> 1000" "\<bar>k\<bar> < 2 ^ 24"
  shows "approximates (scaled_f32 k d) (real_of_int k / real_of_int d) (2 powi (- 24))"
  using scaled_f32_div [of d k] f32_of_int_exact [of k] assms by simp

lemma scaled_f32_wide:
  assumes "1 \<le> d" "d \<le> 1000" "\<bar>k\<bar> \<le> 2 ^ 31"
  shows "approximates (scaled_f32 k d) (real_of_int k / real_of_int d) (2 powi (- 22))"
proof -
  define u x q :: real where "u = 2 powi (- 24)" and "x = f32_real (f32_of_int k)"
    and "q = f32_real (scaled_f32 k d)"
  have u: "0 \<le> u" "u \<le> 1" "2 powi (- 22) = 4 * u" by (simp_all add: u_def power_int_minus)
  have D: "0 < real_of_int d" using assms(1) by simp
  have "\<bar>x - real_of_int k\<bar> \<le> \<bar>real_of_int k\<bar> * u"
    using f32_of_int_error [OF assms(3)] by (simp add: x_def u_def)
  then have e1: "\<bar>x / real_of_int d - real_of_int k / real_of_int d\<bar> \<le> \<bar>real_of_int k / real_of_int d\<bar> * u"
    using D by (simp add: abs_divide divide_right_mono flip: diff_divide_distrib)
  have e2: "f32_isfinite (scaled_f32 k d)" "\<bar>q - x / real_of_int d\<bar> \<le> \<bar>x / real_of_int d\<bar> * u"
    using scaled_f32_div [OF assms] by (simp_all add: approximates_def q_def x_def u_def)
  have combine: "\<bar>q' - r\<bar> \<le> \<bar>r\<bar> * (4 * u)" if "\<bar>y - r\<bar> \<le> \<bar>r\<bar> * u" "\<bar>q' - y\<bar> \<le> \<bar>y\<bar> * u" for q' r y
  proof -
    have "\<bar>r\<bar> * u \<le> \<bar>r\<bar> * 1" using u by (intro mult_left_mono) auto
    with that(1) have "\<bar>y\<bar> \<le> 2 * \<bar>r\<bar>" by linarith
    then have "\<bar>y\<bar> * u \<le> 2 * \<bar>r\<bar> * u" using u(1) by (rule mult_right_mono)
    with that have "\<bar>q' - r\<bar> \<le> 3 * (\<bar>r\<bar> * u)" by linarith
    also have "\<dots> \<le> 4 * (\<bar>r\<bar> * u)" using u(1) by simp
    finally show ?thesis by simp
  qed
  from combine [OF e1 e2(2)] e2(1) show ?thesis unfolding approximates_def q_def u(3) by blast
qed

text \<open>The signed integers at an offset of a payload.\<close>

definition i16_at :: "payload \<Rightarrow> nat \<Rightarrow> int" where
  "i16_at payload i = sint (the (read_u16 payload i))"

definition i32_at :: "payload \<Rightarrow> nat \<Rightarrow> int" where
  "i32_at payload i = sint (the (read_u32 payload i))"

lemma i16_at_bound: "\<bar>i16_at payload i\<bar> < 2 ^ 24"
  using sint_range_size [of "the (read_u16 payload i)"] by (simp add: i16_at_def word_size abs_if)

lemma i32_at_bound: "\<bar>i32_at payload i\<bar> \<le> 2 ^ 31"
  using sint_range_size [of "the (read_u32 payload i)"] by (simp add: i32_at_def word_size abs_if)

text \<open>What \<open>parse_get_values\<close> computes from a payload it accepts.\<close>

definition values_of :: "payload \<Rightarrow> motor_state" where
  "values_of p =
     \<lparr>motor_stamp_ns = 0, rpm = f32_of_int (i32_at p 23),
      current_motor = scaled_f32 (i32_at p 5) 100, current_in = scaled_f32 (i32_at p 9) 100,
      duty_cycle = scaled_f32 (i16_at p 21) 1000, vin = scaled_f32 (i16_at p 27) 10,
      temp_motor = scaled_f32 (i16_at p 3) 10, temp_fet = scaled_f32 (i16_at p 1) 10,
      tachometer = the (read_u32 p 45), tachometer_abs = the (read_u32 p 49), fault_code = p ! 53,
      has_timeout = (74 \<le> length p \<and> bit (p ! 73) 0),
      kill_switch_active = (74 \<le> length p \<and> bit (p ! 73) (Suc 0))\<rparr>"

lemma byte_flags: "b AND 0x01 \<noteq> 0 \<longleftrightarrow> bit b 0" "b AND 0x02 \<noteq> 0 \<longleftrightarrow> bit b (Suc 0)" for b :: byte
  using and_exp_eq_0_iff_not_bit [of b 0] and_exp_eq_0_iff_not_bit [of b 1] by simp_all

lemma read_some:
  assumes "54 \<le> length p"
  shows "i < 50 \<Longrightarrow> \<exists>w. read_u16 p i = Some w" "i < 50 \<Longrightarrow> \<exists>v. read_u32 p i = Some v"
  using assms by (auto simp: read_word_in_range)

lemma parse_get_values_eq:
  "parse_get_values p =
     Some (if 54 \<le> length p \<and> p ! 0 = id_byte GetValues then Some (values_of p) else None)"
proof (cases "54 \<le> length p")
  case True
  then have [simp]: "p \<noteq> []" by auto
  obtain a1 a3 a21 a27 where [simp]: "read_u16 p 1 = Some a1" "read_u16 p 3 = Some a3"
    "read_u16 p 21 = Some a21" "read_u16 p 27 = Some a27"
    using read_some(1) [OF True, of 1] read_some(1) [OF True, of 3] read_some(1) [OF True, of 21]
      read_some(1) [OF True, of 27] by auto
  obtain b5 b9 b23 b45 b49 where [simp]: "read_u32 p 5 = Some b5" "read_u32 p 9 = Some b9"
    "read_u32 p 23 = Some b23" "read_u32 p 45 = Some b45" "read_u32 p 49 = Some b49"
    using read_some(2) [OF True, of 5] read_some(2) [OF True, of 9] read_some(2) [OF True, of 23]
      read_some(2) [OF True, of 45] read_some(2) [OF True, of 49] by auto
  have [simp]: "read_u16 p (Suc 0) = Some a1" "read_u16 p (Suc (Suc (Suc 0))) = Some a3"
    using \<open>read_u16 p 1 = Some a1\<close> \<open>read_u16 p 3 = Some a3\<close> by (simp_all add: numeral_3_eq_3)
  show ?thesis
    using True
    by (auto simp: parse_get_values_def Let_def has_id_in_range read_i16_def read_i32_def values_of_def
        default_motor_state_def i16_at_def i32_at_def byte_flags)
qed (simp add: parse_get_values_def)

text \<open>
  C15: A telemetry reply is accepted exactly when it is a \<open>GetValues\<close> payload of at least 54 bytes.
  Every float field is finite and accurate: the fields scaled from 16 bits and the speed to a
  relative error of \<open>2 ^ - 24\<close> (half a unit in the last place), the two currents, which round twice,
  to \<open>2 ^ - 22\<close>.  The tachometers and the fault code are exact, and the two status flags are set
  only by the status byte of a reply of at least 74 bytes.
\<close>

theorem motor_reply_accuracy:
  "if 54 \<le> length p \<and> p ! 0 = id_byte GetValues
   then \<exists>s. parse_get_values p = Some (Some s)
     \<and> approximates (temp_fet s) (real_of_int (i16_at p 1) / 10) (2 powi (- 24))
     \<and> approximates (temp_motor s) (real_of_int (i16_at p 3) / 10) (2 powi (- 24))
     \<and> approximates (current_motor s) (real_of_int (i32_at p 5) / 100) (2 powi (- 22))
     \<and> approximates (current_in s) (real_of_int (i32_at p 9) / 100) (2 powi (- 22))
     \<and> approximates (duty_cycle s) (real_of_int (i16_at p 21) / 1000) (2 powi (- 24))
     \<and> approximates (rpm s) (real_of_int (i32_at p 23)) (2 powi (- 24))
     \<and> approximates (vin s) (real_of_int (i16_at p 27) / 10) (2 powi (- 24))
     \<and> sint (tachometer s) = i32_at p 45 \<and> sint (tachometer_abs s) = i32_at p 49
     \<and> fault_code s = p ! 53
     \<and> (has_timeout s \<longleftrightarrow> 74 \<le> length p \<and> bit (p ! 73) 0)
     \<and> (kill_switch_active s \<longleftrightarrow> 74 \<le> length p \<and> bit (p ! 73) 1)
   else parse_get_values p = Some None"
proof (cases "54 \<le> length p \<and> p ! 0 = id_byte GetValues")
  case True
  have small: "approximates (scaled_f32 (i16_at p i) d) (real_of_int (i16_at p i) / real_of_int d) (2 powi (- 24))"
    if "1 \<le> d" "d \<le> 1000" for i d
    using that by (rule scaled_f32_small) (rule i16_at_bound)
  have wide: "approximates (scaled_f32 (i32_at p i) 100) (real_of_int (i32_at p i) / real_of_int 100) (2 powi (- 22))" for i
    by (rule scaled_f32_wide) (simp_all add: i32_at_bound [simplified])
  have speed: "approximates (f32_of_int (i32_at p 23)) (real_of_int (i32_at p 23)) (2 powi (- 24))"
    unfolding approximates_def by (rule f32_of_int_error) (rule i32_at_bound)
  show ?thesis
    unfolding if_P [OF True]
    by (rule exI [of _ "values_of p"])
      (use True small [of 10] small [of 1000] wide speed in \<open>simp add: parse_get_values_eq values_of_def i32_at_def\<close>)
next
  case False
  show ?thesis
    unfolding if_not_P [OF False] parse_get_values_eq by (simp only: if_False)
qed

section \<open>Configuration images\<close>

lemma parse_config_image_eq:
  "parse_config_image payload cid =
     Some (if 5 \<le> length payload \<and> length payload \<le> 512 \<and> payload ! 0 = id_byte cid
           then Some (tl payload) else None)"
  by (cases payload) (auto simp: parse_config_image_def has_id_def)

text \<open>
  C16: A motor or application configuration that was read can always be written back: the image
  of every accepted reply yields a set request, which carries exactly the bytes that were read
  under the identifier of the set command (only a storage that is none of the two of the
  enumeration yields no request).
\<close>

theorem config_image_round_trip:
  "(parse_motor_config payload = Some (Some motor) \<longrightarrow>
      feed_bytes [] (build_set_motor_config_request motor) = Some ([], [id_byte SetMotorConfig # tl payload]))
   \<and> (parse_app_config payload = Some (Some app) \<longrightarrow>
      feed_bytes [] (build_set_app_config_request app storage) =
        Some ([], case storage of
            Volatile \<Rightarrow> [id_byte SetAppConfigNoStore # tl payload]
          | Persistent \<Rightarrow> [id_byte SetAppConfig # tl payload]
          | OtherStorage _ \<Rightarrow> []))"
  by (auto simp: parse_motor_config_def parse_app_config_def parse_config_image_eq request_defs
      feed_bytes_frame frameable_def split: if_splits app_config_storage.split)

theorem config_image_round_trip_witness:
  "feed_bytes [] (build_set_motor_config_request \<lparr>motor_bytes = [1, 2, 3, 4, 5]\<rparr>) = Some ([], [[13, 1, 2, 3, 4, 5]])
   \<and> feed_bytes [] (build_set_app_config_request \<lparr>app_bytes = [1, 2, 3, 4]\<rparr> Volatile) = Some ([], [[149, 1, 2, 3, 4]])"
  using config_image_round_trip [of "[14, 1, 2, 3, 4, 5]" "\<lparr>motor_bytes = [1, 2, 3, 4, 5]\<rparr>"]
    config_image_round_trip [of "[17, 1, 2, 3, 4]" _ "\<lparr>app_bytes = [1, 2, 3, 4]\<rparr>" Volatile]
  by (simp add: parse_motor_config_def parse_app_config_def parse_config_image_eq)

section \<open>Stored code and acknowledgements\<close>

lemma sint_nonneg_unat: "0 \<le> sint w \<Longrightarrow> nat (sint w) = unat w" for w :: "'a::len word"
proof -
  assume "0 \<le> sint w"
  moreover have "sint w < 2 ^ LENGTH('a)"
    by (rule less_le_trans [OF sint_lt]) (rule power_increasing, simp_all)
  ultimately have "uint w = sint w" by (simp add: uint_sint take_bit_int_eq_self)
  then show ?thesis by (metis nat_uint_eq)
qed

lemma sint_eq_0: "sint w = 0 \<longleftrightarrow> w = 0" for w :: "'a::len word"
  using uint_sint [of w] by (auto simp: uint_0_iff)

lemma parse_lisp_read_reply_eq:
  "parse_lisp_read_reply p =
     Some (if 9 \<le> length p \<and> p ! 0 = id_byte LispReadCode \<and> 0 \<le> i32_at p 1 \<and> 0 \<le> i32_at p 5
             \<and> i32_at p 1 \<le> 524274 \<and> i32_at p 5 + int (length p - 9) \<le> i32_at p 1
           then Some (drop 9 p, the (read_u32 p 1), the (read_u32 p 5)) else None)"
proof (cases "9 \<le> length p")
  case True
  then have [simp]: "p \<noteq> []" by auto
  obtain t where t: "read_u32 p 1 = Some t" using True by (simp add: read_word_in_range)
  obtain c where c: "read_u32 p 5 = Some c" using True by (simp add: read_word_in_range)
  have "t = 0 \<longleftrightarrow> sint t = 0" by (simp add: sint_eq_0)
  moreover have "c = 0 \<longleftrightarrow> sint c = 0" by (simp add: sint_eq_0)
  ultimately show ?thesis
    using True t c by (auto simp: parse_lisp_read_reply_def has_id_in_range read_i32_def i32_at_def)
qed (simp add: parse_lisp_read_reply_def)

lemma sint_small: "unat w < 2 ^ 31 \<Longrightarrow> sint w = uint w" for w :: u32
proof -
  assume "unat w < 2 ^ 31"
  then have "0 \<le> sint w" using bit_last_iff [of w] f32_fields(3) [of w] by auto
  from sint_nonneg_unat [OF this] this show ?thesis by (metis int_nat_eq uint_nat)
qed

lemma split_be_32:
  fixes a b c d :: byte
  defines "w \<equiv> push_bit 24 (ucast a) OR push_bit 16 (ucast b) OR push_bit 8 (ucast c) OR ucast d :: u32"
  shows "be w = [a, b, c, d]"
proof -
  have hi: "\<not> bit x (8 + n)" "\<not> bit x (16 + n)" "\<not> bit x (24 + n)" for x :: byte and n
    using bit_imp_le_length [of x] by fastforce+
  have "ucast (drop_bit 24 w) = a" "ucast (drop_bit 16 w) = b" "ucast (drop_bit 8 w) = c" "ucast w = d"
    by (rule bit_word_eqI; auto simp: w_def bit_simps hi)+
  then show ?thesis by (simp add: be_def append_be_32)
qed

lemma read_u32_be: "read_u32 p i = Some w \<Longrightarrow> i + 4 \<le> length p \<Longrightarrow> be w @ drop (i + 4) p = drop i p"
proof -
  assume r: "read_u32 p i = Some w" and l: "i + 4 \<le> length p"
  then have "be w = [p ! i, p ! (i + 1), p ! (i + 2), p ! (i + 3)]"
    using split_be_32 [of "p ! i" "p ! (i + 1)" "p ! (i + 2)" "p ! (i + 3)"] by (simp add: read_word_in_range)
  moreover have "drop i p = p ! i # p ! (i + 1) # p ! (i + 2) # p ! (i + 3) # drop (i + 4) p"
    using l by (simp add: Cons_nth_drop_Suc [symmetric] numeral_eq_Suc)
  ultimately show ?thesis by simp
qed

lemma be_inj: "be v = be w \<longleftrightarrow> v = w" for v w :: u32
  by (metis option.inject read_be(1))

lemma be_inj_16: "be v = be w \<longleftrightarrow> v = w" for v w :: u16
  by (metis option.inject read_be(2))

lemma lisp_read_reply_iff:
  "parse_lisp_read_reply p = Some (Some (chunk, sz, off)) \<longleftrightarrow>
     p = id_byte LispReadCode # be sz @ be off @ chunk
     \<and> unat off + length chunk \<le> unat sz \<and> unat sz \<le> kMaxLispCodeBytes"
proof
  assume "parse_lisp_read_reply p = Some (Some (chunk, sz, off))"
  then have p: "9 \<le> length p" "p ! 0 = id_byte LispReadCode" "chunk = drop 9 p"
    and r: "read_u32 p 1 = Some sz" "read_u32 p 5 = Some off"
    and b: "0 \<le> sint sz" "0 \<le> sint off" "sint sz \<le> 524274" "sint off + int (length chunk) \<le> sint sz"
    by (auto simp: parse_lisp_read_reply_eq i32_at_def read_word_in_range split: if_splits)
  have "p = p ! 0 # drop 1 p" using p(1) by (cases p) auto
  also have "drop 1 p = be sz @ be off @ chunk"
    using read_u32_be [OF r(1)] read_u32_be [OF r(2)] p(1,3) by simp
  finally show "p = id_byte LispReadCode # be sz @ be off @ chunk
     \<and> unat off + length chunk \<le> unat sz \<and> unat sz \<le> kMaxLispCodeBytes"
    using b p(2) sint_nonneg_unat [of sz] sint_nonneg_unat [of off] by auto
next
  assume a: "p = id_byte LispReadCode # be sz @ be off @ chunk
     \<and> unat off + length chunk \<le> unat sz \<and> unat sz \<le> kMaxLispCodeBytes"
  have "read_u32 p 1 = Some sz" "read_u32 p 5 = Some off"
    using a read_be(1) [of "[id_byte LispReadCode]" sz "be off @ chunk"]
      read_be(1) [of "id_byte LispReadCode # be sz" off chunk] by simp_all
  moreover have "sint sz = uint sz" "sint off = uint off"
    using a by (auto intro!: sint_small)
  moreover have "uint off + int (length chunk) \<le> uint sz" "uint sz \<le> 524274"
  proof -
    have "int (unat off + length chunk) \<le> int (unat sz)" "int (unat sz) \<le> int 524274"
      using a by (auto simp only: of_nat_le_iff) simp
    then show "uint off + int (length chunk) \<le> uint sz" "uint sz \<le> 524274" by simp_all
  qed
  ultimately show "parse_lisp_read_reply p = Some (Some (chunk, sz, off))"
    using a by (simp add: parse_lisp_read_reply_eq i32_at_def)
qed

text \<open>
  C17: A chunk of stored code is accepted only if it lies inside an image of at most 524274
  bytes; its bytes, the image size and the offset are those of the reply, and the chunk the
  firmware sends for any part of an image is accepted and recovered.
\<close>

theorem lisp_read_reply_exact:
  "parse_lisp_read_reply p = Some (Some (chunk, sz, off)) \<longleftrightarrow>
     p = id_byte LispReadCode # be sz @ be off @ chunk
     \<and> unat off + length chunk \<le> unat sz \<and> unat sz \<le> kMaxLispCodeBytes"
  by (rule lisp_read_reply_iff)

lemma config_ack_eq: "parse_config_ack p cid = Some (p = [id_byte cid])"
  by (cases p) (auto simp: parse_config_ack_def has_id_def)

lemma bool_ack_eq: "parse_bool_ack p cid = Some (p = [id_byte cid, 1])"
  by (cases p; cases "tl p") (auto simp: parse_bool_ack_def has_id_def)

lemma lisp_write_ack_eq: "parse_lisp_write_ack p off = Some (p = [id_byte LispWriteCode, 1] @ be off)"
proof (cases "length p = 6")
  case True
  then obtain a b t where p: "p = a # b # t" "length t = 4"
    by (cases p; cases "tl p") auto
  obtain w where w: "read_u32 p 2 = Some w" using True by (simp add: read_word_in_range)
  have "be w = t" using read_u32_be [OF w] True p by simp
  then have "t = be off \<longleftrightarrow> w = off" by (metis be_inj)
  with True w p show ?thesis by (auto simp: parse_lisp_write_ack_def has_id_def)
qed (auto simp: parse_lisp_write_ack_def)

lemma foc_reply_iff: "parse_foc_calibration_reply p = Some (Some code) \<longleftrightarrow> p = id_byte DetectApplyAllFoc # be code"
proof (cases "length p = 3")
  case True
  then obtain a b c where p: "p = [a, b, c]"
    by (cases p; cases "tl p"; cases "tl (tl p)") auto
  define j where "j = (push_bit 8 (ucast b) OR ucast c :: u16)"
  have "be j = [b, c]"
    by (simp only: be_def append_be_16 append_Nil split_be_16 j_def)
  then have "[b, c] = be code \<longleftrightarrow> j = code" by (metis be_inj_16)
  then show ?thesis
    by (simp add: p parse_foc_calibration_reply_def has_id_def read_i16_def read_u16_def j_def)
qed (auto simp: parse_foc_calibration_reply_def)

lemma fw_version_iff: "parse_fw_version p = Some (Some v) \<longleftrightarrow> (\<exists>rest. p = [id_byte FwVersion, major v, minor v] @ rest)"
  by (cases p; cases "tl p"; cases "tl (tl p)"; cases v) (auto simp: parse_fw_version_def has_id_def)

lemma reply_parsers_defined:
  "parse_fw_version p \<noteq> None" "parse_foc_calibration_reply p \<noteq> None" "parse_motor_config p \<noteq> None"
  "parse_app_config p \<noteq> None" "parse_lisp_read_reply p \<noteq> None"
proof -
  show "parse_fw_version p \<noteq> None"
    by (cases "length p < 3") (auto simp: parse_fw_version_def has_id_def read_at_def)
  show "parse_foc_calibration_reply p \<noteq> None"
    by (cases "length p = 3")
      (simp_all add: parse_foc_calibration_reply_def has_id_def read_i16_def read_word_in_range read_at_def)
qed (simp_all add: parse_motor_config_def parse_app_config_def parse_config_image_eq parse_lisp_read_reply_eq)

text \<open>
  C18: Each acknowledgement accepts exactly one payload: the identifier alone, the identifier
  and a one, the write identifier with a one and the expected offset; a calibration reply is
  accepted exactly with its identifier and a 16-bit result.  No parser of a reply ever reads
  outside the payload.
\<close>

theorem acknowledgements_exact:
  "parse_config_ack p cid = Some (p = [id_byte cid])
   \<and> parse_bool_ack p cid = Some (p = [id_byte cid, 1])
   \<and> parse_lisp_write_ack p off = Some (p = [id_byte LispWriteCode, 1] @ be off)
   \<and> (parse_foc_calibration_reply p = Some (Some code) \<longleftrightarrow> p = id_byte DetectApplyAllFoc # be code)
   \<and> (parse_fw_version p = Some (Some v) \<longleftrightarrow> (\<exists>rest. p = [id_byte FwVersion, major v, minor v] @ rest))
   \<and> parse_foc_calibration_reply p \<noteq> None \<and> parse_fw_version p \<noteq> None
   \<and> parse_motor_config p \<noteq> None \<and> parse_app_config p \<noteq> None \<and> parse_lisp_read_reply p \<noteq> None"
  by (intro conjI config_ack_eq bool_ack_eq lisp_write_ack_eq foc_reply_iff fw_version_iff reply_parsers_defined)

end
