(* ===== verification/Client_State.thy ===== *)
theory Client_State
  imports Protocol_Parse
begin

text \<open>
  The state of \<open>ControllerClient\<close> (\<open>controller_client.hpp\<close>) and the operations that only read or set
  a part of it: the constructor, the poll intervals, the configuration snapshot, the caches, the
  callback registry with its subscription handles, and the helpers of the anonymous namespace of
  \<open>src/controller_client.cpp\<close>.

  Time points are nanoseconds of the steady clock, durations given in milliseconds are converted
  with \<open>ms\<close>; both are unbounded integers, so the overflow of a 64-bit nanosecond count (292 years)
  is outside the model.  A \<open>shared_ptr<QueryState>\<close> is an index into the list of all query states
  ever allocated.  A callback is represented by whether it is callable.  Publishing a sample copies
  the callbacks and then calls the copies: \<open>publishing\<close> holds the calls that the running \<open>publish_imu\<close>
  or \<open>publish_motor_state\<close> still goes on to make, \<open>deliveries\<close> the calls that were made.
\<close>

section \<open>Nested types of \<open>ControllerClient\<close>\<close>

record query_state =
  completed :: bool
  result :: "payload option"

datatype poll_kind = Imu | MotorState

record poll_channel =
  channel_kind :: poll_kind
  interval_ms :: int
  reschedule :: bool
  next_due :: time

datatype request_kind = PollImu | PollMotorState | Query

text \<open>The closures \<open>on_success\<close> and \<open>on_timeout\<close> are both empty (polls) or both hold the query state
  they complete.\<close>

record scheduled_request =
  request_kind :: request_kind
  expected_id :: byte
  packet :: bytes
  deadline :: time
  stop_on_timeout :: bool
  query_ref :: "nat option"

record callback_registry =
  next_subscription_id :: nat
  imu_callbacks :: "(nat \<times> bool) list"
  motor_callbacks :: "(nat \<times> bool) list"

record control_watchdog_state =
  wd_deadline :: time
  armed :: bool

definition default_watchdog :: control_watchdog_state where
  "default_watchdog = \<lparr>wd_deadline = 0, armed = False\<rparr>"

datatype delivery = DeliverImu nat imu_data | DeliverMotor nat motor_state

section \<open>The client\<close>

text \<open>\<open>wake_pending\<close>: the wake pipe holds an unread byte.  \<open>sent\<close>: the bytes written to the device.
  \<open>publishing\<close>: the local copy in \<open>publish_imu\<close> and \<open>publish_motor_state\<close>, less the calls made.\<close>

record client =
  cfg :: controller_config
  fd :: int
  wake_pipe :: "int \<times> int"
  wake_pending :: bool
  parser :: bytes
  io_thread :: bool
  running :: bool
  command_queue :: "bytes list"
  request_queue :: "scheduled_request list"
  in_flight_request :: "scheduled_request option"
  control_watchdog :: control_watchdog_state
  motor_state_cache :: "motor_state option"
  imu_data_cache :: "imu_data option"
  registry :: callback_registry
  imu_channel :: poll_channel
  motor_channel :: poll_channel
  queries :: "query_state list"
  publishing :: "delivery list"
  deliveries :: "delivery list"
  sent :: bytes

definition new_client :: "controller_config \<Rightarrow> client" where
  "new_client config =
     \<lparr>cfg = config, fd = - 1, wake_pipe = (- 1, - 1), wake_pending = False, parser = [],
      io_thread = False, running = False, command_queue = [], request_queue = [],
      in_flight_request = None, control_watchdog = default_watchdog,
      motor_state_cache = None, imu_data_cache = None,
      registry = \<lparr>next_subscription_id = 1, imu_callbacks = [], motor_callbacks = []\<rparr>,
      imu_channel = \<lparr>channel_kind = Imu, interval_ms = max (imu_poll_interval config) 0,
                     reschedule = False, next_due = 0\<rparr>,
      motor_channel = \<lparr>channel_kind = MotorState, interval_ms = max (motor_poll_interval config) 0,
                       reschedule = False, next_due = 0\<rparr>,
      queries = [], publishing = [], deliveries = [], sent = []\<rparr>"

section \<open>Helpers\<close>

abbreviation ms :: "int \<Rightarrow> time" where
  "ms n \<equiv> n * 1000000"

text \<open>\<open>duration_cast<microseconds>\<close> of a non-negative duration in nanoseconds.\<close>

definition micros_until :: "time \<Rightarrow> time \<Rightarrow> int" where
  "micros_until dl now = (if dl \<le> now then 0 else (dl - now) div 1000)"

definition clamp_brake_current :: "f32 \<Rightarrow> f32 \<Rightarrow> f32" where
  "clamp_brake_current requested_amps limit =
     (if \<not> f32_isfinite requested_amps \<or> \<not> f32_isfinite limit \<or>
         f32_le requested_amps 0 \<or> f32_le limit 0
      then 0 else f32_min requested_amps limit)"

definition same_config_signature :: "bytes \<Rightarrow> bytes \<Rightarrow> bool" where
  "same_config_signature lhs rhs \<longleftrightarrow>
     length lhs \<ge> 4 \<and> length rhs \<ge> 4 \<and> take 4 lhs = take 4 rhs"

definition wake_io_thread :: "client \<Rightarrow> client" where
  "wake_io_thread c = (if snd (wake_pipe c) < 0 then c else c\<lparr>wake_pending := True\<rparr>)"

section \<open>Poll intervals, snapshot and caches\<close>

definition set_motor_poll_interval :: "int \<Rightarrow> client \<Rightarrow> client" where
  "set_motor_poll_interval interval c =
     (let c = c\<lparr>motor_channel := (motor_channel c)\<lparr>interval_ms := max interval 0, reschedule := True\<rparr>\<rparr>
      in if running c then wake_io_thread c else c)"

definition set_imu_poll_interval :: "int \<Rightarrow> client \<Rightarrow> client" where
  "set_imu_poll_interval interval c =
     (let c = c\<lparr>imu_channel := (imu_channel c)\<lparr>interval_ms := max interval 0, reschedule := True\<rparr>\<rparr>
      in if running c then wake_io_thread c else c)"

definition config_snapshot :: "client \<Rightarrow> controller_config_snapshot" where
  "config_snapshot c =
     \<lparr>snap_motor_poll_interval = interval_ms (motor_channel c),
      snap_imu_poll_interval = interval_ms (imu_channel c),
      snap_poll_response_timeout = poll_response_timeout (cfg c),
      snap_query_guard_window = query_guard_window (cfg c),
      snap_command_watchdog_timeout = command_watchdog_timeout (cfg c),
      snap_command_watchdog_action = command_watchdog_action (cfg c),
      snap_max_brake_current = max_brake_current (cfg c),
      snap_command_watchdog_brake_current = command_watchdog_brake_current (cfg c)\<rparr>"

definition is_connected :: "client \<Rightarrow> bool" where
  "is_connected c = running c"

definition latest_motor_state :: "client \<Rightarrow> motor_state option" where
  "latest_motor_state c = motor_state_cache c"

definition latest_imu :: "client \<Rightarrow> imu_data option" where
  "latest_imu c = imu_data_cache c"

section \<open>Subscriptions\<close>

text \<open>A \<open>SubscriptionHandle\<close>: empty, or the registration its closure erases.\<close>

type_synonym subscription_handle = "(poll_kind \<times> nat) option"

definition subscribe_imu :: "bool \<Rightarrow> callback_registry \<Rightarrow> callback_registry \<times> subscription_handle" where
  "subscribe_imu callback r =
     (let sid = next_subscription_id r
      in (r\<lparr>next_subscription_id := sid + 1, imu_callbacks := imu_callbacks r @ [(sid, callback)]\<rparr>,
          Some (Imu, sid)))"

definition subscribe_motor_state :: "bool \<Rightarrow> callback_registry \<Rightarrow> callback_registry \<times> subscription_handle" where
  "subscribe_motor_state callback r =
     (let sid = next_subscription_id r
      in (r\<lparr>next_subscription_id := sid + 1, motor_callbacks := motor_callbacks r @ [(sid, callback)]\<rparr>,
          Some (MotorState, sid)))"

text \<open>The closure of a handle.\<close>

definition unsubscribe :: "poll_kind \<times> nat \<Rightarrow> callback_registry \<Rightarrow> callback_registry" where
  "unsubscribe s r =
     (case s of
        (Imu, sid) \<Rightarrow> r\<lparr>imu_callbacks := filter (\<lambda>(i, _). i \<noteq> sid) (imu_callbacks r)\<rparr>
      | (MotorState, sid) \<Rightarrow> r\<lparr>motor_callbacks := filter (\<lambda>(i, _). i \<noteq> sid) (motor_callbacks r)\<rparr>)"

definition handle_reset :: "subscription_handle \<Rightarrow> callback_registry \<Rightarrow> subscription_handle \<times> callback_registry" where
  "handle_reset h r = (case h of None \<Rightarrow> (None, r) | Some s \<Rightarrow> (None, unsubscribe s r))"

text \<open>Move construction and move assignment of distinct handles: the new target, the new source
  and the registry.\<close>

definition handle_move :: "subscription_handle \<Rightarrow> subscription_handle \<times> subscription_handle" where
  "handle_move other = (other, None)"

definition handle_assign ::
  "subscription_handle \<Rightarrow> subscription_handle \<Rightarrow> callback_registry \<Rightarrow>
     subscription_handle \<times> subscription_handle \<times> callback_registry" where
  "handle_assign this other r =
     (let (_, r') = handle_reset this r; (this', other') = handle_move other in (this', other', r'))"

text \<open>\<open>invoke_callbacks\<close> on a copy of the map: the registrations that it calls, each once.  The order in
  which a hash map is walked is not specified, so the calls are taken from the copy in any order, and
  other threads run between them.  What a callback throws is swallowed.\<close>

definition invoke_callbacks :: "(nat \<times> bool) list \<Rightarrow> nat list" where
  "invoke_callbacks callbacks = map fst (filter snd callbacks)"

definition publish_imu :: "imu_data \<Rightarrow> client \<Rightarrow> client" where
  "publish_imu data c =
     c\<lparr>publishing := map (\<lambda>sid. DeliverImu sid data) (invoke_callbacks (imu_callbacks (registry c)))\<rparr>"

definition publish_motor_state :: "motor_state \<Rightarrow> client \<Rightarrow> client" where
  "publish_motor_state state c =
     c\<lparr>publishing := map (\<lambda>sid. DeliverMotor sid state) (invoke_callbacks (motor_callbacks (registry c)))\<rparr>"

text \<open>One of the calls: the callback runs, outside the registry mutex.\<close>

definition invoke_callback :: "delivery list \<Rightarrow> delivery \<Rightarrow> delivery list \<Rightarrow> client \<Rightarrow> client" where
  "invoke_callback before d after c = c\<lparr>publishing := before @ after, deliveries := deliveries c @ [d]\<rparr>"

text \<open>All the calls that are left, when no other thread comes in between.\<close>

definition finish_publishing :: "client \<Rightarrow> client" where
  "finish_publishing c = c\<lparr>publishing := [], deliveries := deliveries c @ publishing c\<rparr>"

section \<open>The brake clamp\<close>

lemma f32_le_real: "f32_isfinite x \<Longrightarrow> f32_isfinite y \<Longrightarrow> f32_le x y \<longleftrightarrow> f32_real x \<le> f32_real y"
  by (simp add: f32_le_def f32_isfinite_def f32_real_def fp_le_real)

lemma clamp_real:
  "f32_isfinite (clamp_brake_current a m) \<and>
   f32_real (clamp_brake_current a m) =
     (if f32_isfinite a \<and> f32_isfinite m \<and> 0 < f32_real a \<and> 0 < f32_real m
      then min (f32_real a) (f32_real m) else 0)"
  by (auto simp: clamp_brake_current_def f32_le_real f32_min_def f32_less_real)

section \<open>The contract of a callback registry\<close>

text \<open>
  What a subscriber relies on: a subscription gets a fresh registration, a handle removes exactly
  its own registration, whatever else is registered.
\<close>

locale subscriptions =
  fixes subscribe :: "bool \<Rightarrow> 'r \<Rightarrow> 'r \<times> 'h option"
    and remove :: "'h \<Rightarrow> 'r \<Rightarrow> 'r"
    and regs :: "'r \<Rightarrow> (nat \<times> bool) list"
    and handle :: "nat \<Rightarrow> 'h"
    and wf :: "'r \<Rightarrow> bool"
  assumes subscribe_fresh: "wf r \<Longrightarrow> \<exists>r' i. subscribe b r = (r', Some (handle i))
      \<and> regs r' = regs r @ [(i, b)] \<and> i \<notin> fst ` set (regs r) \<and> wf r'"
    and remove_own: "wf r \<Longrightarrow> regs (remove (handle i) r) = filter (\<lambda>(j, _). j \<noteq> i) (regs r)
      \<and> wf (remove (handle i) r)"
    and wf_distinct: "wf r \<Longrightarrow> distinct (map fst (regs r))"
begin

lemma remove_after_subscribe:
  assumes "wf r" "subscribe b r = (r', Some h)"
  shows "regs (remove h r') = regs r" "wf (remove h r')"
proof -
  from subscribe_fresh [OF assms(1), of b] assms(2) obtain i
    where i: "h = handle i" "regs r' = regs r @ [(i, b)]" "i \<notin> fst ` set (regs r)" "wf r'" by auto
  have "filter (\<lambda>(j, _). j \<noteq> i) (regs r) = regs r"
    using i(3) by (force simp: filter_id_conv)
  with i remove_own [of r' i] show "regs (remove h r') = regs r" "wf (remove h r')" by simp_all
qed

lemma delivered_once: "wf r \<Longrightarrow> distinct (invoke_callbacks (regs r))"
  using wf_distinct [of r] by (simp add: invoke_callbacks_def distinct_map_filter)

lemma removed_not_delivered: "wf r \<Longrightarrow> i \<notin> set (invoke_callbacks (regs (remove (handle i) r)))"
  by (auto simp: remove_own invoke_callbacks_def)

lemma others_kept:
  "wf r \<Longrightarrow> j \<noteq> i \<Longrightarrow> (j \<in> set (invoke_callbacks (regs (remove (handle i) r)))) = (j \<in> set (invoke_callbacks (regs r)))"
  by (force simp: remove_own invoke_callbacks_def)

lemma subscribed_delivered:
  assumes "wf r" "subscribe True r = (r', Some h)"
  shows "\<exists>i. h = handle i \<and> invoke_callbacks (regs r') = invoke_callbacks (regs r) @ [i] \<and> wf r'"
  using subscribe_fresh [OF assms(1), of True] assms(2) by (auto simp: invoke_callbacks_def)

end

definition wf_registry :: "callback_registry \<Rightarrow> bool" where
  "wf_registry r \<longleftrightarrow>
     distinct (map fst (imu_callbacks r)) \<and> distinct (map fst (motor_callbacks r)) \<and>
     (\<forall>i \<in> fst ` set (imu_callbacks r) \<union> fst ` set (motor_callbacks r). i < next_subscription_id r)"

lemma registration_old: "wf_registry r \<Longrightarrow> (i, b) \<in> set (imu_callbacks r) \<union> set (motor_callbacks r) \<Longrightarrow> i < next_subscription_id r"
  by (force simp: wf_registry_def)

lemma wf_subscribe:
  assumes "wf_registry r"
  shows "wf_registry (fst (subscribe_imu b r))" "wf_registry (fst (subscribe_motor_state b r))"
  using assms registration_old [OF assms]
  by (auto simp: wf_registry_def subscribe_imu_def subscribe_motor_state_def Let_def less_Suc_eq)

lemma wf_unsubscribe: "wf_registry r \<Longrightarrow> wf_registry (unsubscribe s r)"
  by (cases s; cases "fst s") (auto simp: wf_registry_def unsubscribe_def distinct_map_filter)

interpretation imu_subs: subscriptions subscribe_imu unsubscribe imu_callbacks "Pair Imu" wf_registry
proof
  fix r b i assume wf: "wf_registry r"
  show "\<exists>r' i. subscribe_imu b r = (r', Some (Imu, i)) \<and> imu_callbacks r' = imu_callbacks r @ [(i, b)]
      \<and> i \<notin> fst ` set (imu_callbacks r) \<and> wf_registry r'"
    using wf_subscribe(1) [OF wf, of b] registration_old [OF wf]
    by (fastforce simp: subscribe_imu_def Let_def)
  show "imu_callbacks (unsubscribe (Imu, i) r) = filter (\<lambda>(j, _). j \<noteq> i) (imu_callbacks r)
      \<and> wf_registry (unsubscribe (Imu, i) r)"
    using wf_unsubscribe [OF wf, of "(Imu, i)"] by (simp add: unsubscribe_def)
qed (simp add: wf_registry_def)

interpretation motor_subs: subscriptions subscribe_motor_state unsubscribe motor_callbacks "Pair MotorState" wf_registry
proof
  fix r b i assume wf: "wf_registry r"
  show "\<exists>r' i. subscribe_motor_state b r = (r', Some (MotorState, i)) \<and> motor_callbacks r' = motor_callbacks r @ [(i, b)]
      \<and> i \<notin> fst ` set (motor_callbacks r) \<and> wf_registry r'"
    using wf_subscribe(2) [OF wf, of b] registration_old [OF wf]
    by (fastforce simp: subscribe_motor_state_def Let_def)
  show "motor_callbacks (unsubscribe (MotorState, i) r) = filter (\<lambda>(j, _). j \<noteq> i) (motor_callbacks r)
      \<and> wf_registry (unsubscribe (MotorState, i) r)"
    using wf_unsubscribe [OF wf, of "(MotorState, i)"] by (simp add: unsubscribe_def)
qed (simp add: wf_registry_def)

text \<open>
  The brake clamp returns a finite, non-negative current, never above the configured maximum;
  it is positive exactly when request and maximum are finite and positive, and then it is the
  smaller of the two.
\<close>

theorem brake_clamp_bounds:
  "f32_isfinite (clamp_brake_current a m) \<and> 0 \<le> f32_real (clamp_brake_current a m)
   \<and> (0 < f32_real (clamp_brake_current a m)
        \<longleftrightarrow> f32_isfinite a \<and> f32_isfinite m \<and> 0 < f32_real a \<and> 0 < f32_real m)
   \<and> (if 0 < f32_real (clamp_brake_current a m)
      then f32_real (clamp_brake_current a m) = min (f32_real a) (f32_real m) else f32_real (clamp_brake_current a m) = 0)"
  using clamp_real [of a m] by auto

end
