(* ===== verification/Scheduler.thy ===== *)
theory Scheduler
  imports Client_State
begin

text \<open>
  The scheduler of \<open>ControllerClient\<close>: the command queue with its watchdog, the request queue with
  the one request in flight, the poll channels, time-outs, and the dispatch of decoded payloads.
  Each definition is one member function of \<open>src/controller_client.cpp\<close> as a function on the client's
  state; the time that the function reads from the steady clock is an argument.
\<close>

section \<open>Completing a request\<close>

text \<open>The closure \<open>on_timeout\<close> of a request: nothing for a poll.\<close>

definition on_timeout :: "scheduled_request \<Rightarrow> client \<Rightarrow> client" where
  "on_timeout r c =
     (case query_ref r of
        None \<Rightarrow> c
      | Some q \<Rightarrow> c\<lparr>queries := (queries c)[q := (queries c ! q)\<lparr>completed := True\<rparr>]\<rparr>)"

definition on_success :: "scheduled_request \<Rightarrow> payload \<Rightarrow> client \<Rightarrow> client" where
  "on_success r p c =
     (case query_ref r of
        None \<Rightarrow> c
      | Some q \<Rightarrow> c\<lparr>queries := (queries c)[q := \<lparr>completed = True, result = Some p\<rparr>]\<rparr>)"

section \<open>Commands\<close>

definition control_watchdog_enabled :: "controller_config \<Rightarrow> bool" where
  "control_watchdog_enabled config =
     (if command_watchdog_timeout config \<le> 0 then False
      else
        case command_watchdog_action config of
          Disabled \<Rightarrow> False
        | Coast \<Rightarrow> True
        | BrakeCurrent \<Rightarrow>
            f32_less 0 (command_watchdog_brake_current config) \<and> f32_less 0 (max_brake_current config))"

text \<open>The erase-remove idiom followed by \<open>push_back\<close>.\<close>

definition coalesce :: "bytes \<Rightarrow> bytes list \<Rightarrow> bytes list" where
  "coalesce pkt queue =
     (let command_id = pkt ! 2
      in filter (\<lambda>queued. \<not> (length queued \<ge> 3 \<and> queued ! 2 = command_id)) queue @ [pkt])"

definition enqueue_command :: "time \<Rightarrow> bytes \<Rightarrow> bool \<Rightarrow> client \<Rightarrow> client \<times> bool" where
  "enqueue_command now pkt refresh_watchdog c =
     (if \<not> running c \<or> length pkt < 3 then (c, False)
      else
        let c = (if refresh_watchdog \<and> control_watchdog_enabled (cfg c)
                 then c\<lparr>control_watchdog :=
                          \<lparr>wd_deadline = now + ms (command_watchdog_timeout (cfg c)), armed = True\<rparr>\<rparr>
                 else c);
            c = c\<lparr>command_queue := coalesce pkt (command_queue c)\<rparr>
        in (wake_io_thread c, True))"

definition enqueue_control_command :: "time \<Rightarrow> bytes \<Rightarrow> client \<Rightarrow> client \<times> bool" where
  "enqueue_control_command now pkt c = enqueue_command now pkt True c"

definition set_rpm :: "time \<Rightarrow> u32 \<Rightarrow> client \<Rightarrow> client \<times> bool" where
  "set_rpm now r c = enqueue_control_command now (build_set_rpm_command r) c"

definition set_duty :: "time \<Rightarrow> f32 \<Rightarrow> client \<Rightarrow> client \<times> bool" where
  "set_duty now duty c = enqueue_control_command now (build_set_duty_command duty) c"

definition set_current :: "time \<Rightarrow> f32 \<Rightarrow> client \<Rightarrow> client \<times> bool" where
  "set_current now amps c = enqueue_control_command now (build_set_current_command amps) c"

definition set_current_brake :: "time \<Rightarrow> f32 \<Rightarrow> client \<Rightarrow> client \<times> bool" where
  "set_current_brake now amps c =
     (let clamped_amps = clamp_brake_current amps (max_brake_current (cfg c))
      in if f32_le clamped_amps 0 then (c, False)
         else enqueue_control_command now (build_set_current_brake_command clamped_amps) c)"

definition set_servo_pos :: "time \<Rightarrow> f32 \<Rightarrow> client \<Rightarrow> client \<times> bool" where
  "set_servo_pos now position c = enqueue_control_command now (build_set_servo_pos_command position) c"

definition set_app_output_disabled :: "time \<Rightarrow> int \<Rightarrow> client \<Rightarrow> client \<times> bool" where
  "set_app_output_disabled now duration c =
     enqueue_command now (build_app_disable_output_command duration) False c"

definition dequeue_due_watchdog_command :: "time \<Rightarrow> client \<Rightarrow> client \<times> bytes option" where
  "dequeue_due_watchdog_command now c =
     (if \<not> running c \<or> \<not> control_watchdog_enabled (cfg c) then (c, None)
      else if \<not> armed (control_watchdog c) \<or> wd_deadline (control_watchdog c) > now then (c, None)
      else
        (c\<lparr>control_watchdog := default_watchdog, command_queue := []\<rparr>,
         case command_watchdog_action (cfg c) of
           Coast \<Rightarrow> Some (build_set_current_command 0)
         | BrakeCurrent \<Rightarrow>
             Some (build_set_current_brake_command
               (clamp_brake_current (command_watchdog_brake_current (cfg c)) (max_brake_current (cfg c))))
         | Disabled \<Rightarrow> None))"

text \<open>The block of \<open>io_loop\<close> that takes the front of the command queue.\<close>

fun take_front :: "'a list \<Rightarrow> ('a \<times> 'a list) option" where
  "take_front [] = None"
| "take_front (x # xs) = Some (x, xs)"

definition dequeue_command :: "client \<Rightarrow> client \<times> bytes option" where
  "dequeue_command c =
     (case take_front (command_queue c) of
        None \<Rightarrow> (c, None)
      | Some (command, rest) \<Rightarrow> (c\<lparr>command_queue := rest\<rparr>, Some command))"

section \<open>Requests\<close>

text \<open>\<open>request_payload\<close> up to the wait: the client, and the query state the caller waits for.\<close>

definition submit_query ::
  "bool \<Rightarrow> time \<Rightarrow> bytes \<Rightarrow> command_id \<Rightarrow> time \<Rightarrow> bool \<Rightarrow> client \<Rightarrow> client \<times> nat option" where
  "submit_query on_io_thread now pkt cid dl stop c =
     (if on_io_thread \<or> pkt = [] \<or> dl \<le> now then (c, None)
      else if \<not> running c then (c, None)
      else
        let q = length (queries c);
            request = \<lparr>request_kind = Query, expected_id = id_byte cid, packet = pkt,
                       deadline = dl, stop_on_timeout = stop, query_ref = Some q\<rparr>;
            c = c\<lparr>queries := queries c @ [\<lparr>completed = False, result = None\<rparr>],
                  request_queue := request_queue c @ [request]\<rparr>
        in (wake_io_thread c, Some q))"

text \<open>The end of \<open>request_payload\<close>: still waiting, or what the caller gets.\<close>

definition query_result :: "nat \<Rightarrow> client \<Rightarrow> payload option option" where
  "query_result q c = (if completed (queries c ! q) then Some (result (queries c ! q)) else None)"

definition handle_request_timeout :: "time \<Rightarrow> client \<Rightarrow> client \<times> bool" where
  "handle_request_timeout now c =
     (let timed_out = (case in_flight_request c of
                         Some r \<Rightarrow> if deadline r \<le> now then Some r else None
                       | None \<Rightarrow> None);
          c = (if timed_out \<noteq> None then c\<lparr>in_flight_request := None\<rparr> else c);
          expired_queries = filter (\<lambda>r. deadline r \<le> now) (request_queue c);
          c = c\<lparr>request_queue := filter (\<lambda>r. \<not> deadline r \<le> now) (request_queue c)\<rparr>;
          stop_transport = (case timed_out of Some r \<Rightarrow> stop_on_timeout r | None \<Rightarrow> False);
          c = (if stop_transport then c\<lparr>running := False\<rparr> else c);
          c = (case timed_out of Some r \<Rightarrow> on_timeout r c | None \<Rightarrow> c)
      in (fold on_timeout expired_queries c, stop_transport))"

definition clear_pending_work :: "client \<Rightarrow> client" where
  "clear_pending_work c =
     (let queued_requests = request_queue c;
          in_flight = in_flight_request c;
          c = c\<lparr>command_queue := [], request_queue := [], in_flight_request := None,
                control_watchdog := default_watchdog\<rparr>;
          c = fold on_timeout queued_requests c
      in case in_flight of Some r \<Rightarrow> on_timeout r c | None \<Rightarrow> c)"

section \<open>Decoded payloads\<close>

definition dispatch_payload :: "payload \<Rightarrow> 64 word \<Rightarrow> client \<Rightarrow> client checked" where
  "dispatch_payload p stamp_ns c =
     (if p = [] then Some c
      else
        do { b0 \<leftarrow> read_at p 0;
             case in_flight_request c of
               None \<Rightarrow> Some c
             | Some r \<Rightarrow>
                 if expected_id r \<noteq> b0 then Some c
                 else
                   let c = c\<lparr>in_flight_request := None\<rparr>
                   in case request_kind r of
                        PollImu \<Rightarrow>
                          do { parsed \<leftarrow> parse_get_imu_data p;
                               Some (case parsed of
                                       None \<Rightarrow> c
                                     | Some d \<Rightarrow>
                                         let d = d\<lparr>imu_stamp_ns := stamp_ns\<rparr>
                                         in publish_imu d (c\<lparr>imu_data_cache := Some d\<rparr>)) }
                      | PollMotorState \<Rightarrow>
                          do { parsed \<leftarrow> parse_get_values p;
                               Some (case parsed of
                                       None \<Rightarrow> c
                                     | Some s \<Rightarrow>
                                         let s = s\<lparr>motor_stamp_ns := stamp_ns\<rparr>
                                         in publish_motor_state s (c\<lparr>motor_state_cache := Some s\<rparr>)) }
                      | Query \<Rightarrow> Some (on_success r p c) })"

section \<open>Polls and ready queries\<close>

text \<open>The body of the loop of \<open>select_due_poll_channel\<close>; the due time of the selected channel is
  \<open>selected_due\<close>.\<close>

definition consider_channel :: "time \<Rightarrow> poll_channel option \<Rightarrow> poll_channel \<Rightarrow> poll_channel option" where
  "consider_channel now selected channel =
     (if interval_ms channel \<le> 0 then selected
      else if next_due channel > now then selected
      else
        case selected of
          None \<Rightarrow> Some channel
        | Some s \<Rightarrow>
            if next_due channel < next_due s \<or> (next_due channel = next_due s \<and> channel_kind channel = Imu)
            then Some channel else selected)"

definition select_due_poll_channel :: "time \<Rightarrow> client \<Rightarrow> poll_channel option" where
  "select_due_poll_channel now c = foldl (consider_channel now) None [imu_channel c, motor_channel c]"

text \<open>The update of a channel through its pointer.\<close>

definition store_channel :: "poll_channel \<Rightarrow> client \<Rightarrow> client" where
  "store_channel channel c =
     (case channel_kind channel of
        Imu \<Rightarrow> c\<lparr>imu_channel := channel\<rparr>
      | MotorState \<Rightarrow> c\<lparr>motor_channel := channel\<rparr>)"

definition make_due_poll_request ::
  "controller_config \<Rightarrow> poll_channel \<Rightarrow> time \<Rightarrow> poll_channel \<times> scheduled_request option" where
  "make_due_poll_request config channel now =
     (if interval_ms channel \<le> 0 then (channel, None)
      else if next_due channel > now then (channel, None)
      else
        let channel' = channel\<lparr>next_due := now + ms (interval_ms channel)\<rparr>;
            cid = (if channel_kind channel = Imu then GetImuData else GetValues);
            (kind, pkt) = (if channel_kind channel = Imu
                           then (PollImu, build_get_imu_data_request)
                           else (PollMotorState, build_get_values_request))
        in (channel',
            Some \<lparr>request_kind = kind, expected_id = id_byte cid, packet = pkt,
                  deadline = now + ms (poll_response_timeout config),
                  stop_on_timeout = False, query_ref = None\<rparr>))"

text \<open>\<open>SteadyClock::duration::max()\<close>.\<close>

definition duration_max :: time where
  "duration_max = 2 ^ 63 - 1"

definition dequeue_ready_query :: "time \<Rightarrow> client \<Rightarrow> client \<times> scheduled_request option" where
  "dequeue_ready_query now c =
     (let expired_queries = filter (\<lambda>r. deadline r \<le> now) (request_queue c);
          c = c\<lparr>request_queue := filter (\<lambda>r. \<not> deadline r \<le> now) (request_queue c)\<rparr>;
          time_until_imu = (if interval_ms (imu_channel c) > 0 then next_due (imu_channel c) - now else duration_max);
          time_until_motor = (if interval_ms (motor_channel c) > 0 then next_due (motor_channel c) - now else duration_max);
          next_poll_due = min time_until_imu time_until_motor;
          (c, ready_query) =
            (case request_queue c of
               [] \<Rightarrow> (c, None)
             | r # rest \<Rightarrow>
                 if next_poll_due > ms (query_guard_window (cfg c))
                 then (c\<lparr>request_queue := rest\<rparr>, Some r) else (c, None))
      in (fold on_timeout expired_queries c, ready_query))"

end
