(* ===== verification/Command_Queue.thy ===== *)
theory Command_Queue
  imports Scheduler
begin

text \<open>
  Correctness of the command path: the queue keeps the latest packet of each command in the order
  of the last requests, the watchdog replaces stale commands by one safe stop, and no brake command
  exceeds the configured limit.
\<close>

section \<open>The contract of a coalescing queue\<close>

text \<open>
  What the callers of the setters and the I/O thread rely on: the queue holds at most one packet
  per key, the latest one pushed; a packet that is popped was pending, and is pending no more.
\<close>

locale coalescing_queue =
  fixes push :: "'p \<Rightarrow> 'q \<Rightarrow> 'q"
    and pop :: "'q \<Rightarrow> ('p \<times> 'q) option"
    and pending :: "'q \<Rightarrow> 'k \<rightharpoonup> 'p"
    and key :: "'p \<Rightarrow> 'k"
    and valid :: "'p \<Rightarrow> bool"
    and ok :: "'q \<Rightarrow> bool"
  assumes push_ok: "ok q \<Longrightarrow> valid p \<Longrightarrow> ok (push p q)"
    and push_pending: "ok q \<Longrightarrow> valid p \<Longrightarrow> pending (push p q) = (pending q)(key p \<mapsto> p)"
    and pop_pending: "ok q \<Longrightarrow> pop q = Some (p, q') \<Longrightarrow>
      ok q' \<and> pending q (key p) = Some p \<and> pending q' = (pending q)(key p := None)"
    and pop_None: "pop q = None \<longleftrightarrow> pending q = Map.empty"
begin

lemma pushes_ok: "ok q \<Longrightarrow> (\<And>p. p \<in> set ps \<Longrightarrow> valid p) \<Longrightarrow> ok (fold push ps q)"
  by (induction ps arbitrary: q) (simp_all add: push_ok)

lemma pushes_pending:
  "ok q \<Longrightarrow> (\<And>p. p \<in> set ps \<Longrightarrow> valid p) \<Longrightarrow>
     pending (fold push ps q) = pending q ++ map_of (map (\<lambda>p. (key p, p)) (rev ps))"
proof (induction ps arbitrary: q)
  case (Cons p ps)
  have "pending (fold push ps (push p q)) = pending (push p q) ++ map_of (map (\<lambda>p. (key p, p)) (rev ps))"
    using Cons by (intro Cons.IH) (simp_all add: push_ok)
  with Cons.prems show ?case by (simp add: push_pending map_add_upd_left map_add_assoc)
qed simp

text \<open>A packet that a later push of its key has replaced is never popped.\<close>

lemma replaced_not_popped:
  assumes "ok q" "valid p" "valid p'" "key p' = key p" "pop (push p' (push p q)) = Some (x, q')" "p \<noteq> p'"
  shows "x \<noteq> p"
proof
  assume "x = p"
  with assms pop_pending [OF push_ok [OF push_ok]]
  have "pending (push p' (push p q)) (key p) = Some p" by blast
  with assms show False by (simp add: push_pending push_ok)
qed

end

section \<open>The command queue implements it\<close>

definition packet_ok :: "bytes \<Rightarrow> bool" where
  "packet_ok p \<longleftrightarrow> 3 \<le> length p"

definition queue_ok :: "bytes list \<Rightarrow> bool" where
  "queue_ok q \<longleftrightarrow> (\<forall>p \<in> set q. packet_ok p) \<and> distinct (map (\<lambda>p. p ! 2) q)"

definition pending_command :: "bytes list \<Rightarrow> byte \<rightharpoonup> bytes" where
  "pending_command q = map_of (map (\<lambda>p. (p ! 2, p)) q)"

lemma coalesce_eq: "queue_ok q \<Longrightarrow> coalesce p q = filter (\<lambda>x. x ! 2 \<noteq> p ! 2) q @ [p]"
  by (auto simp: coalesce_def Let_def queue_ok_def packet_ok_def intro!: filter_cong)

lemma queue_ok_coalesce: "queue_ok q \<Longrightarrow> packet_ok p \<Longrightarrow> queue_ok (coalesce p q)"
  by (auto simp: coalesce_eq) (auto simp: queue_ok_def distinct_map_filter)

lemma pending_filter:
  "map_of (map (\<lambda>p. (p ! 2, p)) (filter (\<lambda>x. x ! 2 \<noteq> k) q)) = (map_of (map (\<lambda>p. (p ! 2, p)) q))(k := None)"
  by (induction q) auto

lemma map_of_append_fresh: "k \<notin> fst ` set xs \<Longrightarrow> map_of (xs @ [(k, v)]) = (map_of xs)(k \<mapsto> v)"
  by (induction xs) auto

lemma pending_coalesce: "queue_ok q \<Longrightarrow> pending_command (coalesce p q) = (pending_command q)(p ! 2 \<mapsto> p)"
proof -
  assume "queue_ok q"
  then have "pending_command (coalesce p q) =
      map_of (map (\<lambda>p. (p ! 2, p)) (filter (\<lambda>x. x ! 2 \<noteq> p ! 2) q) @ [(p ! 2, p)])"
    by (simp add: coalesce_eq pending_command_def del: map_of_append)
  also have "\<dots> = (map_of (map (\<lambda>p. (p ! 2, p)) (filter (\<lambda>x. x ! 2 \<noteq> p ! 2) q)))(p ! 2 \<mapsto> p)"
    by (rule map_of_append_fresh) auto
  finally show ?thesis by (simp add: pending_filter pending_command_def)
qed

interpretation commands: coalescing_queue coalesce take_front pending_command "\<lambda>p. p ! 2" packet_ok queue_ok
proof
  fix q p q' assume "queue_ok q" "take_front q = Some (p, q')"
  then show "queue_ok q' \<and> pending_command q (p ! 2) = Some p
      \<and> pending_command q' = (pending_command q)(p ! 2 := None)"
    by (cases q) (auto simp: queue_ok_def pending_command_def map_of_eq_None_iff image_image fun_upd_idem)
next
  fix q
  show "take_front q = None \<longleftrightarrow> pending_command q = Map.empty"
    by (cases q) (auto simp: pending_command_def)
qed (simp_all add: queue_ok_coalesce pending_coalesce)

section \<open>Sequences of commands\<close>

text \<open>Of each command identifier only the last packet, in the order of those last packets.\<close>

fun latest_per_command :: "bytes list \<Rightarrow> bytes list" where
  "latest_per_command [] = []"
| "latest_per_command (p # ps) =
     (if \<exists>x \<in> set ps. x ! 2 = p ! 2 then latest_per_command ps else p # latest_per_command ps)"

text \<open>Requests are a time, a packet and whether they refresh the watchdog.\<close>

definition enqueue_all :: "(time \<times> bytes \<times> bool) list \<Rightarrow> client \<Rightarrow> client" where
  "enqueue_all reqs c = fold (\<lambda>(now, pkt, refresh) c. fst (enqueue_command now pkt refresh c)) reqs c"

lemma latest_snoc:
  "latest_per_command (ps @ [p]) = filter (\<lambda>x. x ! 2 \<noteq> p ! 2) (latest_per_command ps) @ [p]"
  by (induction ps) auto

lemma latest_subset: "set (latest_per_command ps) \<subseteq> set ps"
  by (induction ps) auto

lemma latest_ok: "(\<And>p. p \<in> set ps \<Longrightarrow> packet_ok p) \<Longrightarrow> queue_ok (latest_per_command ps)"
  by (induction ps) (use latest_subset in \<open>fastforce simp: queue_ok_def\<close>)+

lemma latest_distinct: "queue_ok q \<Longrightarrow> latest_per_command q = q"
  by (induction q) (auto simp: queue_ok_def image_iff)

lemma wake_io_thread_simps [simp]:
  "command_queue (wake_io_thread c) = command_queue c" "running (wake_io_thread c) = running c"
  "control_watchdog (wake_io_thread c) = control_watchdog c" "cfg (wake_io_thread c) = cfg c"
  "request_queue (wake_io_thread c) = request_queue c"
  "in_flight_request (wake_io_thread c) = in_flight_request c"
  "queries (wake_io_thread c) = queries c" "sent (wake_io_thread c) = sent c"
  "parser (wake_io_thread c) = parser c" "registry (wake_io_thread c) = registry c"
  "imu_channel (wake_io_thread c) = imu_channel c" "motor_channel (wake_io_thread c) = motor_channel c"
  "deliveries (wake_io_thread c) = deliveries c" "fd (wake_io_thread c) = fd c"
  "wake_pipe (wake_io_thread c) = wake_pipe c" "io_thread (wake_io_thread c) = io_thread c"
  "imu_data_cache (wake_io_thread c) = imu_data_cache c"
  "motor_state_cache (wake_io_thread c) = motor_state_cache c"
  by (simp_all add: wake_io_thread_def)

lemma enqueue_command_queue:
  "running c \<Longrightarrow> packet_ok p \<Longrightarrow>
     command_queue (fst (enqueue_command now p refresh c)) = coalesce p (command_queue c)
     \<and> running (fst (enqueue_command now p refresh c)) \<and> snd (enqueue_command now p refresh c)"
  by (simp add: enqueue_command_def packet_ok_def Let_def)

text \<open>
  C21: However many commands are requested while the I/O thread is busy, the queue holds exactly
  the latest packet of each command identifier, in the order in which those latest packets were
  requested; everything older is gone.
\<close>

theorem command_queue_keeps_latest:
  assumes "running c" "queue_ok (command_queue c)" "\<And>now p rf. (now, p, rf) \<in> set reqs \<Longrightarrow> 3 \<le> length p"
  shows "command_queue (enqueue_all reqs c)
    = latest_per_command (command_queue c @ map (\<lambda>(_, p, _). p) reqs)"
proof -
  have "running (enqueue_all reqs c) \<and> command_queue (enqueue_all reqs c)
    = latest_per_command (command_queue c @ map (\<lambda>(_, p, _). p) reqs)"
    using assms(3)
  proof (induction reqs rule: rev_induct)
    case Nil
    then show ?case using assms(1,2) by (simp add: enqueue_all_def latest_distinct)
  next
    case (snoc req reqs)
    obtain now p rf where req: "req = (now, p, rf)" by (cases req)
    let ?ps = "command_queue c @ map (\<lambda>(_, p, _). p) reqs"
    have ih: "running (enqueue_all reqs c)" "command_queue (enqueue_all reqs c) = latest_per_command ?ps"
      using snoc.IH snoc.prems by force+
    have p: "packet_ok p" using snoc.prems req by (auto simp: packet_ok_def)
    have "queue_ok (latest_per_command ?ps)"
      by (rule latest_ok) (use snoc.prems assms(2) in \<open>auto simp: queue_ok_def packet_ok_def\<close>)
    with enqueue_command_queue [OF ih(1) p, of now rf] ih(2) show ?case
      using latest_snoc [of ?ps p] by (simp add: enqueue_all_def req coalesce_eq)
  qed
  then show ?thesis by simp
qed

theorem command_queue_keeps_latest_witness:
  "command_queue (enqueue_all [(0, [2, 1, 8, 1], True), (1, [2, 1, 5, 1], True), (2, [2, 1, 8, 2], False)]
      ((new_client default_controller_config)\<lparr>running := True\<rparr>))
    = latest_per_command (command_queue ((new_client default_controller_config)\<lparr>running := True\<rparr>)
        @ map (\<lambda>(_, p, _). p) [(0 :: time, [2, 1, 8, 1], True), (1, [2, 1, 5, 1], True), (2, [2, 1, 8, 2], False)])
   \<and> latest_per_command [[2, 1, 8, 1], [2, 1, 5, 1], [2, 1, 8, 2]] = [[2, 1, 5, 1], [2, 1, 8, 2]]"
proof
  show "command_queue (enqueue_all [(0, [2, 1, 8, 1], True), (1, [2, 1, 5, 1], True), (2, [2, 1, 8, 2], False)]
      ((new_client default_controller_config)\<lparr>running := True\<rparr>))
    = latest_per_command (command_queue ((new_client default_controller_config)\<lparr>running := True\<rparr>)
        @ map (\<lambda>(_, p, _). p) [(0 :: time, [2, 1, 8, 1], True), (1, [2, 1, 5, 1], True), (2, [2, 1, 8, 2], False)])"
    by (rule command_queue_keeps_latest) (auto simp: new_client_def queue_ok_def)
qed simp

section \<open>The watchdog\<close>

lemma coast_packet: "carries_i32 (build_set_current_command 0) SetCurrent 0"
proof -
  have "build_set_current_command 0 \<noteq> []" by (simp add: current.refused_iff current_range_def)
  from carries_i32I [OF current.delivered [OF this]] show ?thesis by (simp add: trunc_real_def)
qed

lemma brake_packet:
  assumes "f32_isfinite a" "0 \<le> f32_real a" "f32_real a * 1000 \<le> 2147483647"
  shows "carries_i32 (build_set_current_brake_command a) SetCurrentBrake \<lfloor>f32_real a * 1000\<rfloor>"
proof -
  have "build_set_current_brake_command a \<noteq> []" using assms by (simp add: brake.refused_iff current_range_def)
  from carries_i32I [OF brake.delivered [OF this]] show ?thesis
    using assms by (simp add: sint_trunc_32) (simp add: trunc_real_def)
qed

text \<open>What the watchdog has to send: nothing while it is off, zero current, or a clamped brake.\<close>

definition safe_stop :: "controller_config \<Rightarrow> bytes \<Rightarrow> bool" where
  "safe_stop config pkt =
     (case command_watchdog_action config of
        Disabled \<Rightarrow> False
      | Coast \<Rightarrow> carries_i32 pkt SetCurrent 0
      | BrakeCurrent \<Rightarrow>
          carries_i32 pkt SetCurrentBrake
            \<lfloor>min (f32_real (command_watchdog_brake_current config)) (f32_real (max_brake_current config)) * 1000\<rfloor>)"

text \<open>The brake settings denote currents that the wire can carry.\<close>

definition brake_settings_ok :: "controller_config \<Rightarrow> bool" where
  "brake_settings_ok config \<longleftrightarrow>
     f32_isfinite (command_watchdog_brake_current config) \<and> f32_isfinite (max_brake_current config) \<and>
     min (f32_real (command_watchdog_brake_current config)) (f32_real (max_brake_current config)) * 1000 \<le> 2147483647"

lemma enabled_brake_positive:
  "control_watchdog_enabled config \<Longrightarrow> command_watchdog_action config = BrakeCurrent \<Longrightarrow> brake_settings_ok config \<Longrightarrow>
     0 < f32_real (command_watchdog_brake_current config) \<and> 0 < f32_real (max_brake_current config)"
  by (auto simp: control_watchdog_enabled_def brake_settings_ok_def f32_less_real split: if_splits)

text \<open>
  C22: When control input goes stale the watchdog fires exactly once: at or after the deadline it
  drops every queued command, disarms itself and yields one safe-stop packet (zero current, or the
  configured brake current cut to the configured maximum); before the deadline, and until a new
  control command arms it again, it changes nothing.
\<close>

theorem watchdog_fires_once:
  assumes "running c" "control_watchdog_enabled (cfg c)" "armed (control_watchdog c)"
    and "command_watchdog_action (cfg c) = BrakeCurrent \<Longrightarrow> brake_settings_ok (cfg c)"
  shows "if wd_deadline (control_watchdog c) \<le> now
     then \<exists>c' pkt. dequeue_due_watchdog_command now c = (c', Some pkt) \<and> safe_stop (cfg c) pkt
        \<and> command_queue c' = [] \<and> \<not> armed (control_watchdog c')
        \<and> dequeue_due_watchdog_command later c' = (c', None)
     else dequeue_due_watchdog_command now c = (c, None)"
proof (cases "command_watchdog_action (cfg c)")
  case Disabled
  with assms(2) show ?thesis by (simp add: control_watchdog_enabled_def split: if_splits)
next
  case Coast
  with assms show ?thesis
    by (auto simp: dequeue_due_watchdog_command_def safe_stop_def coast_packet default_watchdog_def)
next
  case BrakeCurrent
  let ?a = "clamp_brake_current (command_watchdog_brake_current (cfg c)) (max_brake_current (cfg c))"
  have ok: "brake_settings_ok (cfg c)" using assms(4) BrakeCurrent by simp
  have "f32_isfinite ?a" "f32_real ?a = min (f32_real (command_watchdog_brake_current (cfg c))) (f32_real (max_brake_current (cfg c)))"
    "0 \<le> f32_real ?a"
    using clamp_real [of "command_watchdog_brake_current (cfg c)" "max_brake_current (cfg c)"]
      enabled_brake_positive [OF assms(2) BrakeCurrent ok] ok by (auto simp: brake_settings_ok_def)
  with brake_packet [of ?a] ok have "safe_stop (cfg c) (build_set_current_brake_command ?a)"
    using BrakeCurrent by (simp add: safe_stop_def brake_settings_ok_def)
  with assms BrakeCurrent show ?thesis
    by (auto simp: dequeue_due_watchdog_command_def default_watchdog_def)
qed

definition watchdog_example :: client where
  "watchdog_example =
     (new_client (default_controller_config\<lparr>command_watchdog_timeout := 100, command_watchdog_action := Coast\<rparr>))
       \<lparr>running := True, control_watchdog := \<lparr>wd_deadline = 5, armed = True\<rparr>\<rparr>"

theorem watchdog_fires_once_witness:
  "\<exists>c' pkt. dequeue_due_watchdog_command 7 watchdog_example = (c', Some pkt) \<and> safe_stop (cfg watchdog_example) pkt
     \<and> command_queue c' = [] \<and> \<not> armed (control_watchdog c') \<and> dequeue_due_watchdog_command 9 c' = (c', None)"
proof -
  have "running watchdog_example" "control_watchdog_enabled (cfg watchdog_example)"
    "armed (control_watchdog watchdog_example)" "command_watchdog_action (cfg watchdog_example) = Coast"
    "wd_deadline (control_watchdog watchdog_example) = 5"
    by (simp_all add: watchdog_example_def new_client_def control_watchdog_enabled_def)
  with watchdog_fires_once [of watchdog_example 7 9] show ?thesis by simp
qed

section \<open>The setters\<close>

lemma framed_packet_ok: "framed_command cid pkt \<Longrightarrow> pkt \<noteq> [] \<longleftrightarrow> packet_ok pkt"
  by (auto simp: framed_command_def packet_ok_def length_frame)

lemma enqueue_refused: "\<not> (running c \<and> packet_ok pkt) \<Longrightarrow> enqueue_command now pkt refresh c = (c, False)"
  by (auto simp: enqueue_command_def packet_ok_def)

lemma enqueue_accepted:
  assumes "running c" "packet_ok pkt"
  obtains c' q where "enqueue_command now pkt refresh c = (c', True)" "command_queue c' = q @ [pkt]"
    "control_watchdog c' =
       (if refresh \<and> control_watchdog_enabled (cfg c)
        then \<lparr>wd_deadline = now + ms (command_watchdog_timeout (cfg c)), armed = True\<rparr> else control_watchdog c)"
  using assms that [of "fst (enqueue_command now pkt refresh c)"]
  by (simp add: enqueue_command_def packet_ok_def Let_def coalesce_def)

text \<open>
  C23: A brake request is accepted exactly when the client runs, request and configured maximum
  are finite and positive and the smaller of the two fits the wire; what is queued last then
  carries the smaller of the two in milliamperes, so it never exceeds the configured maximum.  A
  refused request changes nothing.
\<close>

theorem brake_request_bounded:
  "if running c \<and> f32_isfinite a \<and> f32_isfinite (max_brake_current (cfg c)) \<and> 0 < f32_real a
      \<and> 0 < f32_real (max_brake_current (cfg c))
      \<and> min (f32_real a) (f32_real (max_brake_current (cfg c))) * 1000 \<le> 2147483647
   then \<exists>c' q pkt. set_current_brake now a c = (c', True) \<and> command_queue c' = q @ [pkt]
     \<and> carries_i32 pkt SetCurrentBrake \<lfloor>min (f32_real a) (f32_real (max_brake_current (cfg c))) * 1000\<rfloor>
     \<and> real_of_int \<lfloor>min (f32_real a) (f32_real (max_brake_current (cfg c))) * 1000\<rfloor>
         \<le> f32_real (max_brake_current (cfg c)) * 1000
   else set_current_brake now a c = (c, False)" (is "if ?ok then _ else _")
proof -
  define b where "b = clamp_brake_current a (max_brake_current (cfg c))"
  have b: "f32_isfinite b" "f32_real b = (if f32_isfinite a \<and> f32_isfinite (max_brake_current (cfg c)) \<and> 0 < f32_real a
      \<and> 0 < f32_real (max_brake_current (cfg c)) then min (f32_real a) (f32_real (max_brake_current (cfg c))) else 0)"
    using clamp_real [of a "max_brake_current (cfg c)"] by (simp_all add: b_def)
  have op: "set_current_brake now a c =
      (if f32_real b \<le> 0 then (c, False) else enqueue_command now (build_set_current_brake_command b) True c)"
    by (simp add: set_current_brake_def enqueue_control_command_def Let_def f32_le_real b(1) flip: b_def)
  have pk: "packet_ok (build_set_current_brake_command b) \<longleftrightarrow> current_range (f32_real b)"
    using framed_packet_ok [OF brake.framed [of b]] brake.refused_iff [of b] b(1) by blast
  show ?thesis
  proof (cases ?ok)
    case True
    then have r: "f32_real b = min (f32_real a) (f32_real (max_brake_current (cfg c)))" "0 < f32_real b"
      using b(2) by auto
    have "f32_real b * 1000 \<le> 2147483647" using True r(1) by simp
    with r(2) have "packet_ok (build_set_current_brake_command b)" unfolding pk current_range_def by simp
    from enqueue_accepted [OF _ this, of c now True] True obtain c' q
      where "enqueue_command now (build_set_current_brake_command b) True c = (c', True)"
        "command_queue c' = q @ [build_set_current_brake_command b]" by blast
    moreover have "carries_i32 (build_set_current_brake_command b) SetCurrentBrake \<lfloor>f32_real b * 1000\<rfloor>"
      using brake_packet [of b] True r b(1) by simp
    moreover have "real_of_int \<lfloor>f32_real b * 1000\<rfloor> \<le> f32_real (max_brake_current (cfg c)) * 1000"
      using of_int_floor_le [of "f32_real b * 1000"] r(1) by linarith
    ultimately show ?thesis using True r op by auto
  next
    case False
    then have "f32_real b \<le> 0 \<or> \<not> (running c \<and> packet_ok (build_set_current_brake_command b))"
      using b(2) pk by (auto simp: current_range_def split: if_splits)
    with False show ?thesis using op enqueue_refused [of c] by auto
  qed
qed

text \<open>
  A duty-cycle request is accepted exactly when the client runs and the duty cycle is finite
  and between -1 and 1.  It then is the last queued packet, and if a watchdog is configured the
  watchdog is armed to fire one time-out later; a refused request changes nothing, so it neither
  reaches the queue nor keeps a stale command alive.
\<close>

theorem duty_request_effect:
  "if running c \<and> f32_isfinite d \<and> - 1 \<le> f32_real d \<and> f32_real d \<le> 1
   then \<exists>c' q pkt. set_duty now d c = (c', True) \<and> command_queue c' = q @ [pkt]
     \<and> carries_i32 pkt SetDuty (trunc_real (f32_real d * 100000))
     \<and> (if control_watchdog_enabled (cfg c)
        then control_watchdog c' = \<lparr>wd_deadline = now + ms (command_watchdog_timeout (cfg c)), armed = True\<rparr>
        else control_watchdog c' = control_watchdog c)
   else set_duty now d c = (c, False)" (is "if ?ok then _ else _")
proof -
  have pk: "packet_ok (build_set_duty_command d) \<longleftrightarrow> f32_isfinite d \<and> duty_range (f32_real d)"
    using framed_packet_ok [OF duty.framed [of d]] duty.refused_iff [of d] by blast
  show ?thesis
  proof (cases ?ok)
    case True
    then have r: "packet_ok (build_set_duty_command d)" by (simp add: pk duty_range_def)
    then have "build_set_duty_command d \<noteq> []" by (auto simp: packet_ok_def)
    from carries_i32I [OF duty.delivered [OF this]] True
    have "carries_i32 (build_set_duty_command d) SetDuty (trunc_real (f32_real d * 100000))"
      by (simp add: sint_trunc_32)
    with True show ?thesis
      by (auto simp: set_duty_def enqueue_control_command_def elim!: enqueue_accepted [OF _ r, of c now True])
  next
    case False
    then have "\<not> (running c \<and> packet_ok (build_set_duty_command d))" by (simp add: pk duty_range_def)
    from enqueue_refused [OF this] show ?thesis
      using False by (simp add: set_duty_def enqueue_control_command_def)
  qed
qed

text \<open>Beyond the settings that the wire can carry the safe stop is an empty packet, which
  \<open>write_packet\<close> refuses: the transport stops and the controller is not told to brake.\<close>

lemma watchdog_brake_too_large:
  assumes "running c" "armed (control_watchdog c)" "wd_deadline (control_watchdog c) \<le> now"
    and "command_watchdog_timeout (cfg c) > 0" "command_watchdog_action (cfg c) = BrakeCurrent"
    and "f32_isfinite (command_watchdog_brake_current (cfg c))" "f32_isfinite (max_brake_current (cfg c))"
    and "2147483647 < min (f32_real (command_watchdog_brake_current (cfg c))) (f32_real (max_brake_current (cfg c))) * 1000"
  shows "snd (dequeue_due_watchdog_command now c) = Some []"
proof -
  have pos: "0 < f32_real (command_watchdog_brake_current (cfg c))" "0 < f32_real (max_brake_current (cfg c))"
    using assms(8) by (auto simp: min_def split: if_splits)
  then have "control_watchdog_enabled (cfg c)"
    using assms by (simp add: control_watchdog_enabled_def f32_less_real)
  moreover have "build_set_current_brake_command
      (clamp_brake_current (command_watchdog_brake_current (cfg c)) (max_brake_current (cfg c))) = []"
    using clamp_real [of "command_watchdog_brake_current (cfg c)" "max_brake_current (cfg c)"] pos assms(6-8)
    by (simp add: brake.refused_iff current_range_def)
  ultimately show ?thesis using assms by (simp add: dequeue_due_watchdog_command_def)
qed

end
