(* ===== verification/Requests.thy ===== *)
theory Requests
  imports Command_Queue "HOL-Library.Multiset"
begin

text \<open>
  Correctness of the request path.  The central invariant is that every query a caller waits for
  is owned by exactly one outstanding request (queued, in flight, or held by the I/O thread while
  it writes it), and that every other query is completed; the operations of the scheduler keep it.
\<close>

section \<open>Outstanding requests and unfinished queries\<close>

definition refs :: "scheduled_request list \<Rightarrow> nat list" where
  "refs rs = List.map_filter query_ref rs"

definition in_flight_list :: "client \<Rightarrow> scheduled_request list" where
  "in_flight_list c = (case in_flight_request c of None \<Rightarrow> [] | Some r \<Rightarrow> [r])"

definition outstanding :: "client \<Rightarrow> scheduled_request list" where
  "outstanding c = request_queue c @ in_flight_list c"

definition unfinished :: "query_state list \<Rightarrow> nat set" where
  "unfinished qs = {q. q < length qs \<and> \<not> completed (qs ! q)}"

text \<open>\<open>held\<close>: requests in the hands of the I/O thread.\<close>

definition owned :: "scheduled_request list \<Rightarrow> client \<Rightarrow> bool" where
  "owned held c \<longleftrightarrow> mset (refs (outstanding c @ held)) = mset_set (unfinished (queries c))"

definition requests_ok :: "client \<Rightarrow> bool" where
  "requests_ok c \<longleftrightarrow>
     owned [] c \<and>
     (\<forall>r \<in> set (request_queue c). request_kind r = Query \<and> query_ref r \<noteq> None \<and> packet r \<noteq> []) \<and>
     (\<forall>r \<in> set (in_flight_list c). query_ref r = None \<longleftrightarrow> request_kind r \<noteq> Query) \<and>
     (\<forall>q \<in> set (queries c). \<not> completed q \<longrightarrow> result q = None)"

text \<open>The effect of \<open>on_timeout\<close> on the query states.\<close>

definition mark :: "nat list \<Rightarrow> query_state list \<Rightarrow> query_state list" where
  "mark is qs = fold (\<lambda>q qs. qs[q := (qs ! q)\<lparr>completed := True\<rparr>]) is qs"

lemma refs_simps [simp]:
  "refs [] = []" "refs (r # rs) = (case query_ref r of None \<Rightarrow> refs rs | Some q \<Rightarrow> q # refs rs)"
  "refs (rs @ rs') = refs rs @ refs rs'"
  by (simp_all add: refs_def map_filter_simps map_filter_def split: option.split)

lemma nth_unmarked: "i \<notin> set is \<Longrightarrow> mark is qs ! i = qs ! i"
  by (induction "is" arbitrary: qs) (simp_all add: mark_def)

lemma finite_unfinished [simp]: "finite (unfinished qs)"
  by (simp add: unfinished_def)

lemma length_mark [simp]: "length (mark is qs) = length qs"
  by (induction "is" arbitrary: qs) (simp_all add: mark_def)

lemma mark_simps [simp]:
  "mark [] qs = qs" "mark (q # is) qs = mark is (qs[q := (qs ! q)\<lparr>completed := True\<rparr>])"
  "mark (is @ js) qs = mark js (mark is qs)"
  by (simp_all add: mark_def)

lemma nth_mark:
  "i < length qs \<Longrightarrow> mark is qs ! i = (if i \<in> set is then (qs ! i)\<lparr>completed := True\<rparr> else qs ! i)"
proof (induction "is" arbitrary: qs)
  case (Cons a "is")
  then show ?case by (cases "a = i") simp_all
qed simp

lemma unfinished_mark: "unfinished (mark is qs) = unfinished qs - set is"
  by (auto simp: unfinished_def nth_mark split: if_splits)

lemma mark_unfinished_None:
  assumes "\<forall>q \<in> set qs. \<not> completed q \<longrightarrow> result q = None"
  shows "\<forall>q \<in> set (mark is qs). \<not> completed q \<longrightarrow> result q = None"
proof (intro ballI impI)
  fix q assume q: "q \<in> set (mark is qs)" "\<not> completed q"
  then obtain i where i: "i < length qs" "mark is qs ! i = q" by (auto simp: in_set_conv_nth)
  with q(2) have "q = qs ! i" by (auto simp: nth_mark split: if_splits)
  with i(1) q(2) assms show "result q = None" by simp
qed

lemma on_timeout_mark: "on_timeout r c = c\<lparr>queries := mark (refs [r]) (queries c)\<rparr>"
  by (simp add: on_timeout_def split: option.split)

lemma fold_on_timeout: "fold on_timeout rs c = c\<lparr>queries := mark (refs rs) (queries c)\<rparr>"
  by (induction rs arbitrary: c) (simp_all add: on_timeout_mark split: option.split)

lemma refs_partition: "mset (refs (filter P rs)) + mset (refs (filter (\<lambda>r. \<not> P r) rs)) = mset (refs rs)"
  by (induction rs) (auto split: option.split)

lemma mset_set_split:
  assumes "finite A" "M + N = mset_set A"
  shows "mset_set (A - set_mset M) = N"
proof -
  have "mset_set (A - set_mset M) = mset_set A - mset_set (set_mset M)"
  proof (rule mset_set_Diff)
    have "set_mset M \<subseteq> set_mset (mset_set A)" unfolding assms(2) [symmetric] by simp
    then show "set_mset M \<subseteq> A" using assms(1) by simp
  qed (rule assms(1))
  moreover have "mset_set (set_mset M) = M"
  proof (rule multiset_eqI)
    fix x
    have "count M x \<le> count (mset_set A) x" unfolding assms(2) [symmetric] by simp
    then show "count (mset_set (set_mset M)) x = count M x"
      by (cases "x \<in># M") (auto simp: count_mset_set' count_eq_zero_iff Suc_le_eq le_Suc_eq split: if_splits)
  qed
  ultimately show ?thesis by (simp flip: assms(2))
qed

text \<open>Completing the requests \<open>done\<close> and keeping \<open>kept\<close>: the shape of every operation below.\<close>

lemma owned_gone:
  assumes "owned held c" "mset (refs gone) + mset (refs kept) = mset (refs (outstanding c @ held))"
    and "unfinished (queries c') = unfinished (queries c) - set (refs gone)"
    and "mset (refs (outstanding c' @ held')) = mset (refs kept)"
  shows "owned held' c'"
proof -
  have "mset_set (unfinished (queries c) - set_mset (mset (refs gone))) = mset (refs kept)"
    by (rule mset_set_split) (use assms(1,2) in \<open>simp_all add: owned_def\<close>)
  with assms(3,4) show ?thesis by (simp add: owned_def)
qed

lemma owned_mark:
  assumes "owned held c" "mset (refs gone) + mset (refs kept) = mset (refs (outstanding c @ held))"
    and "queries c' = mark (refs gone) (queries c)" "mset (refs (outstanding c' @ held')) = mset (refs kept)"
  shows "owned held' c'"
  using assms(1,2) _ assms(4) by (rule owned_gone) (simp add: assms(3) unfinished_mark)

lemma owned_ref:
  assumes "owned held c" "r \<in> set (outstanding c @ held)" "query_ref r = Some q"
  shows "q < length (queries c)" "\<not> completed (queries c ! q)"
proof -
  have "q \<in> set (refs rs)" if "r \<in> set rs" for rs
    using that assms(3) by (induction rs) (auto split: option.split)
  then have "q \<in># mset (refs (outstanding c @ held))" using assms(2) by (simp only: set_mset_mset)
  then have "q \<in> unfinished (queries c)" using assms(1) by (simp only: owned_def finite_set_mset_mset_set finite_unfinished)
  then show "q < length (queries c)" "\<not> completed (queries c ! q)" by (simp_all add: unfinished_def)
qed

section \<open>The operations keep the invariant\<close>

lemma requests_ok_cong:
  "request_queue c' = request_queue c \<Longrightarrow> in_flight_request c' = in_flight_request c \<Longrightarrow> queries c' = queries c \<Longrightarrow>
     requests_ok c' = requests_ok c"
  by (simp add: requests_ok_def owned_def outstanding_def in_flight_list_def)

lemma requests_ok_new: "requests_ok (new_client config)"
  by (simp add: new_client_def requests_ok_def owned_def outstanding_def in_flight_list_def unfinished_def)

lemma requests_ok_enqueue: "requests_ok c \<Longrightarrow> requests_ok (fst (enqueue_command now p rf c))"
  by (erule rev_iffD1) (rule requests_ok_cong [symmetric]; simp add: enqueue_command_def Let_def)

lemma unfinished_snoc:
  "unfinished (qs @ [\<lparr>completed = False, result = None\<rparr>]) = insert (length qs) (unfinished qs)"
  by (auto simp: unfinished_def nth_append less_Suc_eq)

lemma requests_ok_submit: "requests_ok c \<Longrightarrow> requests_ok (fst (submit_query io now pkt cid dl stop c))"
proof -
  assume ok: "requests_ok c"
  show ?thesis
  proof (cases "io \<or> pkt = [] \<or> dl \<le> now \<or> \<not> running c")
    case True
    then show ?thesis using ok by (auto simp: submit_query_def)
  next
    case False
    have "length (queries c) \<notin> unfinished (queries c)" by (simp add: unfinished_def)
    with False ok show ?thesis
      by (auto simp: submit_query_def Let_def requests_ok_def owned_def outstanding_def in_flight_list_def
          unfinished_snoc)
  qed
qed

text \<open>The request whose time has come, if it is the one in flight.\<close>

definition overdue_in_flight :: "time \<Rightarrow> client \<Rightarrow> scheduled_request list" where
  "overdue_in_flight now c = filter (\<lambda>r. deadline r \<le> now) (in_flight_list c)"

lemma handle_request_timeout_eq:
  "handle_request_timeout now c =
     (let stop = (\<exists>r \<in> set (overdue_in_flight now c). stop_on_timeout r)
      in (c\<lparr>in_flight_request := (if overdue_in_flight now c = [] then in_flight_request c else None),
            request_queue := filter (\<lambda>r. \<not> deadline r \<le> now) (request_queue c),
            running := running c \<and> \<not> stop,
            queries := mark (refs (filter (\<lambda>r. deadline r \<le> now) (request_queue c)))
                            (mark (refs (overdue_in_flight now c)) (queries c))\<rparr>, stop))"
  by (cases "in_flight_request c")
    (auto simp: handle_request_timeout_def fold_on_timeout on_timeout_mark overdue_in_flight_def
      in_flight_list_def Let_def)

lemma timeout_in_flight_list:
  "in_flight_list (fst (handle_request_timeout now c)) = filter (\<lambda>r. \<not> deadline r \<le> now) (in_flight_list c)"
  by (cases "in_flight_request c")
    (auto simp: handle_request_timeout_eq Let_def in_flight_list_def overdue_in_flight_def)

lemma timeout_queries:
  "queries (fst (handle_request_timeout now c)) =
     mark (refs (overdue_in_flight now c @ filter (\<lambda>r. deadline r \<le> now) (request_queue c))) (queries c)"
  by (simp add: handle_request_timeout_eq Let_def)

lemma timeout_request_queue:
  "request_queue (fst (handle_request_timeout now c)) = filter (\<lambda>r. \<not> deadline r \<le> now) (request_queue c)"
  by (simp add: handle_request_timeout_eq Let_def)

lemma requests_ok_timeout:
  assumes "requests_ok c"
  shows "requests_ok (fst (handle_request_timeout now c))"
proof -
  let ?c = "fst (handle_request_timeout now c)"
  let ?gone = "overdue_in_flight now c @ filter (\<lambda>r. deadline r \<le> now) (request_queue c)"
  let ?kept = "filter (\<lambda>r. \<not> deadline r \<le> now) (outstanding c)"
  have "owned [] ?c"
  proof (rule owned_mark)
    show "owned [] c" using assms by (simp add: requests_ok_def)
    show "queries ?c = mark (refs ?gone) (queries c)" by (rule timeout_queries)
    have "mset (refs ?gone) = mset (refs (filter (\<lambda>r. deadline r \<le> now) (outstanding c)))"
      by (simp add: outstanding_def overdue_in_flight_def)
    then show "mset (refs ?gone) + mset (refs ?kept) = mset (refs (outstanding c @ []))"
      by (simp add: refs_partition del: refs_simps(3))
    show "mset (refs (outstanding ?c @ [])) = mset (refs ?kept)"
      by (simp add: outstanding_def timeout_in_flight_list timeout_request_queue)
  qed
  moreover have "\<forall>q \<in> set (queries ?c). \<not> completed q \<longrightarrow> result q = None"
    unfolding timeout_queries using assms by (intro mark_unfinished_None) (simp add: requests_ok_def)
  ultimately show ?thesis
    using assms by (simp add: requests_ok_def timeout_request_queue timeout_in_flight_list)
qed

lemma clear_pending_work_eq:
  "clear_pending_work c =
     c\<lparr>command_queue := [], request_queue := [], in_flight_request := None,
       control_watchdog := default_watchdog, queries := mark (refs (outstanding c)) (queries c)\<rparr>"
  by (cases "in_flight_request c")
    (simp_all add: clear_pending_work_def fold_on_timeout on_timeout_mark outstanding_def in_flight_list_def Let_def)

lemma clear_finishes: "owned [] c \<Longrightarrow> unfinished (queries (clear_pending_work c)) = {}"
proof -
  assume "owned [] c"
  then have "set_mset (mset (refs (outstanding c))) = unfinished (queries c)" by (simp add: owned_def)
  then show ?thesis by (simp add: clear_pending_work_eq unfinished_mark)
qed

lemma requests_ok_clear: "requests_ok c \<Longrightarrow> requests_ok (clear_pending_work c)"
  using clear_finishes [of c] mark_unfinished_None [of "queries c" "refs (outstanding c)"]
  by (simp add: requests_ok_def owned_def)
    (simp add: clear_pending_work_eq outstanding_def in_flight_list_def)

lemma dequeue_ready_query_eq:
  "dequeue_ready_query now c =
     (let due = filter (\<lambda>r. deadline r \<le> now) (request_queue c);
          rest = filter (\<lambda>r. \<not> deadline r \<le> now) (request_queue c);
          go = ms (query_guard_window (cfg c)) <
             min (if interval_ms (imu_channel c) > 0 then next_due (imu_channel c) - now else duration_max)
                 (if interval_ms (motor_channel c) > 0 then next_due (motor_channel c) - now else duration_max)
      in (c\<lparr>request_queue := (if go then tl rest else rest), queries := mark (refs due) (queries c)\<rparr>,
          if go \<and> rest \<noteq> [] then Some (hd rest) else None))"
  by (auto simp: dequeue_ready_query_def fold_on_timeout Let_def split: list.split)

lemma owned_dequeue_ready_query:
  assumes "requests_ok c" "dequeue_ready_query now c = (c', r)"
  defines "held \<equiv> case r of None \<Rightarrow> [] | Some r \<Rightarrow> [r]"
  shows "owned held c'" "\<forall>r \<in> set (request_queue c'). r \<in> set (request_queue c)"
    "in_flight_request c' = in_flight_request c"
    "\<forall>q \<in> set (queries c'). \<not> completed q \<longrightarrow> result q = None"
    "\<forall>r \<in> set held. r \<in> set (request_queue c) \<and> now < deadline r"
proof -
  let ?due = "filter (\<lambda>r. deadline r \<le> now) (request_queue c)"
  let ?rest = "filter (\<lambda>r. \<not> deadline r \<le> now) (request_queue c)"
  have q: "queries c' = mark (refs ?due) (queries c)" "in_flight_request c' = in_flight_request c"
    and split: "held @ request_queue c' = ?rest"
    using assms(2) by (auto simp: dequeue_ready_query_eq Let_def held_def split: if_splits)
  show "in_flight_request c' = in_flight_request c" by (rule q(2))
  have sub: "set (held @ request_queue c') \<subseteq> set (request_queue c) \<inter> {r. now < deadline r}" unfolding split by auto
  then show "\<forall>r \<in> set (request_queue c'). r \<in> set (request_queue c)"
    "\<forall>r \<in> set held. r \<in> set (request_queue c) \<and> now < deadline r" by auto
  show "\<forall>q \<in> set (queries c'). \<not> completed q \<longrightarrow> result q = None"
    unfolding q using assms(1) by (intro mark_unfinished_None) (simp add: requests_ok_def)
  have "mset (refs (held @ request_queue c')) = mset (refs ?rest)" by (simp only: split)
  then show "owned held c'"
    using assms(1) refs_partition [of "\<lambda>r. deadline r \<le> now" "request_queue c"] q(2)
    by (intro owned_mark [OF _ _ q(1), where kept = "?rest @ in_flight_list c" and held = "[]"])
      (auto simp: requests_ok_def outstanding_def in_flight_list_def add.assoc add.commute add.left_commute)
qed

text \<open>The I/O thread puts the request it holds in flight, or gives it up.\<close>

lemma requests_ok_in_flight:
  assumes "owned [r] c" "in_flight_request c = None" "query_ref r = None \<longleftrightarrow> request_kind r \<noteq> Query"
    and "\<forall>r \<in> set (request_queue c). request_kind r = Query \<and> query_ref r \<noteq> None \<and> packet r \<noteq> []"
    and "\<forall>q \<in> set (queries c). \<not> completed q \<longrightarrow> result q = None"
  shows "requests_ok (c\<lparr>in_flight_request := Some r\<rparr>)" "requests_ok (on_timeout r c)"
proof -
  show "requests_ok (c\<lparr>in_flight_request := Some r\<rparr>)"
    using assms by (simp add: requests_ok_def owned_def outstanding_def in_flight_list_def)
  have "owned [] (on_timeout r c)"
    by (rule owned_mark [OF assms(1), where gone = "[r]" and kept = "outstanding c"])
      (simp_all add: on_timeout_mark outstanding_def in_flight_list_def split: option.split)
  then show "requests_ok (on_timeout r c)"
    using assms mark_unfinished_None [OF assms(5), of "refs [r]"]
    by (simp add: requests_ok_def on_timeout_mark in_flight_list_def)
qed

lemma dispatch_payload_eq:
  assumes "in_flight_request c = Some r" "p \<noteq> []" "expected_id r = p ! 0"
  shows "\<exists>c'. dispatch_payload p stamp c = Some c' \<and> in_flight_request c' = None
    \<and> request_queue c' = request_queue c \<and> command_queue c' = command_queue c \<and> running c' = running c
    \<and> parser c' = parser c \<and> registry c' = registry c \<and> cfg c' = cfg c \<and> control_watchdog c' = control_watchdog c
    \<and> imu_channel c' = imu_channel c \<and> motor_channel c' = motor_channel c \<and> sent c' = sent c
    \<and> fd c' = fd c \<and> wake_pipe c' = wake_pipe c \<and> io_thread c' = io_thread c \<and> deliveries c' = deliveries c
    \<and> queries c' = (if request_kind r = Query then queries (on_success r p c) else queries c)"
proof -
  obtain i where i: "parse_get_imu_data p = Some i" using parse_imu_total by blast
  obtain s where s: "parse_get_values p = Some s" by (simp add: parse_get_values_eq)
  show ?thesis
    using assms i s
    by (cases "request_kind r")
      (auto simp: dispatch_payload_def Let_def publish_imu_def publish_motor_state_def on_success_def
        split: option.split)
qed

lemma dispatch_ignored:
  "in_flight_request c = None \<or> p = [] \<or> (\<exists>r. in_flight_request c = Some r \<and> expected_id r \<noteq> p ! 0) \<Longrightarrow>
     dispatch_payload p stamp c = Some c"
  by (cases p) (auto simp: dispatch_payload_def split: option.split)

lemma requests_ok_dispatch:
  assumes "requests_ok c"
  shows "\<exists>c'. dispatch_payload p stamp c = Some c' \<and> requests_ok c'"
proof (cases "in_flight_request c = None \<or> p = [] \<or> (\<exists>r. in_flight_request c = Some r \<and> expected_id r \<noteq> p ! 0)")
  case True
  from dispatch_ignored [OF this, of stamp] assms show ?thesis by auto
next
  case False
  then obtain r where r: "in_flight_request c = Some r" "p \<noteq> []" "expected_id r = p ! 0" by auto
  from dispatch_payload_eq [OF this, of stamp] obtain c'
    where c': "dispatch_payload p stamp c = Some c'" "in_flight_request c' = None"
      "request_queue c' = request_queue c"
      "queries c' = (if request_kind r = Query then queries (on_success r p c) else queries c)" by blast
  have ref: "query_ref r = None \<longleftrightarrow> request_kind r \<noteq> Query" and own: "owned [] c"
    using assms r(1) by (auto simp: requests_ok_def in_flight_list_def)
  have "unfinished (queries c') = unfinished (queries c) - set (refs [r])"
  proof (cases "query_ref r")
    case (Some q)
    from owned_ref(1) [OF own _ Some] have "q < length (queries c)"
      by (simp add: outstanding_def in_flight_list_def r(1))
    with Some ref c'(4) show ?thesis
      by (auto simp: on_success_def unfinished_def nth_list_update split: if_splits)
  qed (use ref c'(4) in simp)
  then have "owned [] c'"
    by (rule owned_gone [OF own, where kept = "request_queue c", rotated])
      (simp_all add: outstanding_def in_flight_list_def r(1) c'(2,3) split: option.split)
  moreover have "\<forall>q \<in> set (queries c'). \<not> completed q \<longrightarrow> result q = None"
    using assms c'(4)
    by (auto simp: requests_ok_def on_success_def dest!: set_update_subset_insert [THEN subsetD]
        split: option.splits if_splits)
  ultimately show ?thesis
    using assms c'(1-3) by (simp add: requests_ok_def in_flight_list_def)
qed

section \<open>Time-outs\<close>

lemma set_refs: "q \<in> set (refs rs) \<longleftrightarrow> (\<exists>r \<in> set rs. query_ref r = Some q)"
  by (induction rs) (auto split: option.split)

lemma query_marked:
  assumes "requests_ok c" "r \<in> set (outstanding c)" "query_ref r = Some q" "q \<in> set is"
  shows "query_result q (c\<lparr>queries := mark is (queries c)\<rparr>) = Some None"
proof -
  have own: "owned [] c" using assms(1) by (simp add: requests_ok_def)
  from owned_ref [OF own, of r q] assms(2,3) have "q < length (queries c)" "\<not> completed (queries c ! q)" by simp_all
  moreover from this assms(1) have "result (queries c ! q) = None" by (simp add: requests_ok_def)
  ultimately show ?thesis using assms(4) by (simp add: query_result_def nth_mark)
qed

lemma query_result_cong: "queries c' = queries c \<Longrightarrow> query_result q c' = query_result q c"
  by (simp add: query_result_def)

lemma owned_distinct: "owned held c \<Longrightarrow> distinct (refs (outstanding c @ held))"
proof -
  assume "owned held c"
  then have m: "mset (refs (outstanding c @ held)) = mset_set (unfinished (queries c))" by (simp only: owned_def)
  then have "set (refs (outstanding c @ held)) = unfinished (queries c)"
    by (metis finite_set_mset_mset_set finite_unfinished set_mset_mset)
  then show ?thesis unfolding distinct_count_atmost_1 m by (simp add: count_mset_set')
qed

lemma refs_filter_disjoint:
  "distinct (refs rs) \<Longrightarrow> r \<in> set rs \<Longrightarrow> query_ref r = Some q \<Longrightarrow> q \<in> set (refs (filter P rs)) \<longleftrightarrow> P r"
  by (induction rs) (auto simp: set_refs split: option.splits)

text \<open>
  C25: A time-out pass completes exactly the requests whose deadline has passed: their callers get
  no reply, the callers of all other requests go on waiting, and what was answered before stays as
  it was.  The queue keeps exactly the requests that are not overdue, in their order; the slot in
  flight is freed exactly when its request, a poll or a query, is overdue, and otherwise keeps it.
  The transport is stopped exactly when the overdue request in flight asked for it.
\<close>

theorem timeouts_complete_overdue:
  assumes "requests_ok c" "handle_request_timeout now c = (c', stop)"
  shows "requests_ok c'
    \<and> request_queue c' = filter (\<lambda>r. now < deadline r) (request_queue c)
    \<and> in_flight_request c' = (case in_flight_request c of
         Some r \<Rightarrow> if deadline r \<le> now then None else Some r | None \<Rightarrow> None)
    \<and> (\<forall>r \<in> set (outstanding c). \<forall>q. query_ref r = Some q \<longrightarrow>
         query_result q c' = (if deadline r \<le> now then Some None else None))
    \<and> (\<forall>q. q \<notin> set (refs (filter (\<lambda>r. deadline r \<le> now) (outstanding c))) \<longrightarrow> query_result q c' = query_result q c)
    \<and> (stop \<longleftrightarrow> (\<exists>r. in_flight_request c = Some r \<and> deadline r \<le> now \<and> stop_on_timeout r))
    \<and> running c' = (running c \<and> \<not> stop)"
proof (intro conjI ballI allI impI)
  have c': "c' = fst (handle_request_timeout now c)" using assms(2) by simp
  show "requests_ok c'" using requests_ok_timeout [OF assms(1)] by (simp add: c')
  show "request_queue c' = filter (\<lambda>r. now < deadline r) (request_queue c)"
    by (simp add: c' timeout_request_queue not_le)
  show "in_flight_request c' = (case in_flight_request c of
      Some r \<Rightarrow> if deadline r \<le> now then None else Some r | None \<Rightarrow> None)"
    using assms(2)
    by (auto simp: handle_request_timeout_eq Let_def overdue_in_flight_def in_flight_list_def split: option.splits if_splits)
  show "stop \<longleftrightarrow> (\<exists>r. in_flight_request c = Some r \<and> deadline r \<le> now \<and> stop_on_timeout r)"
    using assms(2)
    by (auto simp: handle_request_timeout_eq Let_def overdue_in_flight_def in_flight_list_def split: option.splits if_splits)
  show "running c' = (running c \<and> \<not> stop)"
    using assms(2) by (auto simp: handle_request_timeout_eq Let_def)
  let ?is = "refs (overdue_in_flight now c @ filter (\<lambda>r. deadline r \<le> now) (request_queue c))"
  have over: "set ?is = set (refs (filter (\<lambda>r. deadline r \<le> now) (outstanding c)))"
    by (auto simp: outstanding_def overdue_in_flight_def)
  have marked: "queries c' = mark ?is (queries c)" by (simp add: c' timeout_queries)
  show "query_result q c' = query_result q c"
    if "q \<notin> set (refs (filter (\<lambda>r. deadline r \<le> now) (outstanding c)))" for q
    using that unfolding over [symmetric] by (simp add: query_result_def marked nth_unmarked)
  fix r q assume r: "r \<in> set (outstanding c)" "query_ref r = Some q"
  have own: "owned [] c" using assms(1) by (simp add: requests_ok_def)
  from over have due: "q \<in> set ?is \<longleftrightarrow> deadline r \<le> now"
    using owned_distinct [OF own] refs_filter_disjoint [OF _ r, of "\<lambda>r. deadline r \<le> now"] by simp
  have res: "query_result q c' = query_result q (c\<lparr>queries := mark ?is (queries c)\<rparr>)"
    by (rule query_result_cong) (simp add: marked)
  show "query_result q c' = (if deadline r \<le> now then Some None else None)"
  proof (cases "deadline r \<le> now")
    case True
    then have "q \<in> set ?is" by (simp only: due)
    from query_marked [OF assms(1) r this] True res show ?thesis by simp
  next
    case False
    then have "q \<notin> set ?is" by (simp only: due not_False_eq_True)
    moreover from owned_ref [OF own, of r q] r have "q < length (queries c)" "\<not> completed (queries c ! q)" by simp_all
    ultimately show ?thesis using False unfolding res by (simp add: query_result_def nth_mark)
  qed
qed

definition request_example :: client where
  "request_example =
     fst (submit_query False 0 [2, 1, 0] FwVersion 5 False
       ((new_client default_controller_config)\<lparr>running := True\<rparr>))"

lemma request_example_ok: "requests_ok request_example"
proof -
  have "requests_ok ((new_client default_controller_config)\<lparr>running := True\<rparr>)"
    using requests_ok_new [of default_controller_config]
    by (rule rev_iffD1) (rule requests_ok_cong [symmetric]; simp)
  then show ?thesis unfolding request_example_def by (rule requests_ok_submit)
qed

theorem timeouts_complete_overdue_witness:
  "query_result 0 request_example = None \<and> query_result 0 (fst (handle_request_timeout 9 request_example)) = Some None"
proof
  let ?r = "\<lparr>request_kind = Query, expected_id = id_byte FwVersion, packet = [2, 1, 0],
             deadline = 5, stop_on_timeout = False, query_ref = Some 0\<rparr>"
  show "query_result 0 request_example = None"
    by (simp add: request_example_def submit_query_def new_client_def query_result_def Let_def)
  have "?r \<in> set (outstanding request_example)"
    by (simp add: request_example_def submit_query_def new_client_def outstanding_def Let_def)
  moreover obtain c' stop where "handle_request_timeout 9 request_example = (c', stop)"
    by (cases "handle_request_timeout 9 request_example")
  ultimately show "query_result 0 (fst (handle_request_timeout 9 request_example)) = Some None"
    using timeouts_complete_overdue [OF request_example_ok] by fastforce
qed

section \<open>Ready queries and polls\<close>

text \<open>The channel leaves room for a query: it is off, or its next poll is later than the guard
  window.\<close>

definition leaves_room :: "time \<Rightarrow> controller_config \<Rightarrow> poll_channel \<Rightarrow> bool" where
  "leaves_room now config ch \<longleftrightarrow>
     (if interval_ms ch > 0 then now + ms (query_guard_window config) < next_due ch else True)"

text \<open>
  C26: Queries are sent first in, first out: of the queries that are not overdue the oldest is
  taken, exactly when every enabled poll channel is further away than the guard window; an
  overdue query is never sent, and its caller gets no reply.
\<close>

theorem ready_query_fifo:
  fixes now :: time
  assumes "requests_ok c" "ms (query_guard_window (cfg c)) < duration_max"
  defines "fresh \<equiv> filter (\<lambda>r. now < deadline r) (request_queue c)"
  shows "(if leaves_room now (cfg c) (imu_channel c) \<and> leaves_room now (cfg c) (motor_channel c) \<and> fresh \<noteq> []
      then snd (dequeue_ready_query now c) = Some (hd fresh)
        \<and> request_queue (fst (dequeue_ready_query now c)) = tl fresh
      else snd (dequeue_ready_query now c) = None \<and> request_queue (fst (dequeue_ready_query now c)) = fresh)
    \<and> (\<forall>r \<in> set (request_queue c). \<forall>q. query_ref r = Some q \<and> deadline r \<le> now \<longrightarrow>
         query_result q (fst (dequeue_ready_query now c)) = Some None)"
proof -
  have fresh: "filter (\<lambda>r. \<not> deadline r \<le> now) (request_queue c) = fresh" by (simp add: fresh_def not_le)
  have room: "ms (query_guard_window (cfg c)) <
       min (if interval_ms (imu_channel c) > 0 then next_due (imu_channel c) - now else duration_max)
           (if interval_ms (motor_channel c) > 0 then next_due (motor_channel c) - now else duration_max)
      \<longleftrightarrow> leaves_room now (cfg c) (imu_channel c) \<and> leaves_room now (cfg c) (motor_channel c)"
    using assms(2) by (auto simp: leaves_room_def)
  have "query_result q (fst (dequeue_ready_query now c)) = Some None"
    if r: "r \<in> set (request_queue c)" "query_ref r = Some q" "deadline r \<le> now" for r q
  proof -
    have "r \<in> set (outstanding c)" using r(1) by (simp add: outstanding_def)
    moreover have "q \<in> set (refs (filter (\<lambda>r. deadline r \<le> now) (request_queue c)))"
      using r by (auto simp: set_refs)
    ultimately have "query_result q (c\<lparr>queries := mark (refs (filter (\<lambda>r. deadline r \<le> now) (request_queue c))) (queries c)\<rparr>) = Some None"
      using query_marked [OF assms(1) _ r(2)] by blast
    moreover have "queries (fst (dequeue_ready_query now c)) = mark (refs (filter (\<lambda>r. deadline r \<le> now) (request_queue c))) (queries c)"
      by (simp add: dequeue_ready_query_eq Let_def)
    ultimately show ?thesis
      by (subst query_result_cong [of _ "c\<lparr>queries := mark (refs (filter (\<lambda>r. deadline r \<le> now) (request_queue c))) (queries c)\<rparr>"]) simp_all
  qed
  then show ?thesis
    by (auto simp: dequeue_ready_query_eq Let_def fresh room simp del: min_less_iff_conj)
qed

theorem ready_query_fifo_witness:
  "snd (dequeue_ready_query 1 (request_example\<lparr>imu_channel := (imu_channel request_example)\<lparr>interval_ms := 0\<rparr>,
      motor_channel := (motor_channel request_example)\<lparr>interval_ms := 0\<rparr>\<rparr>))
    = Some (hd (filter (\<lambda>r. 1 < deadline r) (request_queue request_example)))"
proof -
  let ?c = "request_example\<lparr>imu_channel := (imu_channel request_example)\<lparr>interval_ms := 0\<rparr>,
      motor_channel := (motor_channel request_example)\<lparr>interval_ms := 0\<rparr>\<rparr>"
  have "requests_ok ?c" using request_example_ok by (rule rev_iffD1) (rule requests_ok_cong [symmetric]; simp)
  moreover have "ms (query_guard_window (cfg ?c)) < duration_max" "filter (\<lambda>r. 1 < deadline r) (request_queue ?c) \<noteq> []"
    by (simp_all add: request_example_def submit_query_def new_client_def default_controller_config_def
        duration_max_def Let_def)
  ultimately show ?thesis using ready_query_fifo [of ?c, where now = 1] by (simp add: leaves_room_def)
qed

text \<open>A channel that is enabled and due.\<close>

definition due :: "time \<Rightarrow> poll_channel \<Rightarrow> bool" where
  "due now ch \<longleftrightarrow> 0 < interval_ms ch \<and> next_due ch \<le> now"

definition channels_ok :: "client \<Rightarrow> bool" where
  "channels_ok c \<longleftrightarrow> channel_kind (imu_channel c) = Imu \<and> channel_kind (motor_channel c) = MotorState
     \<and> 0 \<le> interval_ms (imu_channel c) \<and> 0 \<le> interval_ms (motor_channel c)"

lemma select_due_eq:
  "channels_ok c \<Longrightarrow> select_due_poll_channel now c =
     (if due now (imu_channel c) \<and> (due now (motor_channel c) \<longrightarrow> next_due (imu_channel c) \<le> next_due (motor_channel c))
      then Some (imu_channel c)
      else if due now (motor_channel c) then Some (motor_channel c) else None)"
  by (auto simp: select_due_poll_channel_def consider_channel_def due_def channels_ok_def)

lemma poll_overtaken_once:
  assumes "channels_ok c" "select_due_poll_channel now c = Some ch"
    and "other \<in> {imu_channel c, motor_channel c}" "channel_kind other \<noteq> channel_kind ch" "due now other"
    and "now \<le> later"
  shows "\<exists>ch' r. make_due_poll_request (cfg c) ch now = (ch', Some r)
    \<and> select_due_poll_channel later (store_channel ch' c) = Some other"
proof -
  have ch: "due now ch" "next_due ch \<le> next_due other"
    using assms by (auto simp: select_due_eq channels_ok_def split: if_splits)
  obtain r where r: "make_due_poll_request (cfg c) ch now = (ch\<lparr>next_due := now + ms (interval_ms ch)\<rparr>, Some r)"
    using ch(1) by (cases "channel_kind ch = Imu") (auto simp: make_due_poll_request_def due_def Let_def)
  have later: "next_due other < now + ms (interval_ms ch)" "due later other"
    using ch(1) assms(5,6) by (auto simp: due_def)
  have "channels_ok (store_channel (ch\<lparr>next_due := now + ms (interval_ms ch)\<rparr>) c)"
    using assms(1,2)
    by (auto simp: select_due_eq channels_ok_def store_channel_def split: if_splits poll_kind.split)
  then have "select_due_poll_channel later (store_channel (ch\<lparr>next_due := now + ms (interval_ms ch)\<rparr>) c) = Some other"
    using assms(1-4) later
    by (auto simp: select_due_eq [of c] select_due_eq store_channel_def channels_ok_def due_def split: if_splits)
  with r show ?thesis by blast
qed

text \<open>
  C27: Polling is fair.  The selection is exactly this: the IMU channel, if it is due and the motor
  channel is not due earlier (so it wins ties); else the motor channel, if that is due; else none.
  And no due channel is overtaken twice: when one channel is served while the other is due, the
  other one is served at the next selection, however late that is.
\<close>

theorem polling_is_fair:
  assumes "channels_ok c"
  shows "select_due_poll_channel now c =
     (if due now (imu_channel c) \<and> (if due now (motor_channel c) then next_due (imu_channel c) \<le> next_due (motor_channel c) else True)
      then Some (imu_channel c)
      else if due now (motor_channel c) then Some (motor_channel c) else None)
    \<and> (select_due_poll_channel now c = Some ch \<and> other \<in> {imu_channel c, motor_channel c}
         \<and> channel_kind other \<noteq> channel_kind ch \<and> due now other \<and> now \<le> later
       \<longrightarrow> (\<exists>ch' r. make_due_poll_request (cfg c) ch now = (ch', Some r)
             \<and> select_due_poll_channel later (store_channel ch' c) = Some other))"
  using select_due_eq [OF assms, of now] poll_overtaken_once [OF assms] by auto

theorem polling_is_fair_witness:
  "\<exists>ch' r. make_due_poll_request default_controller_config (imu_channel (new_client default_controller_config)) 3 = (ch', Some r)
     \<and> select_due_poll_channel 4 (store_channel ch' (new_client default_controller_config))
         = Some (motor_channel (new_client default_controller_config))"
proof -
  let ?c = "new_client default_controller_config"
  have "channels_ok ?c" "select_due_poll_channel 3 ?c = Some (imu_channel ?c)"
    "channel_kind (motor_channel ?c) \<noteq> channel_kind (imu_channel ?c)" "due 3 (motor_channel ?c)" "cfg ?c = default_controller_config"
    by (simp_all add: new_client_def channels_ok_def due_def default_controller_config_def
        select_due_poll_channel_def consider_channel_def)
  with polling_is_fair [of ?c 3 "imu_channel ?c" "motor_channel ?c" 4] show ?thesis by simp
qed

section \<open>Replies\<close>

text \<open>The in-flight request that a payload answers.\<close>

definition answered :: "payload \<Rightarrow> client \<Rightarrow> scheduled_request option" where
  "answered p c =
     (case in_flight_request c of
        None \<Rightarrow> None
      | Some r \<Rightarrow> if p \<noteq> [] \<and> expected_id r = p ! 0 then Some r else None)"

text \<open>What the answer \<open>p\<close> to the request \<open>r\<close> does.\<close>

definition routed :: "scheduled_request \<Rightarrow> payload \<Rightarrow> 64 word \<Rightarrow> client \<Rightarrow> client \<Rightarrow> bool" where
  "routed r p stamp c c' =
     (case request_kind r of
        Query \<Rightarrow> (\<exists>q. query_ref r = Some q \<and> query_result q c' = Some (Some p))
          \<and> latest_motor_state c' = latest_motor_state c \<and> latest_imu c' = latest_imu c \<and> publishing c' = publishing c
      | PollMotorState \<Rightarrow>
          if 54 \<le> length p \<and> p ! 0 = id_byte GetValues
          then latest_motor_state c' = Some ((values_of p)\<lparr>motor_stamp_ns := stamp\<rparr>)
            \<and> publishing c' = map (\<lambda>i. DeliverMotor i ((values_of p)\<lparr>motor_stamp_ns := stamp\<rparr>))
                (invoke_callbacks (motor_callbacks (registry c)))
          else latest_motor_state c' = latest_motor_state c \<and> publishing c' = publishing c
      | PollImu \<Rightarrow>
          (case the (parse_get_imu_data p) of
             None \<Rightarrow> latest_imu c' = latest_imu c \<and> publishing c' = publishing c
           | Some d \<Rightarrow> latest_imu c' = Some (d\<lparr>imu_stamp_ns := stamp\<rparr>)
               \<and> publishing c' = map (\<lambda>i. DeliverImu i (d\<lparr>imu_stamp_ns := stamp\<rparr>))
                   (invoke_callbacks (imu_callbacks (registry c)))))"

text \<open>
  C28: A payload that does not carry the identifier the request in flight expects changes nothing.
  One that does frees the slot and is routed by the kind of the request: the caller of a query
  gets exactly that payload; an acceptable telemetry or IMU reply becomes, with its time stamp,
  the latest sample, and is copied out to every callable subscriber once; a malformed one touches
  neither cache nor subscribers.  When the copied calls run before anything else happens, each of
  these subscribers has got the sample, once.
\<close>

theorem replies_are_routed:
  assumes "requests_ok c"
  shows "\<exists>c'. dispatch_payload p stamp c = Some c' \<and> requests_ok c' \<and>
    (case answered p c of
       None \<Rightarrow> c' = c
     | Some r \<Rightarrow> in_flight_request c' = None \<and> routed r p stamp c c')
    \<and> deliveries c' = deliveries c \<and> deliveries (finish_publishing c') = deliveries c @ publishing c'"
proof (cases "answered p c")
  case None
  then have "in_flight_request c = None \<or> p = [] \<or> (\<exists>r. in_flight_request c = Some r \<and> expected_id r \<noteq> p ! 0)"
    by (auto simp: answered_def split: option.splits if_splits)
  from dispatch_ignored [OF this, of stamp] assms None show ?thesis by (simp add: finish_publishing_def)
next
  case (Some r)
  then have r: "in_flight_request c = Some r" "p \<noteq> []" "expected_id r = p ! 0"
    by (auto simp: answered_def split: option.splits if_splits)
  obtain c' where c': "dispatch_payload p stamp c = Some c'" "requests_ok c'"
    using requests_ok_dispatch [OF assms] by blast
  have fl: "in_flight_request c' = None" "deliveries c' = deliveries c"
    using dispatch_payload_eq [OF r, of stamp] c'(1) by auto
  have "routed r p stamp c c'"
  proof (cases "request_kind r")
    case Query
    then obtain q where q: "query_ref r = Some q"
      using assms r(1) by (auto simp: requests_ok_def in_flight_list_def)
    have "q < length (queries c)"
      using owned_ref(1) [of "[]" c r q] assms r(1) q by (simp add: requests_ok_def outstanding_def in_flight_list_def)
    with Query q c'(1) r show ?thesis
      by (auto simp: routed_def dispatch_payload_def on_success_def query_result_def latest_motor_state_def latest_imu_def)
  next
    case PollMotorState
    with c'(1) r show ?thesis
      by (auto simp: routed_def dispatch_payload_def parse_get_values_eq publish_motor_state_def latest_motor_state_def Let_def)
  next
    case PollImu
    obtain d where "parse_get_imu_data p = Some d" using parse_imu_total by blast
    with PollImu c'(1) r show ?thesis
      by (auto simp: routed_def dispatch_payload_def publish_imu_def latest_imu_def Let_def split: option.splits)
  qed
  with c' fl Some show ?thesis by (auto simp: finish_publishing_def)
qed

definition in_flight_example :: client where
  "in_flight_example =
     request_example\<lparr>request_queue := [], in_flight_request := Some (hd (request_queue request_example))\<rparr>"

lemma in_flight_example_ok: "requests_ok in_flight_example"
  using request_example_ok
  by (simp add: in_flight_example_def request_example_def submit_query_def new_client_def Let_def
      requests_ok_def owned_def outstanding_def in_flight_list_def)

theorem replies_are_routed_witness:
  "\<exists>c'. dispatch_payload [0, 7, 0] 7 in_flight_example = Some c' \<and> query_result 0 c' = Some (Some [0, 7, 0])"
  using replies_are_routed [OF in_flight_example_ok, of "[0, 7, 0]" 7]
  by (auto simp: answered_def routed_def in_flight_example_def request_example_def submit_query_def
      new_client_def Let_def)

end
