(* ===== verification/Transport.thy ===== *)
theory Transport
  imports Requests
begin

text \<open>
  The I/O of \<open>ControllerClient\<close>: \<open>write_packet\<close>, \<open>wait_until_writable\<close>, \<open>drain_fd\<close>, and one \<open>read\<close> of
  the I/O loop.  What the system calls return is an explicit list of outcomes; \<open>None\<close> is the value of
  a loop that has used up its outcomes and still waits.  The flag \<open>running_\<close> is shared with other
  threads: the outcomes \<open>Stopped\<close> and \<open>WaitStopped\<close> say that another thread has cleared it.
\<close>

section \<open>Outcomes of system calls\<close>

text \<open>\<open>SelectReady wake writable stopped\<close>: the descriptors that are ready, and whether \<open>running_\<close> is
  cleared by the time the code looks again.\<close>

datatype wait_step = SelectReady bool bool bool | SelectTimeout | SelectEINTR | SelectError | WaitStopped

text \<open>\<open>Wrote n\<close>: \<open>write\<close> returned \<open>n\<close>, which is never more than it was asked to write; \<open>WriteEAGAIN\<close>
  carries the outcomes of the wait that follows.\<close>

datatype write_step = Wrote nat | WriteEINTR | WriteEAGAIN "wait_step list" | WriteError | Stopped

text \<open>The bytes of a \<open>read\<close> with the wall-clock time at which each is handled; no data, end of file
  or an error.\<close>

datatype read_outcome = ReadData "(byte \<times> 64 word) list" | ReadEINTR | ReadEAGAIN | ReadFailed

section \<open>Writing\<close>

definition drain_wake_pipe :: "client \<Rightarrow> client" where
  "drain_wake_pipe c = c\<lparr>wake_pending := False\<rparr>"

fun wait_until_writable :: "wait_step list \<Rightarrow> client \<Rightarrow> (client \<times> bool) option" where
  "wait_until_writable [] c = (if running c then None else Some (c, False))"
| "wait_until_writable (s # steps) c =
     (if \<not> running c then Some (c, False)
      else
        case s of
          WaitStopped \<Rightarrow> wait_until_writable steps (c\<lparr>running := False\<rparr>)
        | SelectReady wake_ready fd_writable stopped \<Rightarrow>
            let c = (if stopped then c\<lparr>running := False\<rparr> else c);
                c = (if wake_ready then drain_wake_pipe c else c)
            in if wake_ready \<and> \<not> running c then Some (c, False)
               else if fd_writable then Some (c, True)
               else wait_until_writable steps c
        | SelectTimeout \<Rightarrow> wait_until_writable steps c
        | SelectEINTR \<Rightarrow> wait_until_writable steps c
        | SelectError \<Rightarrow> Some (c, False))"

text \<open>The loop of \<open>write_packet\<close> over the bytes that remain.\<close>

fun write_loop :: "write_step list \<Rightarrow> client \<Rightarrow> bytes \<Rightarrow> (client \<times> bool) option" where
  "write_loop steps c [] = Some (c, True)"
| "write_loop [] c (b # bs) = (if running c then None else Some (c, False))"
| "write_loop (s # steps) c (b # bs) =
     (if \<not> running c then Some (c, False)
      else
        case s of
          Stopped \<Rightarrow> write_loop steps (c\<lparr>running := False\<rparr>) (b # bs)
        | Wrote n \<Rightarrow>
            if n = 0 then Some (c, False)
            else write_loop steps (c\<lparr>sent := sent c @ take n (b # bs)\<rparr>) (drop n (b # bs))
        | WriteEINTR \<Rightarrow> write_loop steps c (b # bs)
        | WriteEAGAIN waits \<Rightarrow>
            (case wait_until_writable waits c of
               None \<Rightarrow> None
             | Some (c', ok) \<Rightarrow> if ok then write_loop steps c' (b # bs) else Some (c', False))
        | WriteError \<Rightarrow> Some (c, False))"

definition write_packet :: "write_step list \<Rightarrow> bytes \<Rightarrow> client \<Rightarrow> (client \<times> bool) option" where
  "write_packet steps pkt c = (if pkt = [] then Some (c, False) else write_loop steps c pkt)"

section \<open>Reading\<close>

text \<open>The stamp of a sample: the configured clock unless it throws (\<open>None\<close>), else the system clock in
  nanoseconds since the epoch.\<close>

definition wall_time_ns :: "controller_config \<Rightarrow> 64 word option \<Rightarrow> int \<Rightarrow> 64 word" where
  "wall_time_ns config custom system_now =
     (case (has_wall_time_ns config, custom) of
        (True, Some t) \<Rightarrow> t
      | _ \<Rightarrow> word_of_int system_now)"

text \<open>The body of the loop over the bytes that were read: a byte goes to the parser, and a decoded
  payload is dispatched, which may leave calls to be made.\<close>

fun feed_one :: "byte \<times> 64 word \<Rightarrow> client \<Rightarrow> client checked" where
  "feed_one (b, stamp) c =
     do { (buf, decoded) \<leftarrow> feed_byte (parser c) b;
          let c = c\<lparr>parser := buf\<rparr>;
          (case decoded of None \<Rightarrow> Some c | Some p \<Rightarrow> dispatch_payload p stamp c) }"

text \<open>The whole loop, when the callbacks of a sample run before the next byte is looked at and no other
  thread comes in between.\<close>

fun feed_input :: "(byte \<times> 64 word) list \<Rightarrow> client \<Rightarrow> client checked" where
  "feed_input [] c = Some c"
| "feed_input (x # input) c = do { c' \<leftarrow> feed_one x c; feed_input input (finish_publishing c') }"

text \<open>One iteration of the read loop: the client, and whether the loop goes on.\<close>

definition read_once :: "read_outcome \<Rightarrow> client \<Rightarrow> (client \<times> bool) checked" where
  "read_once outcome c =
     (case outcome of
        ReadData input \<Rightarrow> do { c' \<leftarrow> feed_input input c; Some (c', True) }
      | ReadEINTR \<Rightarrow> Some (c, True)
      | ReadEAGAIN \<Rightarrow> Some (c, False)
      | ReadFailed \<Rightarrow> Some (c\<lparr>running := False\<rparr>, False))"

section \<open>What a write leaves behind\<close>

text \<open>A client that differs only in the flags \<open>running_\<close> (which may be cleared) and the wake pipe, and
  in the bytes that were sent.\<close>

definition only_io :: "client \<Rightarrow> bytes \<Rightarrow> client \<Rightarrow> bool" where
  "only_io c out c' \<longleftrightarrow>
     (\<exists>rn wp. c' = c\<lparr>running := rn, wake_pending := wp, sent := sent c @ out\<rparr> \<and> (rn \<longrightarrow> running c))"

lemma only_ioI: "c' = c\<lparr>running := rn, wake_pending := wp, sent := sent c @ out\<rparr> \<Longrightarrow> (rn \<longrightarrow> running c) \<Longrightarrow> only_io c out c'"
  by (auto simp: only_io_def)

lemma only_io_trans:
  assumes "only_io c out c'" "only_io c' out' c''"
  shows "only_io c (out @ out') c''"
proof -
  obtain rn wp rn' wp' where "c' = c\<lparr>running := rn, wake_pending := wp, sent := sent c @ out\<rparr>" "rn \<longrightarrow> running c"
    "c'' = c'\<lparr>running := rn', wake_pending := wp', sent := sent c' @ out'\<rparr>" "rn' \<longrightarrow> running c'"
    using assms by (auto simp: only_io_def)
  then show ?thesis by (intro only_ioI [where rn = rn' and wp = wp']) auto
qed

lemma only_io_simps [simp]:
  "only_io c [] c" "only_io c [] (c\<lparr>running := False\<rparr>)" "only_io c [] (drain_wake_pipe c)"
  "only_io c [] (drain_wake_pipe (c\<lparr>running := False\<rparr>))" "only_io c out (c\<lparr>sent := sent c @ out\<rparr>)"
  by (simp_all add: drain_wake_pipe_def only_ioI [where rn = "running c" and wp = "wake_pending c"]
      only_ioI [where rn = False and wp = "wake_pending c"] only_ioI [where rn = "running c" and wp = False]
      only_ioI [where rn = False and wp = False])

lemma only_io_step: "only_io c [] c1 \<Longrightarrow> only_io c1 out c' \<Longrightarrow> only_io c out c'"
  using only_io_trans [of c "[]" c1 out c'] by simp

lemma wait_only_io: "wait_until_writable steps c = Some (c', ok) \<Longrightarrow> only_io c [] c'"
proof (induction steps arbitrary: c)
  case (Cons s steps)
  show ?case
  proof (cases "running c")
    case run: True
    show ?thesis
    proof (cases s)
      case (SelectReady wake writable stopped)
      define c1 where "c1 = (if stopped then c\<lparr>running := False\<rparr> else c)"
      define c2 where "c2 = (if wake then drain_wake_pipe c1 else c1)"
      have "only_io c [] c2" by (simp add: c1_def c2_def)
      moreover have "c' = c2 \<or> wait_until_writable steps c2 = Some (c', ok)"
        using Cons.prems run SelectReady by (auto simp: Let_def c1_def c2_def split: if_splits)
      ultimately show ?thesis using only_io_step Cons.IH by blast
    next
      case WaitStopped
      with Cons run show ?thesis using only_io_step [OF only_io_simps(2)] by simp
    qed (use Cons run in auto)
  qed (use Cons.prems in simp)
qed (auto split: if_splits)

lemma write_loop_prefix:
  "write_loop steps c rem = Some (c', ok) \<Longrightarrow>
     \<exists>n \<le> length rem. only_io c (take n rem) c' \<and> (ok \<longleftrightarrow> n = length rem)"
proof (induction steps c rem rule: write_loop.induct)
  case (3 s steps c b bs)
  let ?rem = "b # bs"
  have none: "\<exists>n \<le> length ?rem. only_io c (take n ?rem) c'' \<and> (False \<longleftrightarrow> n = length ?rem)" if "only_io c [] c''" for c''
    using that by (intro exI [of _ 0]) simp
  show ?case
  proof (cases "running c")
    case run: True
    show ?thesis
    proof (cases s)
      case (Wrote n)
      show ?thesis
      proof (cases "n = 0")
        case False
        with "3.prems" run Wrote
        have w: "write_loop steps (c\<lparr>sent := sent c @ take n ?rem\<rparr>) (drop n ?rem) = Some (c', ok)" by simp
        from "3.IH"(1) [OF _ Wrote False w] run obtain m where m: "m \<le> length (drop n ?rem)"
          "only_io (c\<lparr>sent := sent c @ take n ?rem\<rparr>) (take m (drop n ?rem)) c'" "ok \<longleftrightarrow> m = length (drop n ?rem)"
          by auto
        show ?thesis
        proof (cases "n \<le> length ?rem")
          case True
          have "only_io c (take (n + m) ?rem) c'"
            using only_io_trans [OF only_io_simps(5) m(2)] by (simp only: take_add)
          with m(1,3) True show ?thesis by (intro exI [of _ "n + m"]) auto
        next
          case False
          with m only_io_trans [OF only_io_simps(5) m(2)] show ?thesis
            by (intro exI [of _ "length ?rem"]) simp
        qed
      qed (use "3.prems" run Wrote none in simp)
    next
      case (WriteEAGAIN waits)
      with "3.prems" run obtain c1 ok1 where w: "wait_until_writable waits c = Some (c1, ok1)"
        and rest: "(if ok1 then write_loop steps c1 ?rem else Some (c1, False)) = Some (c', ok)"
        by (auto split: option.splits)
      show ?thesis
      proof (cases ok1)
        case True
        with rest "3.IH"(3) [OF _ WriteEAGAIN w refl] run show ?thesis
          using only_io_step [OF wait_only_io [OF w]] by auto
      next
        case False
        with rest none [OF wait_only_io [OF w]] show ?thesis by auto
      qed
    next
      case Stopped
      with "3.prems" run have "write_loop steps (c\<lparr>running := False\<rparr>) ?rem = Some (c', ok)" by simp
      from "3.IH"(4) [OF _ Stopped this] run show ?thesis
        using only_io_step [OF only_io_simps(2)] by blast
    next
      case WriteEINTR
      with "3.prems" run have "write_loop steps c ?rem = Some (c', ok)" by simp
      from "3.IH"(2) [OF _ WriteEINTR this] run show ?thesis by blast
    next
      case WriteError
      with "3.prems" run none show ?thesis by simp
    qed
  qed (use "3.prems" none in simp)
qed (auto split: if_splits intro: exI [of _ "0 :: nat"])

text \<open>
  C29: A packet is written byte for byte and in order, whatever mixture of partial writes,
  interruptions, full buffers and wake-ups the system answers with: the call succeeds exactly when
  all of the packet was sent, a failed call has sent a proper prefix, an empty packet is a
  failure, and nothing else of the client changes except that another thread may have stopped it.
\<close>

theorem write_packet_exact:
  assumes "write_packet steps pkt c = Some (c', ok)"
  shows "\<exists>n \<le> length pkt. sent c' = sent c @ take n pkt \<and> only_io c (take n pkt) c'
    \<and> (ok \<longleftrightarrow> pkt \<noteq> [] \<and> n = length pkt)"
proof -
  have "\<exists>n \<le> length pkt. only_io c (take n pkt) c' \<and> (ok \<longleftrightarrow> pkt \<noteq> [] \<and> n = length pkt)"
    using assms write_loop_prefix [of steps c pkt c' ok] by (cases "pkt = []") (auto simp: write_packet_def)
  moreover have "sent c' = sent c @ out" if "only_io c out c'" for out using that by (auto simp: only_io_def)
  ultimately show ?thesis by blast
qed

theorem write_packet_exact_witness:
  "\<exists>c'. write_packet [Wrote 2, WriteEINTR, WriteEAGAIN [SelectTimeout, SelectReady False True False], Wrote 3]
          [1, 2, 3, 4, 5] ((new_client default_controller_config)\<lparr>running := True\<rparr>) = Some (c', True)
     \<and> sent c' = [1, 2, 3, 4, 5]"
proof -
  let ?c = "(new_client default_controller_config)\<lparr>running := True\<rparr>"
  obtain c' where "write_packet [Wrote 2, WriteEINTR, WriteEAGAIN [SelectTimeout, SelectReady False True False], Wrote 3]
      [1, 2, 3, 4, 5] ?c = Some (c', True)"
    by (simp add: write_packet_def new_client_def Let_def)
  with write_packet_exact [OF this] show ?thesis by (auto simp: new_client_def)
qed

section \<open>A write comes back\<close>

text \<open>The outcomes of a device that is slow but alive: partial writes, interruptions, and waits that
  end with the descriptor writable.\<close>

fun alive_wait :: "wait_step list \<Rightarrow> bool" where
  "alive_wait [] = False"
| "alive_wait (SelectReady wake writable stopped # ws) = (\<not> stopped \<and> (writable \<or> alive_wait ws))"
| "alive_wait (SelectTimeout # ws) = alive_wait ws"
| "alive_wait (SelectEINTR # ws) = alive_wait ws"
| "alive_wait (_ # ws) = False"

primrec alive_step :: "write_step \<Rightarrow> bool" where
  "alive_step (Wrote n) = (0 < n)"
| "alive_step WriteEINTR = True"
| "alive_step (WriteEAGAIN ws) = alive_wait ws"
| "alive_step WriteError = False"
| "alive_step Stopped = False"

primrec accepted :: "write_step \<Rightarrow> nat" where
  "accepted (Wrote n) = n"
| "accepted WriteEINTR = 0"
| "accepted (WriteEAGAIN ws) = 0"
| "accepted WriteError = 0"
| "accepted Stopped = 0"

lemma alive_wait_ends:
  "alive_wait ws \<Longrightarrow> running c \<Longrightarrow> \<exists>c'. wait_until_writable ws c = Some (c', True) \<and> running c'"
proof (induction ws arbitrary: c rule: alive_wait.induct)
  case (2 wake writable stopped ws)
  then show ?case by (cases wake) (auto simp: Let_def drain_wake_pipe_def)
qed auto

lemma alive_write_returns:
  "running c \<Longrightarrow> list_all alive_step steps \<Longrightarrow> length rem \<le> sum_list (map accepted steps) \<Longrightarrow>
     \<exists>c'. write_loop steps c rem = Some (c', True)"
proof (induction steps c rem rule: write_loop.induct)
  case (3 s steps c b bs)
  show ?case
  proof (cases s)
    case (Wrote n)
    with "3.prems" have "0 < n" "length (drop n (b # bs)) \<le> sum_list (map accepted steps)" by auto
    with "3.IH"(1) [OF _ Wrote] "3.prems" Wrote show ?thesis by auto
  next
    case (WriteEAGAIN ws)
    with "3.prems" obtain c1 where c1: "wait_until_writable ws c = Some (c1, True)" "running c1"
      using alive_wait_ends [of ws c] by auto
    from "3.IH"(3) [OF _ WriteEAGAIN c1(1) refl] c1 "3.prems" WriteEAGAIN show ?thesis by auto
  qed (use "3" in auto)
qed auto

text \<open>
  C30: Writing terminates: if the device goes on accepting bytes, however few at a time and with
  whatever interruptions and full buffers in between, the write of a packet returns with success
  once as many bytes were accepted as the packet has; and once another thread clears the running
  flag, the write returns with failure at its next look at the flag.
\<close>

theorem write_packet_returns:
  assumes "pkt \<noteq> []"
  shows "(if running c \<and> list_all alive_step steps \<and> length pkt \<le> sum_list (map accepted steps)
      then \<exists>c'. write_packet steps pkt c = Some (c', True) \<and> sent c' = sent c @ pkt else True)
    \<and> write_packet (Stopped # steps) pkt c = Some (c\<lparr>running := False\<rparr>, False)"
proof
  show "write_packet (Stopped # steps) pkt c = Some (c\<lparr>running := False\<rparr>, False)"
    using assms by (cases pkt; cases steps; cases c) (auto simp: write_packet_def)
  show "if running c \<and> list_all alive_step steps \<and> length pkt \<le> sum_list (map accepted steps)
      then \<exists>c'. write_packet steps pkt c = Some (c', True) \<and> sent c' = sent c @ pkt else True"
    using alive_write_returns [of c steps pkt] write_loop_prefix [of steps c pkt _ True] assms
    by (auto simp: write_packet_def only_io_def)
qed

theorem write_packet_returns_witness:
  "\<exists>c'. write_packet [Wrote 1, WriteEAGAIN [SelectEINTR, SelectReady False True False], Wrote 1, Wrote 7] [1, 2, 3]
       ((new_client default_controller_config)\<lparr>running := True\<rparr>) = Some (c', True) \<and> sent c' = [1, 2, 3]"
proof -
  show ?thesis
    using write_packet_returns [of "[1, 2, 3]" "(new_client default_controller_config)\<lparr>running := True\<rparr>"
      "[Wrote 1, WriteEAGAIN [SelectEINTR, SelectReady False True False], Wrote 1, Wrote 7]"]
    by (simp add: new_client_def)
qed

end
