(* ===== verification/Io_Loop.thy ===== *)
theory Io_Loop
  imports Transport
begin

text \<open>
  \<open>ControllerClient::io_loop\<close> as a state machine that interleaves with the calls of other threads.
  The state is the client and the place at which the I/O thread is; one step of the I/O thread is
  a part of a pass between two such places.  Clock readings and the outcomes of system calls are
  chosen freely.  The bytes of a \<open>read\<close> are processed one by one, and each callback of a published
  sample is a step of its own.  Calls of other threads take the scheduler mutex and are single steps; they may
  happen at every place (those that overlap a write touch only the queues, which the write does
  not read, and the running flag, whose clearing is an outcome of the write).
\<close>

section \<open>Parts of a pass\<close>

definition reschedule_channel :: "time \<Rightarrow> poll_channel \<Rightarrow> poll_channel" where
  "reschedule_channel schedule_now channel =
     (if reschedule channel then channel\<lparr>reschedule := False, next_due := schedule_now\<rparr> else channel)"

definition begin_pass :: "time \<Rightarrow> client \<Rightarrow> client" where
  "begin_pass schedule_now c =
     c\<lparr>imu_channel := reschedule_channel schedule_now (imu_channel c),
       motor_channel := reschedule_channel schedule_now (motor_channel c)\<rparr>"

text \<open>\<open>std::min_element\<close> by deadline.\<close>

fun min_element :: "scheduled_request list \<Rightarrow> scheduled_request option" where
  "min_element [] = None"
| "min_element (r # rs) = Some (foldl (\<lambda>best x. if deadline x < deadline best then x else best) r rs)"

text \<open>The time that \<open>select\<close> may wait, in microseconds.\<close>

definition tighten_channel :: "time \<Rightarrow> poll_channel \<Rightarrow> int \<Rightarrow> int" where
  "tighten_channel now channel wait =
     (if interval_ms channel \<le> 0 then wait else min wait (micros_until (next_due channel) now))"

text \<open>The part of the wait that is computed under the scheduler mutex.\<close>

definition queue_wait :: "time \<Rightarrow> client \<Rightarrow> int" where
  "queue_wait now c =
     (let wait = 50000;
          wait = (case in_flight_request c of
                    None \<Rightarrow> wait | Some r \<Rightarrow> min wait (micros_until (deadline r) now));
          wait = (if armed (control_watchdog c)
                  then min wait (micros_until (wd_deadline (control_watchdog c)) now) else wait);
          wait = (if command_queue c \<noteq> [] then min wait 0 else wait);
          wait = (case min_element (request_queue c) of
                    None \<Rightarrow> wait | Some r \<Rightarrow> min wait (micros_until (deadline r) now))
      in wait)"

definition wait_time :: "time \<Rightarrow> client \<Rightarrow> int" where
  "wait_time now c =
     tighten_channel now (motor_channel c) (tighten_channel now (imu_channel c) (queue_wait now c))"

definition select_timeval :: "time \<Rightarrow> client \<Rightarrow> int \<times> int" where
  "select_timeval now c =
     (let raw = wait_time now c; bounded = (if raw > 0 then raw else 0)
      in (bounded div 1000000, bounded mod 1000000))"


section \<open>The I/O thread\<close>

text \<open>\<open>Feeding\<close>: the bytes that were read and are still to be processed.\<close>

datatype io_pc =
  LoopTop | Selecting | Reading | Feeding "(byte \<times> 64 word) list" | WatchdogPhase | CommandPhase | TimeoutPhase | SchedulePhase
| Cleanup | Finished

type_synonym system = "io_pc \<times> client"

definition stop_running :: "client \<Rightarrow> client" where
  "stop_running c = c\<lparr>running := False\<rparr>"

text \<open>What follows a write: the next place on success, \<open>running_.store(false); break\<close> on failure.\<close>

definition after_write :: "io_pc \<Rightarrow> client \<times> bool \<Rightarrow> system" where
  "after_write next r = (case r of (c, ok) \<Rightarrow> if ok then (next, c) else (Cleanup, stop_running c))"

inductive io_step :: "system \<Rightarrow> system \<Rightarrow> bool" where
  LeaveLoop: "\<not> running c \<Longrightarrow> io_step (LoopTop, c) (Cleanup, c)"
| BeginPass: "running c \<Longrightarrow> handle_request_timeout now (begin_pass schedule_now c) = (c', stop) \<Longrightarrow>
    io_step (LoopTop, c) (if stop then Cleanup else Selecting, c')"
| SelectInterrupted: "io_step (Selecting, c) (LoopTop, c)"
| SelectFailed: "io_step (Selecting, c) (Cleanup, stop_running c)"
| Selected: "c' = (if wake then drain_wake_pipe c else c) \<Longrightarrow>
    io_step (Selecting, c) (if readable then Reading else WatchdogPhase, c')"
| ReadBytes: "input \<noteq> [] \<Longrightarrow> io_step (Reading, c) (Feeding input, c)"
| FeedByte: "publishing c = [] \<Longrightarrow> feed_one x c = Some c' \<Longrightarrow>
    io_step (Feeding (x # input), c) (Feeding input, c')"
| InvokeCallback: "publishing c = before @ d # after \<Longrightarrow>
    io_step (Feeding input, c) (Feeding input, invoke_callback before d after c)"
| BytesFed: "publishing c = [] \<Longrightarrow> io_step (Feeding [], c) (Reading, c)"
| ReadNothing: "outcome \<in> {ReadEINTR, ReadEAGAIN, ReadFailed} \<Longrightarrow> read_once outcome c = Some (c', again) \<Longrightarrow>
    io_step (Reading, c) (if again then Reading else WatchdogPhase, c')"
| WatchdogQuiet: "dequeue_due_watchdog_command now c = (c', None) \<Longrightarrow>
    io_step (WatchdogPhase, c) (CommandPhase, c')"
| WatchdogFires: "dequeue_due_watchdog_command now c = (c1, Some pkt) \<Longrightarrow> write_packet steps pkt c1 = Some r \<Longrightarrow>
    io_step (WatchdogPhase, c) (after_write LoopTop r)"
| NoCommand: "dequeue_command c = (c', None) \<Longrightarrow> io_step (CommandPhase, c) (TimeoutPhase, c')"
| SendCommand: "dequeue_command c = (c1, Some pkt) \<Longrightarrow> write_packet steps pkt c1 = Some r \<Longrightarrow>
    io_step (CommandPhase, c) (after_write TimeoutPhase r)"
| CheckTimeouts: "handle_request_timeout now c = (c', stop) \<Longrightarrow>
    io_step (TimeoutPhase, c) (if stop then Cleanup else SchedulePhase, c')"
| Busy: "in_flight_request c \<noteq> None \<Longrightarrow> io_step (SchedulePhase, c) (LoopTop, c)"
| PollRefused: "in_flight_request c = None \<Longrightarrow> select_due_poll_channel after_io c = Some ch \<Longrightarrow>
    make_due_poll_request (cfg c) ch after_io = (ch', None) \<Longrightarrow>
    io_step (SchedulePhase, c) (Cleanup, stop_running (store_channel ch' c))"
| SendPoll: "in_flight_request c = None \<Longrightarrow> select_due_poll_channel after_io c = Some ch \<Longrightarrow>
    make_due_poll_request (cfg c) ch after_io = (ch', Some poll) \<Longrightarrow>
    write_packet steps (packet poll) (store_channel ch' c) = Some (c', ok) \<Longrightarrow>
    io_step (SchedulePhase, c) (if ok then (LoopTop, c'\<lparr>in_flight_request := Some poll\<rparr>) else (Cleanup, stop_running c'))"
| NoQuery: "in_flight_request c = None \<Longrightarrow> select_due_poll_channel after_io c = None \<Longrightarrow>
    dequeue_ready_query after_io c = (c', None) \<Longrightarrow> io_step (SchedulePhase, c) (LoopTop, c')"
| SendQuery: "in_flight_request c = None \<Longrightarrow> select_due_poll_channel after_io c = None \<Longrightarrow>
    dequeue_ready_query after_io c = (c1, Some query) \<Longrightarrow>
    write_packet steps (packet query) c1 = Some (c', ok) \<Longrightarrow>
    io_step (SchedulePhase, c) (if ok then (LoopTop, c'\<lparr>in_flight_request := Some query\<rparr>)
      else (Cleanup, stop_running (on_timeout query c')))"
| ClearWork: "io_step (Cleanup, c) (Finished, clear_pending_work c)"

section \<open>Other threads\<close>

text \<open>\<open>disconnect\<close> up to the join; on the I/O thread, inside a callback, that is all of it.\<close>

definition disconnect_signal :: "bool \<Rightarrow> client \<Rightarrow> client" where
  "disconnect_signal on_io_thread c =
     (if on_io_thread then c\<lparr>running := False\<rparr> else wake_io_thread (c\<lparr>running := False\<rparr>))"

inductive api_step :: "client \<Rightarrow> client \<Rightarrow> bool" where
  SetRpm: "api_step c (fst (set_rpm now r c))"
| SetDuty: "api_step c (fst (set_duty now v c))"
| SetCurrent: "api_step c (fst (set_current now v c))"
| SetBrake: "api_step c (fst (set_current_brake now v c))"
| SetServo: "api_step c (fst (set_servo_pos now v c))"
| SetAppOutput: "api_step c (fst (set_app_output_disabled now duration c))"
| Submit: "framed_command cid pkt \<Longrightarrow> api_step c (fst (submit_query io now pkt cid dl stop c))"
| SetMotorInterval: "api_step c (set_motor_poll_interval n c)"
| SetImuInterval: "api_step c (set_imu_poll_interval n c)"
| SubscribeImu: "api_step c (c\<lparr>registry := fst (subscribe_imu b (registry c))\<rparr>)"
| SubscribeMotor: "api_step c (c\<lparr>registry := fst (subscribe_motor_state b (registry c))\<rparr>)"
| Unsubscribe: "api_step c (c\<lparr>registry := snd (handle_reset h (registry c))\<rparr>)"
| Disconnect: "api_step c (disconnect_signal io c)"

inductive system_step :: "system \<Rightarrow> system \<Rightarrow> bool" where
  Io: "io_step s t \<Longrightarrow> system_step s t"
| Api: "api_step c c' \<Longrightarrow> system_step (pc, c) (pc, c')"

section \<open>The wait before a pass\<close>

lemma min_element_least:
  "min_element rs = Some m \<Longrightarrow> m \<in> set rs \<and> (\<forall>r \<in> set rs. deadline m \<le> deadline r)"
proof (cases rs)
  case (Cons x xs)
  have "foldl (\<lambda>best y. if deadline y < deadline best then y else best) x xs \<in> set (x # xs) \<and>
      (\<forall>r \<in> set (x # xs). deadline (foldl (\<lambda>best y. if deadline y < deadline best then y else best) x xs) \<le> deadline r)"
    by (induction xs rule: rev_induct) (auto simp: not_less dest: order_trans less_imp_le)
  moreover assume "min_element rs = Some m"
  ultimately show ?thesis using Cons by simp
qed simp

lemma min_element_None: "min_element rs = None \<longleftrightarrow> rs = []"
  by (cases rs) auto

lemma micros_until_nonneg [simp]: "0 \<le> micros_until dl now"
  by (simp add: micros_until_def pos_imp_zdiv_nonneg_iff)

lemma micros_until_mono: "dl \<le> dl' \<Longrightarrow> micros_until dl now \<le> micros_until dl' now"
  by (auto simp: micros_until_def zdiv_mono1)

lemma micros_until_le: "now \<le> dl \<Longrightarrow> now + 1000 * micros_until dl now \<le> dl"
  by (auto simp: micros_until_def)

lemma queue_wait_bounds:
  "queue_wait now c \<le> 50000" "0 \<le> queue_wait now c"
  "in_flight_request c = Some r \<Longrightarrow> queue_wait now c \<le> micros_until (deadline r) now"
  "armed (control_watchdog c) \<Longrightarrow> queue_wait now c \<le> micros_until (wd_deadline (control_watchdog c)) now"
  "command_queue c \<noteq> [] \<Longrightarrow> queue_wait now c = 0"
  "min_element (request_queue c) = Some m \<Longrightarrow> queue_wait now c \<le> micros_until (deadline m) now"
  by (simp_all add: queue_wait_def Let_def min.coboundedI1 min.coboundedI2 split: option.split)

lemma tighten_channel_bounds:
  "tighten_channel now ch w \<le> w" "0 \<le> w \<Longrightarrow> 0 \<le> tighten_channel now ch w"
  "0 < interval_ms ch \<Longrightarrow> tighten_channel now ch w \<le> micros_until (next_due ch) now"
  by (simp_all add: tighten_channel_def)

lemma wait_time_le_queue: "wait_time now c \<le> queue_wait now c"
  unfolding wait_time_def by (meson order_trans tighten_channel_bounds(1))

lemma wait_time_nonneg: "0 \<le> wait_time now c"
  by (simp add: wait_time_def tighten_channel_bounds(2) queue_wait_bounds(2))

lemma wait_time_channel:
  "ch \<in> {imu_channel c, motor_channel c} \<Longrightarrow> 0 < interval_ms ch \<Longrightarrow> wait_time now c \<le> micros_until (next_due ch) now"
  unfolding wait_time_def
  by (auto intro: tighten_channel_bounds(3) order_trans [OF tighten_channel_bounds(1) tighten_channel_bounds(3)])

lemma wait_time_request:
  assumes "r \<in> set (request_queue c)"
  shows "wait_time now c \<le> micros_until (deadline r) now"
proof -
  obtain m where m: "min_element (request_queue c) = Some m"
    using assms min_element_None by (cases "min_element (request_queue c)") auto
  then have "micros_until (deadline m) now \<le> micros_until (deadline r) now"
    using min_element_least assms micros_until_mono by blast
  moreover have "wait_time now c \<le> micros_until (deadline m) now"
    using wait_time_le_queue queue_wait_bounds(6) [OF m] by (rule order_trans)
  ultimately show ?thesis by simp
qed

text \<open>Everything that the I/O thread has to do at a time of its own: the deadlines of the requests in
  flight and queued and of the armed watchdog, and the due times of the enabled poll channels.\<close>

definition obligations :: "client \<Rightarrow> time set" where
  "obligations c =
     deadline ` set (outstanding c)
     \<union> (if armed (control_watchdog c) then {wd_deadline (control_watchdog c)} else {})
     \<union> next_due ` {ch \<in> {imu_channel c, motor_channel c}. 0 < interval_ms ch}"

definition wait_bounds :: "time \<Rightarrow> client \<Rightarrow> int set" where
  "wait_bounds now c =
     insert 50000 ((if command_queue c \<noteq> [] then {0} else {}) \<union> (\<lambda>t. micros_until t now) ` obligations c)"

lemma obligations_finite [simp]: "finite (obligations c)"
  by (simp add: obligations_def)

lemma wait_bounds_finite [simp]: "finite (wait_bounds now c)"
  by (simp add: wait_bounds_def)

lemma wait_time_command: "command_queue c \<noteq> [] \<Longrightarrow> wait_time now c = 0"
  using queue_wait_bounds(5) [of c now] wait_time_le_queue [of now c] wait_time_nonneg [of now c] by simp

lemma wait_time_obligation: "t \<in> obligations c \<Longrightarrow> wait_time now c \<le> micros_until t now"
  using order_trans [OF wait_time_le_queue queue_wait_bounds(3)]
    order_trans [OF wait_time_le_queue queue_wait_bounds(4)] wait_time_request wait_time_channel
  by (auto simp: obligations_def outstanding_def in_flight_list_def split: option.splits if_splits)

lemma min_mem: "a \<in> S \<Longrightarrow> b \<in> S \<Longrightarrow> min a b \<in> S" for a b :: "'a::linorder"
  by (simp add: min_def)

lemma wait_bounds_mem:
  "50000 \<in> wait_bounds now c" "command_queue c \<noteq> [] \<Longrightarrow> 0 \<in> wait_bounds now c"
  "in_flight_request c = Some r \<Longrightarrow> micros_until (deadline r) now \<in> wait_bounds now c"
  "armed (control_watchdog c) \<Longrightarrow> micros_until (wd_deadline (control_watchdog c)) now \<in> wait_bounds now c"
  "min_element (request_queue c) = Some m \<Longrightarrow> micros_until (deadline m) now \<in> wait_bounds now c"
  "ch \<in> {imu_channel c, motor_channel c} \<Longrightarrow> 0 < interval_ms ch \<Longrightarrow> micros_until (next_due ch) now \<in> wait_bounds now c"
  using min_element_least [of "request_queue c" m]
  by (auto simp: wait_bounds_def obligations_def outstanding_def in_flight_list_def)

lemma queue_wait_mem: "queue_wait now c \<in> wait_bounds now c"
  by (auto simp: queue_wait_def Let_def split: option.split intro!: min_mem intro: wait_bounds_mem)

lemma tighten_mem:
  "w \<in> wait_bounds now c \<Longrightarrow> ch \<in> {imu_channel c, motor_channel c} \<Longrightarrow> tighten_channel now ch w \<in> wait_bounds now c"
  by (simp add: tighten_channel_def min_mem wait_bounds_mem(6))

lemma wait_time_Min: "wait_time now c = Min (wait_bounds now c)"
proof (rule Min_eqI [symmetric])
  show "wait_time now c \<in> wait_bounds now c"
    unfolding wait_time_def by (intro tighten_mem queue_wait_mem) simp_all
  have "wait_time now c \<le> 50000" using wait_time_le_queue queue_wait_bounds(1) by (rule order_trans)
  then show "wait_time now c \<le> y" if "y \<in> wait_bounds now c" for y
    using that wait_time_command [of c now] wait_time_obligation [of _ c now]
    by (auto simp: wait_bounds_def split: if_splits)
qed simp

lemma wait_time_capped: "wait_time now c \<le> 50000"
  using wait_time_le_queue queue_wait_bounds(1) by (rule order_trans)

text \<open>
  C31: The I/O thread sleeps exactly as long as it may.  The time handed to \<open>select\<close> is the least of
  50 milliseconds, zero if a command is queued, and the whole microseconds that are left until each
  of its obligations: the deadlines of the request in flight, of every queued request and of the
  armed watchdog, and the due times of the enabled poll channels.  So it is zero when any of these
  is overdue and 50 milliseconds when there are none; it never sleeps past one of them; and a
  shorter sleep than 50 milliseconds ends less than a microsecond before one of them, unless a
  command or something overdue is waiting.
\<close>

theorem select_wait_bounds:
  "select_timeval now c = (0, Min (wait_bounds now c))
    \<and> 0 \<le> Min (wait_bounds now c) \<and> Min (wait_bounds now c) \<le> 50000
    \<and> (\<forall>t \<in> obligations c. if t \<le> now then Min (wait_bounds now c) = 0 else now + 1000 * Min (wait_bounds now c) \<le> t)
    \<and> (if command_queue c \<noteq> [] then Min (wait_bounds now c) = 0
        else Min (wait_bounds now c) = 50000
          \<or> (\<exists>t \<in> obligations c. if t \<le> now then Min (wait_bounds now c) = 0 else t < now + 1000 * (Min (wait_bounds now c) + 1)))"
proof -
  have range: "0 \<le> wait_time now c" "wait_time now c \<le> 50000" by (rule wait_time_nonneg wait_time_capped)+
  have past: "if t \<le> now then wait_time now c = 0 else now + 1000 * wait_time now c \<le> t" if "t \<in> obligations c" for t
    using wait_time_obligation [OF that, of now] range(1) micros_until_le [of now t]
    by (auto simp: micros_until_def split: if_splits)
  have "wait_time now c = 50000
      \<or> (\<exists>t \<in> obligations c. if t \<le> now then wait_time now c = 0 else t < now + 1000 * (wait_time now c + 1))"
    if "command_queue c = []"
  proof -
    have "wait_time now c \<in> wait_bounds now c" unfolding wait_time_Min by (rule Min_in) (simp_all add: wait_bounds_def)
    with that consider "wait_time now c = 50000" | t where "t \<in> obligations c" "wait_time now c = micros_until t now"
      by (auto simp: wait_bounds_def)
    then show ?thesis
    proof cases
      case (2 t)
      then have "if t \<le> now then wait_time now c = 0 else t < now + 1000 * (wait_time now c + 1)"
        by (auto simp: micros_until_def)
      with 2(1) show ?thesis by blast
    qed simp
  qed
  with range past wait_time_command [of c now] show ?thesis
    unfolding wait_time_Min [symmetric] by (simp add: select_timeval_def Let_def)
qed

theorem select_wait_bounds_witness:
  "snd (select_timeval 9 request_example) = 0 \<and> 1 + 1000 * snd (select_timeval 1 request_example) \<le> 5"
proof -
  have "5 \<in> obligations request_example"
    by (simp add: request_example_def submit_query_def new_client_def outstanding_def obligations_def Let_def)
  with select_wait_bounds [of 9 request_example] select_wait_bounds [of 1 request_example] show ?thesis by fastforce
qed

end
