(* ===== verification/Io_Invariant.thy ===== *)
theory Io_Invariant
  imports Io_Loop
begin

text \<open>
  The invariant of the interleaved system: every step of the I/O thread and of every other thread
  keeps the queues, the parser, the registry and the watchdog well formed, keeps every waiting
  caller owned by exactly one request, and sends whole frames only.
\<close>

section \<open>The invariant of the client\<close>

definition whole_frame :: "bytes \<Rightarrow> bool" where
  "whole_frame pkt \<longleftrightarrow> (\<exists>p. frameable p \<and> pkt = frame p)"

definition client_ok :: "client \<Rightarrow> bool" where
  "client_ok c \<longleftrightarrow>
     requests_ok c \<and> queue_ok (command_queue c) \<and> channels_ok c \<and> waiting (parser c) \<and>
     wf_registry (registry c) \<and>
     (armed (control_watchdog c) \<longrightarrow> control_watchdog_enabled (cfg c)) \<and>
     (\<forall>p \<in> set (command_queue c). whole_frame p) \<and>
     (\<forall>r \<in> set (request_queue c). whole_frame (packet r))"

lemma whole_frameI: "frameable p \<Longrightarrow> whole_frame (frame p)"
  by (auto simp: whole_frame_def)

lemma framed_whole: "framed_command cid pkt \<Longrightarrow> pkt \<noteq> [] \<Longrightarrow> whole_frame pkt"
  by (auto simp: framed_command_def whole_frame_def)

lemma whole_frame_ok: "whole_frame pkt \<Longrightarrow> packet_ok pkt"
  by (auto simp: whole_frame_def packet_ok_def length_frame)

lemma whole_frame_nonempty: "whole_frame pkt \<Longrightarrow> pkt \<noteq> []"
  by (auto simp: whole_frame_def frame_empty_iff)

text \<open>A client that agrees in all fields the invariant reads.\<close>

lemma client_ok_cong:
  assumes "request_queue c' = request_queue c" "in_flight_request c' = in_flight_request c" "queries c' = queries c"
    "command_queue c' = command_queue c" "imu_channel c' = imu_channel c" "motor_channel c' = motor_channel c"
    "parser c' = parser c" "registry c' = registry c" "control_watchdog c' = control_watchdog c" "cfg c' = cfg c"
  shows "client_ok c' = client_ok c"
  using assms requests_ok_cong [OF assms(1-3)] by (simp add: client_ok_def channels_ok_def)

lemma client_ok_flags [simp]:
  "client_ok (c\<lparr>running := b\<rparr>) = client_ok c" "client_ok (stop_running c) = client_ok c"
  "client_ok (drain_wake_pipe c) = client_ok c" "client_ok (wake_io_thread c) = client_ok c"
  "client_ok (c\<lparr>wake_pending := b\<rparr>) = client_ok c"
  by (rule client_ok_cong; simp add: stop_running_def drain_wake_pipe_def)+

lemma client_ok_io: "only_io c out c' \<Longrightarrow> client_ok c' = client_ok c"
  by (rule client_ok_cong) (auto simp: only_io_def)

lemma client_ok_new: "client_ok (new_client config)"
  by (simp add: client_ok_def requests_ok_new)
    (simp add: new_client_def queue_ok_def channels_ok_def wf_registry_def default_watchdog_def)

section \<open>Calls of other threads\<close>

lemma client_ok_enqueue:
  assumes "client_ok c" "framed_command cid pkt"
  shows "client_ok (fst (enqueue_command now pkt refresh c))"
proof (cases "running c \<and> packet_ok pkt")
  case True
  then have "pkt \<noteq> []" by (auto simp: packet_ok_def)
  then have pkt: "whole_frame pkt" by (rule framed_whole [OF assms(2)])
  have q: "command_queue (fst (enqueue_command now pkt refresh c)) = coalesce pkt (command_queue c)"
    using enqueue_command_queue True by blast
  have "queue_ok (coalesce pkt (command_queue c))"
    using assms(1) True by (simp add: client_ok_def queue_ok_coalesce)
  moreover have "\<forall>p \<in> set (coalesce pkt (command_queue c)). whole_frame p"
    using assms(1) pkt by (auto simp: client_ok_def coalesce_def Let_def)
  ultimately show ?thesis
    using assms(1) requests_ok_enqueue [of c now pkt refresh] True unfolding client_ok_def q
    by (auto simp: enqueue_command_def Let_def packet_ok_def channels_ok_def)
next
  case False
  then show ?thesis using assms(1) by (simp add: enqueue_refused)
qed

lemma client_ok_submit:
  assumes "client_ok c" "framed_command cid pkt"
  shows "client_ok (fst (submit_query io now pkt cid dl stop c))"
  using assms requests_ok_submit [of c io now pkt cid dl stop] framed_whole [OF assms(2)]
  by (auto simp: client_ok_def submit_query_def Let_def channels_ok_def)

lemma requests_ok_registry: "requests_ok (c\<lparr>registry := r\<rparr>) = requests_ok c"
  by (rule requests_ok_cong) simp_all

lemma client_ok_registry: "client_ok c \<Longrightarrow> wf_registry r \<Longrightarrow> client_ok (c\<lparr>registry := r\<rparr>)"
  by (simp add: client_ok_def requests_ok_registry channels_ok_def)

lemma client_ok_wf: "client_ok c \<Longrightarrow> wf_registry (registry c)"
  by (simp add: client_ok_def)

lemma requests_ok_channels:
  "requests_ok (c\<lparr>imu_channel := ch\<rparr>) = requests_ok c" "requests_ok (c\<lparr>motor_channel := ch\<rparr>) = requests_ok c"
  "requests_ok (c\<lparr>imu_channel := ch, motor_channel := ch'\<rparr>) = requests_ok c"
  by (rule requests_ok_cong; simp)+

lemma client_ok_intervals:
  "client_ok c \<Longrightarrow> client_ok (set_motor_poll_interval n c)" "client_ok c \<Longrightarrow> client_ok (set_imu_poll_interval n c)"
  by (auto simp: set_motor_poll_interval_def set_imu_poll_interval_def Let_def)
    (auto simp: client_ok_def requests_ok_channels channels_ok_def)

lemma client_ok_api: "api_step c c' \<Longrightarrow> client_ok c \<Longrightarrow> client_ok c'"
proof (induction rule: api_step.induct)
  case (SetRpm c now r)
  then show ?case
    by (auto simp: set_rpm_def enqueue_control_command_def build_set_rpm_command_def append_be
        intro!: client_ok_enqueue [of _ SetRpm] framed_frame simp del: id_byte.simps)
next
  case (SetBrake c now v)
  then show ?case
    by (simp add: set_current_brake_def enqueue_control_command_def Let_def client_ok_enqueue [OF _ brake.framed])
next
  case (SetAppOutput c now duration)
  then show ?case
    by (auto simp: set_app_output_disabled_def build_app_disable_output_command_def append_be
        intro!: client_ok_enqueue [of _ AppDisableOutput] framed_frame simp del: id_byte.simps)
next
  case (Unsubscribe c h)
  then show ?case
    by (cases h) (auto simp: handle_reset_def intro!: client_ok_registry wf_unsubscribe client_ok_wf)
qed (simp_all add: set_duty_def set_current_def set_servo_pos_def enqueue_control_command_def
    client_ok_enqueue [OF _ duty.framed] client_ok_enqueue [OF _ current.framed] client_ok_enqueue [OF _ servo.framed]
    client_ok_submit client_ok_intervals client_ok_registry wf_subscribe disconnect_signal_def
    client_ok_wf)

section \<open>Steps of the I/O thread\<close>

lemma requests_ok_frame:
  "requests_ok (c\<lparr>command_queue := q\<rparr>) = requests_ok c"
  "requests_ok (c\<lparr>control_watchdog := w\<rparr>) = requests_ok c"
  "requests_ok (c\<lparr>parser := b\<rparr>) = requests_ok c"
  by (rule requests_ok_cong; simp)+

lemma channels_ok_frame:
  "imu_channel c' = imu_channel c \<Longrightarrow> motor_channel c' = motor_channel c \<Longrightarrow> channels_ok c' = channels_ok c"
  by (simp add: channels_ok_def)

lemma client_ok_begin_pass: "client_ok c \<Longrightarrow> client_ok (begin_pass now c)"
  by (auto simp: client_ok_def begin_pass_def requests_ok_channels channels_ok_def reschedule_channel_def)

lemma client_ok_timeout: "client_ok c \<Longrightarrow> client_ok (fst (handle_request_timeout now c))"
  using requests_ok_timeout [of c now]
  by (auto simp: client_ok_def timeout_request_queue)
    (auto simp: handle_request_timeout_eq Let_def channels_ok_def)

lemma client_ok_watchdog: "client_ok c \<Longrightarrow> client_ok (fst (dequeue_due_watchdog_command now c))"
  by (auto simp: dequeue_due_watchdog_command_def client_ok_def requests_ok_frame channels_ok_def
      queue_ok_def default_watchdog_def)

lemma client_ok_dequeue_command: "client_ok c \<Longrightarrow> client_ok (fst (dequeue_command c))"
  by (cases "command_queue c")
    (auto simp: dequeue_command_def client_ok_def requests_ok_frame channels_ok_def queue_ok_def)

lemma client_ok_clear: "client_ok c \<Longrightarrow> client_ok (clear_pending_work c)"
  using requests_ok_clear [of c]
  by (auto simp: client_ok_def)
    (auto simp: clear_pending_work_eq channels_ok_def queue_ok_def default_watchdog_def)

lemma client_ok_dispatch:
  assumes "client_ok c" "dispatch_payload p stamp c = Some c'"
  shows "client_ok c'"
proof (cases "answered p c")
  case None
  then have "in_flight_request c = None \<or> p = [] \<or> (\<exists>r. in_flight_request c = Some r \<and> expected_id r \<noteq> p ! 0)"
    by (auto simp: answered_def split: option.splits if_splits)
  from dispatch_ignored [OF this, of stamp] assms show ?thesis by simp
next
  case (Some r)
  then have r: "in_flight_request c = Some r" "p \<noteq> []" "expected_id r = p ! 0"
    by (auto simp: answered_def split: option.splits if_splits)
  have "requests_ok c'" using requests_ok_dispatch [of c p stamp] assms by (auto simp: client_ok_def)
  with dispatch_payload_eq [OF r, of stamp] assms show ?thesis by (auto simp: client_ok_def channels_ok_def)
qed

lemma client_ok_feed_one:
  assumes "client_ok c"
  shows "\<exists>c'. feed_one x c = Some c' \<and> client_ok c' \<and> running c' = running c \<and> sent c' = sent c"
proof -
  obtain b stamp where x: "x = (b, stamp)" by (cases x)
  obtain buf d where fb: "feed_byte (parser c) b = Some (buf, d)" "waiting buf"
    using feed_byte_total [of "parser c" b] assms by (auto simp: client_ok_def)
  let ?c = "c\<lparr>parser := buf\<rparr>"
  have ok: "client_ok ?c" using assms fb(2) by (simp add: client_ok_def requests_ok_frame channels_ok_def)
  show ?thesis
  proof (cases d)
    case (Some p)
    obtain c1 where c1: "dispatch_payload p stamp ?c = Some c1"
      using requests_ok_dispatch [of ?c p stamp] ok by (auto simp: client_ok_def)
    have "running c1 = running ?c \<and> sent c1 = sent ?c"
      using dispatch_ignored [of ?c p stamp] dispatch_payload_eq [of ?c _ p stamp] c1
      by (cases "answered p ?c") (auto simp: answered_def split: option.splits if_splits)
    with client_ok_dispatch [OF ok c1] c1 Some show ?thesis by (simp add: x fb(1) Let_def)
  qed (use ok in \<open>simp add: x fb(1) Let_def\<close>)
qed

lemma client_ok_calls [simp]:
  "client_ok (finish_publishing c) = client_ok c" "client_ok (invoke_callback before d after c) = client_ok c"
  by (rule client_ok_cong; simp add: finish_publishing_def invoke_callback_def)+

lemma calls_frame [simp]:
  "running (finish_publishing c) = running c" "sent (finish_publishing c) = sent c"
  "running (invoke_callback before d after c) = running c" "sent (invoke_callback before d after c) = sent c"
  by (simp_all add: finish_publishing_def invoke_callback_def)

lemma client_ok_feed_input:
  "client_ok c \<Longrightarrow> \<exists>c'. feed_input input c = Some c' \<and> client_ok c'
     \<and> running c' = running c \<and> sent c' = sent c"
proof (induction input arbitrary: c)
  case (Cons x input)
  obtain c1 where c1: "feed_one x c = Some c1" "client_ok c1" "running c1 = running c" "sent c1 = sent c"
    using client_ok_feed_one [OF Cons.prems] by blast
  with Cons.IH [of "finish_publishing c1"] show ?case by (simp del: feed_one.simps)
qed simp

lemma client_ok_read:
  assumes "client_ok c"
  shows "\<exists>c' again. read_once outcome c = Some (c', again) \<and> client_ok c' \<and> sent c' = sent c \<and> (running c' \<longrightarrow> running c)"
proof (cases outcome)
  case (ReadData input)
  with client_ok_feed_input [OF assms, of input] show ?thesis by (auto simp: read_once_def)
qed (use assms in \<open>auto simp: read_once_def\<close>)

section \<open>Requests that are written\<close>

lemma write_packet_io:
  assumes "write_packet steps pkt c = Some (c', ok)"
  obtains n where "n \<le> length pkt" "only_io c (take n pkt) c'" "ok \<longleftrightarrow> pkt \<noteq> [] \<and> n = length pkt"
proof -
  have "\<exists>n \<le> length pkt. only_io c (take n pkt) c' \<and> (ok \<longleftrightarrow> pkt \<noteq> [] \<and> n = length pkt)"
    using assms write_loop_prefix [of steps c pkt c' ok] by (cases "pkt = []") (auto simp: write_packet_def)
  then show thesis using that by blast
qed

lemma poll_request:
  assumes "channels_ok c" "select_due_poll_channel now c = Some ch"
  obtains r where "make_due_poll_request (cfg c) ch now = (ch\<lparr>next_due := now + ms (interval_ms ch)\<rparr>, Some r)"
    "query_ref r = None" "request_kind r \<noteq> Query" "whole_frame (packet r)"
proof -
  have ch: "0 < interval_ms ch" "next_due ch \<le> now"
    using assms by (auto simp: select_due_eq due_def split: if_splits)
  have "whole_frame build_get_imu_data_request" "whole_frame build_get_values_request"
    by (simp_all add: request_defs append_be whole_frameI frameable_def)
  then show thesis
    using ch that by (cases "channel_kind ch = Imu") (simp_all add: make_due_poll_request_def Let_def)
qed

lemma client_ok_store_channel:
  assumes "client_ok c" "select_due_poll_channel now c = Some ch"
  shows "client_ok (store_channel (ch\<lparr>next_due := t\<rparr>) c)"
  using assms
  by (auto simp: client_ok_def select_due_eq channels_ok_def store_channel_def requests_ok_channels
      split: if_splits)

lemma client_ok_poll_in_flight:
  assumes "client_ok c" "in_flight_request c = None" "query_ref r = None" "request_kind r \<noteq> Query"
  shows "client_ok (c\<lparr>in_flight_request := Some r\<rparr>)"
  using assms by (simp add: client_ok_def requests_ok_def owned_def outstanding_def in_flight_list_def channels_ok_def)

text \<open>The client once a ready query is taken from the queue: the query is held, or put in flight, or
  given up.\<close>

lemma client_ok_query:
  assumes ok: "client_ok c" and idle: "in_flight_request c = None"
    and dq: "dequeue_ready_query now c = (c1, Some r)"
    and io: "only_io c1 out c2"
  shows "whole_frame (packet r)" "client_ok (c2\<lparr>in_flight_request := Some r\<rparr>)" "client_ok (on_timeout r c2)"
proof -
  have req: "requests_ok c" using ok by (simp add: client_ok_def)
  note dequeue = owned_dequeue_ready_query [OF req dq, simplified]
  have r: "r \<in> set (request_queue c)" using dequeue(5) by simp
  then show "whole_frame (packet r)" using ok by (simp add: client_ok_def)
  have kind: "query_ref r = None \<longleftrightarrow> request_kind r \<noteq> Query"
    using r req by (auto simp: requests_ok_def)
  have queue: "\<forall>r \<in> set (request_queue c1). request_kind r = Query \<and> query_ref r \<noteq> None \<and> packet r \<noteq> []"
    using dequeue(2) req by (auto simp: requests_ok_def)
  have frames: "\<forall>r \<in> set (request_queue c1). whole_frame (packet r)"
    using dequeue(2) ok by (auto simp: client_ok_def)
  have same: "command_queue c1 = command_queue c" "imu_channel c1 = imu_channel c" "motor_channel c1 = motor_channel c"
    "parser c1 = parser c" "registry c1 = registry c" "control_watchdog c1 = control_watchdog c" "cfg c1 = cfg c"
    using dq by (auto simp: dequeue_ready_query_eq Let_def split: if_splits)
  have own: "owned [r] c1" "in_flight_request c1 = None" using dequeue(1,3) idle by simp_all
  note parts = requests_ok_in_flight [OF own kind queue dequeue(4)]
  have "client_ok (c1\<lparr>in_flight_request := Some r\<rparr>)" "client_ok (on_timeout r c1)"
    using ok parts frames same by (simp_all add: client_ok_def channels_ok_def on_timeout_mark)
  moreover obtain rn wp where c2: "c2 = c1\<lparr>running := rn, wake_pending := wp, sent := sent c1 @ out\<rparr>"
    using io by (auto simp: only_io_def)
  moreover have "client_ok (c2\<lparr>in_flight_request := Some r\<rparr>) = client_ok (c1\<lparr>in_flight_request := Some r\<rparr>)"
    "client_ok (on_timeout r c2) = client_ok (on_timeout r c1)"
    by (rule client_ok_cong; simp add: c2 on_timeout_mark)+
  ultimately show "client_ok (c2\<lparr>in_flight_request := Some r\<rparr>)" "client_ok (on_timeout r c2)" by simp_all
qed

section \<open>The invariant of the system\<close>

text \<open>The bytes sent so far: whole frames, and at the end of a connection perhaps a part of one.\<close>

definition sent_ok :: "system \<Rightarrow> bool" where
  "sent_ok s \<longleftrightarrow>
     (\<exists>ps p n. (\<forall>q \<in> set (p # ps). frameable q) \<and> sent (snd s) = concat (map frame ps) @ take n (frame p)
        \<and> (fst s \<notin> {Cleanup, Finished} \<longrightarrow> n = 0))"

definition system_ok :: "system \<Rightarrow> bool" where
  "system_ok s \<longleftrightarrow>
     client_ok (snd s) \<and> sent_ok s \<and>
     (fst s \<in> {Cleanup, Finished} \<longrightarrow> \<not> running (snd s)) \<and>
     (fst s = Finished \<longrightarrow> outstanding (snd s) = [] \<and> command_queue (snd s) = [])"

lemma sent_ok_same:
  "sent_ok (pc, c) \<Longrightarrow> sent c' = sent c \<Longrightarrow> pc' \<in> {Cleanup, Finished} \<or> pc \<notin> {Cleanup, Finished} \<Longrightarrow> sent_ok (pc', c')"
  unfolding sent_ok_def fst_conv snd_conv by metis

lemma sent_ok_write:
  assumes "sent_ok (pc, c)" "pc \<notin> {Cleanup, Finished}" "whole_frame pkt" "sent c' = sent c @ take n pkt"
    and "n = length pkt \<or> pc' \<in> {Cleanup, Finished}"
  shows "sent_ok (pc', c')"
proof -
  obtain ps p where ps: "\<forall>q \<in> set (p # ps). frameable q" "sent c = concat (map frame ps)"
    using assms(1,2) by (auto simp: sent_ok_def)
  obtain q where q: "frameable q" "pkt = frame q" using assms(3) by (auto simp: whole_frame_def)
  show ?thesis
  proof (cases "n = length pkt")
    case True
    then show ?thesis
      unfolding sent_ok_def using ps q assms(4)
      by (intro exI [of _ "ps @ [q]"] exI [of _ q] exI [of _ 0]) auto
  next
    case False
    with assms(5) show ?thesis
      unfolding sent_ok_def using ps q assms(4)
      by (intro exI [of _ ps] exI [of _ q] exI [of _ n]) auto
  qed
qed

lemma only_io_facts: "only_io c out c' \<Longrightarrow> sent c' = sent c @ out \<and> (running c' \<longrightarrow> running c)
    \<and> in_flight_request c' = in_flight_request c"
  by (auto simp: only_io_def)

text \<open>A write that is followed by the next place or by the end of the loop.\<close>

lemma system_ok_after_write:
  assumes "client_ok c" "sent_ok (pc, c)" "pc \<notin> {Cleanup, Finished}" "next \<notin> {Cleanup, Finished}"
    and "whole_frame pkt \<or> pkt = []" "write_packet steps pkt c = Some (c', ok)"
  shows "system_ok (after_write next (c', ok))"
proof -
  obtain n where n: "n \<le> length pkt" "only_io c (take n pkt) c'" "ok \<longleftrightarrow> pkt \<noteq> [] \<and> n = length pkt"
    using assms(6) by (rule write_packet_io)
  note io = only_io_facts [OF n(2)]
  have ok': "client_ok c'" using client_ok_io [OF n(2)] assms(1) by simp
  have sent: "sent_ok (if ok then next else Cleanup, c')"
  proof (cases "pkt = []")
    case True
    with sent_ok_same [OF assms(2), of c'] io n(3) show ?thesis by simp
  next
    case False
    with assms(5) have "whole_frame pkt" by simp
    then show ?thesis
    proof (rule sent_ok_write [OF assms(2,3)])
      show "sent c' = sent c @ take n pkt" using io by blast
      show "n = length pkt \<or> (if ok then next else Cleanup) \<in> {Cleanup, Finished}" using n(3) False by simp
    qed
  qed
  show ?thesis
  proof (cases ok)
    case True
    with ok' sent assms(4) show ?thesis by (simp add: after_write_def system_ok_def)
  next
    case False
    with sent have "sent_ok (Cleanup, c')" by simp
    then have "sent_ok (Cleanup, stop_running c')" by (rule sent_ok_same) (simp_all add: stop_running_def)
    with ok' False show ?thesis by (simp add: after_write_def system_ok_def stop_running_def)
  qed
qed

lemma system_ok_poll:
  assumes ok: "system_ok (SchedulePhase, c)" and idle: "in_flight_request c = None"
    and sel: "select_due_poll_channel now c = Some ch"
    and mk: "make_due_poll_request (cfg c) ch now = (ch', Some poll)"
    and wr: "write_packet steps (packet poll) (store_channel ch' c) = Some (c', done)"
  shows "system_ok (if done then (LoopTop, c'\<lparr>in_flight_request := Some poll\<rparr>) else (Cleanup, stop_running c'))"
proof -
  have c: "client_ok c" "channels_ok c" "sent_ok (SchedulePhase, c)"
    using ok by (simp_all add: system_ok_def client_ok_def)
  from poll_request [OF c(2) sel] mk obtain t where p: "ch' = ch\<lparr>next_due := t\<rparr>" "query_ref poll = None"
    "request_kind poll \<noteq> Query" "whole_frame (packet poll)" by (metis Pair_inject option.inject)
  let ?c = "store_channel ch' c"
  have s: "sent ?c = sent c" "in_flight_request ?c = None"
    using idle by (simp_all add: store_channel_def split: poll_kind.split)
  have c1: "client_ok ?c" unfolding p(1) by (rule client_ok_store_channel [OF c(1) sel])
  have sent1: "sent_ok (SchedulePhase, ?c)" using sent_ok_same [OF c(3) s(1)] by simp
  have "system_ok (after_write LoopTop (c', done))"
    by (rule system_ok_after_write [OF c1 sent1 _ _ _ wr]) (simp_all add: p(4))
  moreover obtain n where "only_io ?c (take n (packet poll)) c'" using wr by (rule write_packet_io)
  then have "in_flight_request c' = None" using only_io_facts s(2) by fastforce
  ultimately show ?thesis
    using client_ok_poll_in_flight [of c' poll] p(2,3) sent_ok_same [of LoopTop c' "c'\<lparr>in_flight_request := Some poll\<rparr>" LoopTop]
    by (auto simp: after_write_def system_ok_def split: if_splits)
qed

lemma system_ok_query:
  assumes ok: "system_ok (SchedulePhase, c)" and idle: "in_flight_request c = None"
    and dq: "dequeue_ready_query now c = (c1, Some query)"
    and wr: "write_packet steps (packet query) c1 = Some (c', done)"
  shows "system_ok (if done then (LoopTop, c'\<lparr>in_flight_request := Some query\<rparr>)
      else (Cleanup, stop_running (on_timeout query c')))"
proof -
  have c: "client_ok c" "sent_ok (SchedulePhase, c)" using ok by (simp_all add: system_ok_def)
  obtain n where n: "n \<le> length (packet query)" "only_io c1 (take n (packet query)) c'"
    "done \<longleftrightarrow> packet query \<noteq> [] \<and> n = length (packet query)" using wr by (rule write_packet_io)
  note q = client_ok_query [OF c(1) idle dq n(2)]
  have "sent c1 = sent c" using dq by (auto simp: dequeue_ready_query_eq Let_def split: if_splits)
  then have "sent_ok (SchedulePhase, c1)" using sent_ok_same [OF c(2)] by simp
  then have sent: "sent_ok (if done then LoopTop else Cleanup, c')"
  proof (rule sent_ok_write [OF _ _ q(1)])
    show "sent c' = sent c1 @ take n (packet query)" using only_io_facts [OF n(2)] by blast
    show "n = length (packet query) \<or> (if done then LoopTop else Cleanup) \<in> {Cleanup, Finished}"
      using n(3) whole_frame_nonempty [OF q(1)] by simp
  qed simp
  show ?thesis
  proof (cases "done")
    case True
    with q(2) sent sent_ok_same [of LoopTop c' "c'\<lparr>in_flight_request := Some query\<rparr>" LoopTop] show ?thesis
      by (simp add: system_ok_def)
  next
    case False
    with sent sent_ok_same [of Cleanup c' "stop_running (on_timeout query c')" Cleanup]
    have "sent_ok (Cleanup, stop_running (on_timeout query c'))" by (simp add: stop_running_def on_timeout_mark)
    with q(3) False show ?thesis by (simp add: system_ok_def stop_running_def)
  qed
qed

lemma dequeued_watchdog_packet:
  "dequeue_due_watchdog_command now c = (c', Some pkt) \<Longrightarrow> whole_frame pkt \<or> pkt = []"
  using framed_whole [OF current.framed] framed_whole [OF brake.framed]
  by (auto simp: dequeue_due_watchdog_command_def split: if_splits control_watchdog_action.splits)

lemma dequeued_command_packet:
  "client_ok c \<Longrightarrow> dequeue_command c = (c', Some pkt) \<Longrightarrow> whole_frame pkt"
  by (cases "command_queue c") (auto simp: dequeue_command_def client_ok_def)

lemma dequeue_sent:
  "sent (fst (dequeue_due_watchdog_command now c)) = sent c" "sent (fst (dequeue_command c)) = sent c"
  "running (fst (dequeue_due_watchdog_command now c)) = running c" "running (fst (dequeue_command c)) = running c"
  "sent (fst (dequeue_ready_query now c)) = sent c"
  by (auto simp: dequeue_due_watchdog_command_def dequeue_command_def dequeue_ready_query_eq Let_def split: option.split)

lemma timeout_sent:
  "sent (fst (handle_request_timeout now c)) = sent c"
  "snd (handle_request_timeout now c) \<Longrightarrow> \<not> running (fst (handle_request_timeout now c))"
  by (auto simp: handle_request_timeout_eq Let_def)

text \<open>A step that writes nothing.\<close>

lemma system_ok_quiet:
  assumes "system_ok (pc, c)" "pc \<notin> {Cleanup, Finished}" "client_ok c'" "sent c' = sent c"
    and "pc' \<noteq> Finished" "pc' = Cleanup \<longrightarrow> \<not> running c'"
  shows "system_ok (pc', c')"
proof -
  have "sent_ok (pc, c)" using assms(1) by (simp add: system_ok_def)
  then have "sent_ok (pc', c')" by (rule sent_ok_same [OF _ assms(4)]) (use assms(2) in simp)
  with assms show ?thesis by (simp add: system_ok_def)
qed

lemma client_ok_no_query:
  assumes "client_ok c" "dequeue_ready_query now c = (c', None)"
  shows "client_ok c'"
proof -
  have req: "requests_ok c" using assms(1) by (simp add: client_ok_def)
  note dq = owned_dequeue_ready_query [OF req assms(2), simplified]
  have "requests_ok c'"
    using dq req by (auto simp: requests_ok_def in_flight_list_def)
  moreover have "command_queue c' = command_queue c" "imu_channel c' = imu_channel c" "motor_channel c' = motor_channel c"
    "parser c' = parser c" "registry c' = registry c" "control_watchdog c' = control_watchdog c" "cfg c' = cfg c"
    using assms(2) by (auto simp: dequeue_ready_query_eq Let_def split: if_splits)
  ultimately show ?thesis using assms(1) dq(2) by (auto simp: client_ok_def channels_ok_def)
qed

lemma system_ok_io: "io_step s t \<Longrightarrow> system_ok s \<Longrightarrow> system_ok t"
proof (induction rule: io_step.induct)
  case (LeaveLoop c)
  then show ?case by (intro system_ok_quiet [OF LeaveLoop.prems]) (simp_all add: system_ok_def)
next
  case (BeginPass c now schedule_now c' stop)
  have "client_ok (begin_pass schedule_now c)" "sent (begin_pass schedule_now c) = sent c"
    using BeginPass.prems by (simp_all add: system_ok_def client_ok_begin_pass) (simp add: begin_pass_def)
  with BeginPass show ?case
    using client_ok_timeout [of "begin_pass schedule_now c" now] timeout_sent [of now "begin_pass schedule_now c"]
    by (intro system_ok_quiet [OF BeginPass.prems]) auto
next
  case (SelectInterrupted c)
  then show ?case by (intro system_ok_quiet [OF SelectInterrupted]) (simp_all add: system_ok_def)
next
  case (SelectFailed c)
  then show ?case by (intro system_ok_quiet [OF SelectFailed]) (simp_all add: system_ok_def stop_running_def)
next
  case (Selected c' wake c readable)
  then show ?case
    by (intro system_ok_quiet [OF Selected.prems]) (simp_all add: system_ok_def drain_wake_pipe_def)
next
  case (ReadBytes input c)
  then show ?case by (intro system_ok_quiet [OF ReadBytes.prems]) (simp_all add: system_ok_def)
next
  case (FeedByte c x c' input)
  then have "client_ok c" by (simp add: system_ok_def)
  from client_ok_feed_one [OF this, of x] FeedByte.hyps have "client_ok c'" "sent c' = sent c" by auto
  then show ?case by (intro system_ok_quiet [OF FeedByte.prems]) auto
next
  case (InvokeCallback c before d "after" input)
  then show ?case by (intro system_ok_quiet [OF InvokeCallback.prems]) (simp_all add: system_ok_def)
next
  case (BytesFed c)
  then show ?case by (intro system_ok_quiet [OF BytesFed.prems]) (simp_all add: system_ok_def)
next
  case (ReadNothing outcome c c' again)
  then have "client_ok c" by (simp add: system_ok_def)
  from client_ok_read [OF this, of outcome] ReadNothing.hyps have "client_ok c'" "sent c' = sent c" by auto
  then show ?case by (intro system_ok_quiet [OF ReadNothing.prems]) auto
next
  case (WatchdogQuiet now c c')
  then show ?case
    using client_ok_watchdog [of c now] dequeue_sent(1) [of now c]
    by (intro system_ok_quiet [OF WatchdogQuiet.prems]) (simp_all add: system_ok_def)
next
  case (WatchdogFires now c c1 pkt steps r)
  have c: "client_ok c1" "sent c1 = sent c"
    using client_ok_watchdog [of c now] dequeue_sent(1) [of now c] WatchdogFires by (simp_all add: system_ok_def)
  have "sent_ok (WatchdogPhase, c)" using WatchdogFires.prems by (simp add: system_ok_def)
  then have "sent_ok (WatchdogPhase, c1)" by (rule sent_ok_same [OF _ c(2)]) simp
  then show ?case
    using system_ok_after_write [OF c(1), of WatchdogPhase LoopTop pkt steps "fst r" "snd r"]
      dequeued_watchdog_packet [OF WatchdogFires.hyps(1)] WatchdogFires.hyps(2) by simp
next
  case (NoCommand c c')
  then show ?case
    using client_ok_dequeue_command [of c] dequeue_sent(2) [of c]
    by (intro system_ok_quiet [OF NoCommand.prems]) (simp_all add: system_ok_def)
next
  case (SendCommand c c1 pkt steps r)
  have c: "client_ok c1" "sent c1 = sent c" "whole_frame pkt"
    using client_ok_dequeue_command [of c] dequeue_sent(2) [of c] SendCommand dequeued_command_packet [of c c1 pkt]
    by (simp_all add: system_ok_def)
  have "sent_ok (CommandPhase, c)" using SendCommand.prems by (simp add: system_ok_def)
  then have "sent_ok (CommandPhase, c1)" by (rule sent_ok_same [OF _ c(2)]) simp
  then show ?case
    using system_ok_after_write [OF c(1), of CommandPhase TimeoutPhase pkt steps "fst r" "snd r"] c(3) SendCommand.hyps(2) by simp
next
  case (CheckTimeouts now c c' stop)
  then show ?case
    using client_ok_timeout [of c now] timeout_sent [of now c]
    by (intro system_ok_quiet [OF CheckTimeouts.prems]) (auto simp: system_ok_def)
next
  case (Busy c)
  then show ?case by (intro system_ok_quiet [OF Busy.prems]) (simp_all add: system_ok_def)
next
  case (PollRefused c after_io ch ch')
  then show ?case using poll_request [of c after_io ch] by (auto simp: system_ok_def client_ok_def)
next
  case (SendPoll c after_io ch ch' poll steps c' ok)
  then show ?case by (intro system_ok_poll) auto
next
  case (NoQuery c after_io c')
  then show ?case
    using client_ok_no_query [of c after_io c'] dequeue_sent(5) [of after_io c]
    by (intro system_ok_quiet [OF NoQuery.prems]) (simp_all add: system_ok_def)
next
  case (SendQuery c after_io c1 query steps c' ok)
  then show ?case by (intro system_ok_query) auto
next
  case (ClearWork c)
  have "outstanding (clear_pending_work c) = []"
    by (simp add: clear_pending_work_eq outstanding_def in_flight_list_def)
  moreover have "sent_ok (Cleanup, c)" using ClearWork by (simp add: system_ok_def)
  then have "sent_ok (Finished, clear_pending_work c)"
    by (rule sent_ok_same) (simp_all add: clear_pending_work_eq)
  ultimately show ?case
    using ClearWork client_ok_clear [of c] by (simp add: system_ok_def) (simp add: clear_pending_work_eq)
qed

text \<open>A call of another thread sends nothing, never sets the running flag, and fills no queue of a
  stopped client.\<close>

lemma api_step_frame:
  "api_step c c' \<Longrightarrow> sent c' = sent c \<and> (running c' \<longrightarrow> running c)
     \<and> (\<not> running c \<longrightarrow> outstanding c' = outstanding c \<and> command_queue c' = command_queue c)"
  by (induction rule: api_step.induct)
    (auto simp: set_rpm_def set_duty_def set_current_def set_current_brake_def set_servo_pos_def
      set_app_output_disabled_def enqueue_control_command_def enqueue_command_def submit_query_def
      set_motor_poll_interval_def set_imu_poll_interval_def disconnect_signal_def Let_def outstanding_def
      in_flight_list_def)

lemma system_ok_api: "api_step c c' \<Longrightarrow> system_ok (pc, c) \<Longrightarrow> system_ok (pc, c')"
  using api_step_frame [of c c'] client_ok_api [of c c'] by (auto simp: system_ok_def sent_ok_def)

section \<open>Reachable states\<close>

text \<open>The state in which \<open>connect\<close> starts the I/O thread.\<close>

definition started :: "system \<Rightarrow> bool" where
  "started s \<longleftrightarrow> fst s = LoopTop \<and> client_ok (snd s) \<and> running (snd s) \<and> sent (snd s) = []"

interpretation client_system: step_invariant started system_step system_ok
proof
  fix s assume "started s"
  moreover have "frameable [0]" by (simp add: frameable_def)
  ultimately show "system_ok s"
    unfolding system_ok_def started_def sent_ok_def
    by (auto intro!: exI [of _ "[]"] exI [of _ "[0]"] exI [of _ "0 :: nat"])
next
  fix s t assume "system_step s t" "system_ok s"
  then show "system_ok t" by (induction rule: system_step.induct) (blast intro: system_ok_io system_ok_api)+
qed

lemma started_new: "started (LoopTop, (new_client config)\<lparr>running := True\<rparr>)"
  by (simp add: started_def client_ok_new) (simp add: new_client_def)

text \<open>
  C32: In every state that the I/O thread and any calls of other threads can reach, in whatever
  order they interleave: no command identifier is queued twice, a request in flight or queued owns
  its caller's query and no query has two owners, the parser holds one incomplete candidate at
  most, an armed watchdog is a configured one, and whatever the next read returns, and the next
  byte of what a read returned, is processed without leaving a buffer.
\<close>

theorem system_invariant:
  assumes "started s" "system_step\<^sup>*\<^sup>* s (pc, c)"
  shows "queue_ok (command_queue c)
    \<and> mset (refs (outstanding c)) = mset_set {q. q < length (queries c) \<and> \<not> completed (queries c ! q)}
    \<and> waiting (parser c) \<and> wf_registry (registry c)
    \<and> (if armed (control_watchdog c) then control_watchdog_enabled (cfg c) else True)
    \<and> (\<exists>c' again. read_once outcome c = Some (c', again)) \<and> (\<exists>c'. feed_one x c = Some c')"
proof -
  have "client_ok c" using client_system.reachable_inv [OF assms] by (simp add: system_ok_def)
  with client_ok_read [OF this, of outcome] client_ok_feed_one [OF this, of x] show ?thesis
    by (auto simp: client_ok_def requests_ok_def owned_def unfinished_def)
qed

theorem system_invariant_witness:
  "queue_ok (command_queue ((new_client default_controller_config)\<lparr>running := True\<rparr>))"
  using system_invariant [OF started_new rtranclp.rtrancl_refl, of default_controller_config] by blast

lemma idle_completed: "client_ok c \<Longrightarrow> outstanding c = [] \<Longrightarrow> q < length (queries c) \<Longrightarrow> query_result q c \<noteq> None"
proof -
  assume a: "client_ok c" "outstanding c = []" "q < length (queries c)"
  then have "{#} = mset_set (unfinished (queries c))" by (simp add: client_ok_def requests_ok_def owned_def)
  then have "unfinished (queries c) = {}" by (metis finite_unfinished mset_set_empty_iff)
  with a(3) show ?thesis by (auto simp: unfinished_def query_result_def)
qed

text \<open>
  C33: No caller is left waiting: when the I/O thread has ended, however it ended (disconnect, a
  failed or stalled device, a timed-out request), every query that was ever submitted is
  completed, and nothing is left in the queues.
\<close>

theorem no_waiter_left_behind:
  assumes "started s" "system_step\<^sup>*\<^sup>* s (Finished, c)"
  shows "(\<forall>q < length (queries c). query_result q c \<noteq> None) \<and> outstanding c = [] \<and> command_queue c = [] \<and> \<not> running c"
proof -
  have "system_ok (Finished, c)" by (rule client_system.reachable_inv [OF assms])
  then show ?thesis using idle_completed [of c] by (auto simp: system_ok_def)
qed

text \<open>A client that is running, submits a query, and is disconnected before the reply.\<close>

definition waiting_example :: client where
  "waiting_example =
     disconnect_signal False
       (fst (submit_query False 0 build_fw_version_request FwVersion 5 False
         ((new_client default_controller_config)\<lparr>running := True\<rparr>)))"

theorem no_waiter_left_behind_witness:
  "query_result 0 waiting_example = None \<and> query_result 0 (clear_pending_work waiting_example) \<noteq> None"
proof -
  let ?start = "(new_client default_controller_config)\<lparr>running := True\<rparr>"
  let ?asked = "fst (submit_query False 0 build_fw_version_request FwVersion 5 False ?start)"
  have pkt: "framed_command FwVersion build_fw_version_request" "build_fw_version_request \<noteq> []"
    using framed_frame [of "[]" FwVersion] by (simp_all add: request_defs frame_empty_iff frameable_def)
  have q: "queries waiting_example = [\<lparr>completed = False, result = None\<rparr>]" "\<not> running waiting_example"
    using pkt(2) by (simp_all add: waiting_example_def disconnect_signal_def submit_query_def new_client_def Let_def)
  have "system_step\<^sup>*\<^sup>* (LoopTop, ?start) (LoopTop, ?asked)"
    by (intro r_into_rtranclp system_step.Api api_step.Submit pkt(1))
  also have "system_step\<^sup>*\<^sup>* (LoopTop, ?asked) (LoopTop, waiting_example)"
    unfolding waiting_example_def by (intro r_into_rtranclp system_step.Api api_step.Disconnect)
  also have "system_step\<^sup>*\<^sup>* (LoopTop, waiting_example) (Cleanup, waiting_example)"
    by (intro r_into_rtranclp system_step.Io io_step.LeaveLoop q(2))
  also have "system_step\<^sup>*\<^sup>* (Cleanup, waiting_example) (Finished, clear_pending_work waiting_example)"
    by (intro r_into_rtranclp system_step.Io io_step.ClearWork)
  finally have "\<forall>i < length (queries (clear_pending_work waiting_example)). query_result i (clear_pending_work waiting_example) \<noteq> None"
    using no_waiter_left_behind [OF started_new] by blast
  then show ?thesis using q(1) by (simp add: query_result_def clear_pending_work_eq)
qed

text \<open>
  C34: What the device receives is a sequence of whole frames: at every moment between two writes
  of a running connection, in every interleaving, the bytes sent so far decode to a list of
  payloads with nothing left over.
\<close>

theorem device_receives_whole_frames:
  assumes "started s" "system_step\<^sup>*\<^sup>* s (pc, c)" "pc \<notin> {Cleanup, Finished}"
  shows "\<exists>ps. feed_bytes [] (sent c) = Some ([], ps) \<and> sent c = concat (map frame ps)"
proof -
  obtain ps where "\<forall>q \<in> set ps. frameable q" "sent c = concat (map frame ps)"
    using client_system.reachable_inv [OF assms(1,2)] assms(3) by (auto simp: system_ok_def sent_ok_def)
  then show ?thesis using wire.run_stream [of ps] by auto
qed

lemma idle_timeout: "outstanding c = [] \<Longrightarrow> handle_request_timeout now c = (c, False)"
  by (cases c) (simp add: handle_request_timeout_eq overdue_in_flight_def outstanding_def in_flight_list_def
      split: option.splits)

lemma write_at_once:
  "running c \<Longrightarrow> pkt \<noteq> [] \<Longrightarrow> length pkt \<le> n \<Longrightarrow> write_packet [Wrote n] pkt c = Some (c\<lparr>sent := sent c @ pkt\<rparr>, True)"
  by (cases pkt) (auto simp: write_packet_def)

definition sending_example :: client where
  "sending_example = fst (set_rpm 0 7 ((new_client default_controller_config)\<lparr>running := True\<rparr>))"

theorem device_receives_whole_frames_witness:
  "\<exists>ps. feed_bytes [] (build_set_rpm_command 7) = Some ([], ps)"
proof -
  let ?start = "(new_client default_controller_config)\<lparr>running := True\<rparr>" and ?c = "sending_example"
  let ?p = "build_set_rpm_command 7"
  have p: "length ?p = 10" by (simp add: build_set_rpm_command_def append_be length_frame frameable_def)
  then have [simp]: "?p \<noteq> []" by auto
  have c: "running ?c" "outstanding ?c = []" "begin_pass 0 ?c = ?c" "dequeue_due_watchdog_command 0 ?c = (?c, None)"
    "dequeue_command ?c = (?c\<lparr>command_queue := []\<rparr>, Some ?p)" "sent ?c = []"
    using p by (simp_all add: sending_example_def set_rpm_def enqueue_control_command_def enqueue_command_def
        new_client_def begin_pass_def reschedule_channel_def outstanding_def in_flight_list_def Let_def coalesce_def
        dequeue_due_watchdog_command_def control_watchdog_enabled_def default_controller_config_def
        dequeue_command_def wake_io_thread_def)
  have "system_step\<^sup>*\<^sup>* (LoopTop, ?start) (LoopTop, ?c)"
    by (rule r_into_rtranclp, rule system_step.Api, rule api_step.SetRpm [of ?start 0 7, folded sending_example_def])
  also have "system_step\<^sup>*\<^sup>* (LoopTop, ?c) (Selecting, ?c)"
    using io_step.BeginPass [OF c(1), of 0 0 _ False] idle_timeout [OF c(2)] by (simp add: c(3) system_step.Io r_into_rtranclp)
  also have "system_step\<^sup>*\<^sup>* (Selecting, ?c) (WatchdogPhase, ?c)"
    using io_step.Selected [of ?c False ?c False] by (simp add: system_step.Io r_into_rtranclp)
  also have "system_step\<^sup>*\<^sup>* (WatchdogPhase, ?c) (CommandPhase, ?c)"
    by (intro r_into_rtranclp system_step.Io io_step.WatchdogQuiet [OF c(4)])
  also have "system_step\<^sup>*\<^sup>* (CommandPhase, ?c) (TimeoutPhase, ?c\<lparr>command_queue := [], sent := ?p\<rparr>)"
    using io_step.SendCommand [OF c(5) write_at_once [of _ _ 10]] c(1,6) p by (simp add: after_write_def system_step.Io r_into_rtranclp)
  finally show ?thesis
    using device_receives_whole_frames [OF started_new, of default_controller_config TimeoutPhase "?c\<lparr>command_queue := [], sent := ?p\<rparr>"]
    by auto
qed

end
