(* ===== verification/Lifecycle.thy ===== *)
theory Lifecycle
  imports Io_Invariant
begin

text \<open>
  The life cycle of a connection in \<open>src/controller_client.cpp\<close>: opening and configuring the serial
  device, the wake pipe, starting the I/O thread, \<open>disconnect\<close> and the clean-up of a connection that
  ended, over a model of the descriptors of the process.  What the system calls, the custom opener
  and the file system answer is an input of the operations.
\<close>

section \<open>Descriptors\<close>

text \<open>The flags of a \<open>struct termios\<close> that the code sets and those that the manual of \<open>cfmakeraw\<close> names
  (the others by a number), the character size, the line speeds and the two control characters that
  are set.\<close>

datatype tty_flag =
  IGNBRK | BRKINT | PARMRK | ISTRIP | INLCR | IGNCR | ICRNL | IXON | OPOST
| ECHO | ECHONL | ICANON | ISIG | IEXTEN | PARENB | CLOCAL | CREAD | OtherFlag nat

datatype speed = B9600 | B19200 | B38400 | B57600 | B115200 | B230400

record termios =
  tty_flags :: "tty_flag list"
  character_bits :: nat
  ispeed :: "speed option"
  ospeed :: "speed option"
  vmin :: nat
  vtime :: nat

text \<open>The environment: \<open>own_fds\<close> are the open descriptors that this client opened and has not closed;
  \<open>foreign_fds\<close> the other open descriptors of the process; \<open>nonblocking\<close> those with \<open>O_NONBLOCK\<close>;
  \<open>stray_close\<close>: a descriptor was closed that the client does not own.  Which descriptor a call that
  opens one returns, given the open ones, is the system's choice, \<open>alloc\<close>; all that is used of it is
  that it is none of the open ones and not negative.\<close>

record kernel =
  own_fds :: "int list"
  foreign_fds :: "int list"
  nonblocking :: "int list"
  tty_of :: "int \<rightharpoonup> termios"
  stray_close :: bool
  alloc :: "int list \<Rightarrow> int"

definition alloc_ok :: "kernel \<Rightarrow> bool" where
  "alloc_ok k \<longleftrightarrow> (\<forall>used. alloc k used \<notin> set used \<and> 0 \<le> alloc k used)"

definition new_fd :: "kernel \<Rightarrow> kernel \<times> int" where
  "new_fd k =
     (let d = alloc k (own_fds k @ foreign_fds k)
      in (k\<lparr>own_fds := d # own_fds k\<rparr>, d))"

definition close_fd :: "int \<Rightarrow> kernel \<Rightarrow> kernel" where
  "close_fd d k =
     (if d < 0 then k
      else if d \<in> set (own_fds k)
      then k\<lparr>own_fds := removeAll d (own_fds k), nonblocking := removeAll d (nonblocking k)\<rparr>
      else k\<lparr>stray_close := True\<rparr>)"

text \<open>A descriptor that the custom opener stores is from then on the client's, whether it was opened
  for it or the process had it open before.\<close>

definition adopt_fd :: "int \<Rightarrow> kernel \<Rightarrow> kernel" where
  "adopt_fd d k =
     (if d < 0 then k else k\<lparr>own_fds := d # own_fds k, foreign_fds := removeAll d (foreign_fds k)\<rparr>)"

section \<open>The serial device\<close>

text \<open>\<open>None\<close> stands for the result \<open>-1\<close>.\<close>

definition baud_to_constant :: "int \<Rightarrow> speed option" where
  "baud_to_constant rate =
     (if rate = 9600 then Some B9600
      else if rate = 19200 then Some B19200
      else if rate = 38400 then Some B38400
      else if rate = 57600 then Some B57600
      else if rate = 115200 then Some B115200
      else if rate = 230400 then Some B230400
      else None)"

text \<open>What the system calls of \<open>open_serial\<close> answer for a path, and what the C library's \<open>cfmakeraw\<close> makes
  of settings.\<close>

record serial_outcome =
  open_ok :: bool
  tcgetattr_result :: "termios option"
  cfsetispeed_ok :: bool
  cfsetospeed_ok :: bool
  cfmakeraw_result :: "termios \<Rightarrow> termios"
  tcsetattr_ok :: bool

definition open_serial :: "serial_outcome \<Rightarrow> int \<Rightarrow> int \<Rightarrow> kernel \<Rightarrow> kernel \<times> int \<times> bool" where
  "open_serial out rate fd_out k =
     (case baud_to_constant rate of
        None \<Rightarrow> (k, fd_out, False)
      | Some baud_const \<Rightarrow>
          if \<not> open_ok out then (k, fd_out, False)
          else
            let (k, d) = new_fd k; k = k\<lparr>nonblocking := d # nonblocking k\<rparr>
            in case tcgetattr_result out of
                 None \<Rightarrow> (close_fd d k, fd_out, False)
               | Some tty \<Rightarrow>
                   if \<not> cfsetispeed_ok out \<or> \<not> cfsetospeed_ok out then (close_fd d k, fd_out, False)
                   else
                     let tty = cfmakeraw_result out (tty\<lparr>ispeed := Some baud_const, ospeed := Some baud_const\<rparr>);
                         tty = tty\<lparr>tty_flags := CLOCAL # CREAD # tty_flags tty, vmin := 1, vtime := 0\<rparr>
                     in if \<not> tcsetattr_ok out then (close_fd d k, fd_out, False)
                        else (k\<lparr>tty_of := (tty_of k)(d \<mapsto> tty)\<rparr>, d, True))"

text \<open>The answers to \<open>F_GETFL\<close> and \<open>F_SETFL\<close>; both fail on a descriptor that is not open.\<close>

definition set_nonblocking :: "bool \<times> bool \<Rightarrow> int \<Rightarrow> kernel \<Rightarrow> kernel \<times> bool" where
  "set_nonblocking answers d k =
     (if \<not> fst answers \<or> d \<notin> set (own_fds k) then (k, False)
      else if \<not> snd answers then (k, False)
      else (k\<lparr>nonblocking := d # nonblocking k\<rparr>, True))"

text \<open>The result of \<open>glob\<close> for a pattern: \<open>None\<close> when it does not return 0.\<close>

definition find_devices :: "(string \<Rightarrow> string list option) \<Rightarrow> string list" where
  "find_devices glob =
     concat (map (\<lambda>pattern. case glob pattern of None \<Rightarrow> [] | Some paths \<Rightarrow> paths)
       [''/dev/ttyACM*'', ''/dev/ttyUSB*'', ''/dev/cu.usb*''])"

section \<open>Clean-up\<close>

text \<open>The closing of one member, which becomes \<open>-1\<close>.\<close>

definition close_member :: "int \<Rightarrow> kernel \<Rightarrow> kernel \<times> int" where
  "close_member d k = (if d \<ge> 0 then (close_fd d k, - 1) else (k, d))"

text \<open>\<open>cleanup_transport_state\<close> once the I/O thread is joined.\<close>

definition cleanup_transport_state :: "kernel \<Rightarrow> client \<Rightarrow> kernel \<times> client" where
  "cleanup_transport_state k c =
     (let c = clear_pending_work (c\<lparr>io_thread := False\<rparr>);
          (k, d) = close_member (fd c) k;
          (k, r) = close_member (fst (wake_pipe c)) k;
          (k, w) = close_member (snd (wake_pipe c)) k
      in (k, c\<lparr>fd := d, wake_pipe := (r, w)\<rparr>))"

section \<open>Connecting\<close>

text \<open>The custom opener: what it stores in \<open>fd_\<close>, if anything (any number), and what it returns (\<open>None\<close>:
  it throws).\<close>

record opener_outcome =
  stored_fd :: "int option"
  returned :: "bool option"

record connect_env =
  opener :: opener_outcome
  glob_result :: "string \<Rightarrow> string list option"
  device :: "string \<Rightarrow> serial_outcome"
  pipe_ok :: bool
  fcntl_fd :: "bool \<times> bool"
  fcntl_read_end :: "bool \<times> bool"
  fcntl_write_end :: "bool \<times> bool"
  connect_time :: time

text \<open>The part of \<open>connect\<close> that opens the transport.\<close>

definition open_custom :: "opener_outcome \<Rightarrow> kernel \<Rightarrow> client \<Rightarrow> kernel \<times> client \<times> bool" where
  "open_custom out k c =
     (let (k, c) = (case stored_fd out of Some d \<Rightarrow> (adopt_fd d k, c\<lparr>fd := d\<rparr>) | None \<Rightarrow> (k, c));
          opened = (returned out = Some True)
      in if \<not> opened
         then (if fd c \<ge> 0 then (close_fd (fd c) k, c\<lparr>fd := - 1\<rparr>, False) else (k, c, False))
         else (k, c, True))"

definition open_builtin :: "connect_env \<Rightarrow> kernel \<Rightarrow> client \<Rightarrow> kernel \<times> client \<times> bool" where
  "open_builtin env k c =
     (let devices = find_devices (glob_result env)
      in if device_path (cfg c) = [] \<and> devices = [] then (k, c, False)
         else
           let c = (if device_path (cfg c) = [] then c\<lparr>cfg := (cfg c)\<lparr>device_path := hd devices\<rparr>\<rparr> else c);
               (k, d, ok) = open_serial (device env (device_path (cfg c))) (baud (cfg c)) (fd c) k
           in (k, c\<lparr>fd := d\<rparr>, ok))"

definition open_transport :: "connect_env \<Rightarrow> kernel \<Rightarrow> client \<Rightarrow> kernel \<times> client \<times> bool" where
  "open_transport env k c =
     (if has_open_serial_fn (cfg c) then open_custom (opener env) k c else open_builtin env k c)"

text \<open>The three calls of \<open>set_nonblocking\<close>, left to right and stopping at the first failure.\<close>

definition set_all_nonblocking :: "connect_env \<Rightarrow> kernel \<Rightarrow> client \<Rightarrow> kernel \<times> bool" where
  "set_all_nonblocking env k c =
     (let (k, ok) = set_nonblocking (fcntl_fd env) (fd c) k
      in if \<not> ok then (k, False)
         else let (k, ok) = set_nonblocking (fcntl_read_end env) (fst (wake_pipe c)) k
              in if \<not> ok then (k, False)
                 else set_nonblocking (fcntl_write_end env) (snd (wake_pipe c)) k)"

text \<open>The pipe and the flags: what follows a successful opening.  The pipe starts empty.\<close>

definition open_wake_pipe :: "connect_env \<Rightarrow> kernel \<Rightarrow> client \<Rightarrow> kernel \<times> client \<times> bool" where
  "open_wake_pipe env k c =
     (if \<not> pipe_ok env then (close_fd (fd c) k, c\<lparr>fd := - 1\<rparr>, False)
      else
        let (k, r) = new_fd k; (k, w) = new_fd k;
            c = c\<lparr>wake_pipe := (r, w), wake_pending := False\<rparr>;
            (k, ok) = set_all_nonblocking env k c
        in if \<not> ok
           then (close_fd w (close_fd r (close_fd (fd c) k)), c\<lparr>fd := - 1, wake_pipe := (- 1, - 1)\<rparr>, False)
           else (k, c, True))"

text \<open>The reset of the state for a new connection, up to \<open>running_.store(true)\<close>; nothing has been sent
  on it.\<close>

definition reset_connection :: "time \<Rightarrow> client \<Rightarrow> client" where
  "reset_connection now c =
     (let c = c\<lparr>parser := parser_reset (parser c), imu_data_cache := None, motor_state_cache := None\<rparr>;
          c = clear_pending_work c;
          c = c\<lparr>imu_channel := (imu_channel c)\<lparr>next_due := now\<rparr>,
                motor_channel := (motor_channel c)\<lparr>next_due := now\<rparr>\<rparr>
      in c\<lparr>sent := [], running := True\<rparr>)"

text \<open>\<open>connect\<close> up to the creation of the thread: it returns, or goes on to create the thread.\<close>

datatype connect_progress = Returns bool | CreatesThread

definition connect_client :: "bool \<Rightarrow> connect_env \<Rightarrow> kernel \<Rightarrow> client \<Rightarrow> kernel \<times> client \<times> connect_progress" where
  "connect_client on_io_thread env k c =
     (if on_io_thread then (k, c, Returns (running c))
      else if running c then (k, c, Returns True)
      else
        let (k, c) = cleanup_transport_state k c;
            (k, c, opened) = open_transport env k c
        in if \<not> opened then (k, c, Returns False)
           else
             let (k, c, ready) = open_wake_pipe env k c
             in if \<not> ready then (k, c, Returns False)
                else (k, reset_connection (connect_time env) c, CreatesThread))"

text \<open>The creation of the thread, and what follows when it throws.\<close>

definition create_thread :: "bool \<Rightarrow> kernel \<Rightarrow> client \<Rightarrow> kernel \<times> client \<times> bool" where
  "create_thread created k c =
     (if created then (k, c\<lparr>io_thread := True\<rparr>, True)
      else let (k, c) = cleanup_transport_state k (c\<lparr>running := False\<rparr>) in (k, c, False))"

section \<open>The life cycle as a state machine\<close>

text \<open>\<open>Starting\<close>: \<open>running_\<close> is set and the thread is not created yet.\<close>

datatype thread_phase = NoThread | Starting | Threaded io_pc

type_synonym life = "kernel \<times> thread_phase \<times> client"

text \<open>The join at the start of the clean-up has returned: there is no thread, or it has ended.\<close>

definition joined :: "thread_phase \<Rightarrow> bool" where
  "joined phase \<longleftrightarrow> phase = NoThread \<or> phase = Threaded Finished"

text \<open>Calls of other threads happen in every phase; while the thread is being created the life cycle
  mutex keeps \<open>disconnect\<close> out.  \<open>Disconnected\<close> is the clean-up of \<open>disconnect\<close> or of the destructor, after
  the signal.  The rest of the process opens and closes its own descriptors.\<close>

inductive life_step :: "life \<Rightarrow> life \<Rightarrow> bool" where
  Thread: "system_step (pc, c) (pc', c') \<Longrightarrow> life_step (k, Threaded pc, c) (k, Threaded pc', c')"
| Call: "api_step c c' \<Longrightarrow> phase = NoThread \<or> phase = Starting \<and> running c' \<Longrightarrow>
    life_step (k, phase, c) (k, phase, c')"
| ConnectFails: "joined phase \<Longrightarrow> \<not> running c \<Longrightarrow> connect_client False env k c = (k', c', Returns b) \<Longrightarrow>
    life_step (k, phase, c) (k', NoThread, c')"
| ConnectReady: "joined phase \<Longrightarrow> \<not> running c \<Longrightarrow> connect_client False env k c = (k', c', CreatesThread) \<Longrightarrow>
    life_step (k, phase, c) (k', Starting, c')"
| Created: "create_thread created k c = (k', c', ok) \<Longrightarrow>
    life_step (k, Starting, c) (k', if ok then Threaded LoopTop else NoThread, c')"
| Disconnected: "joined phase \<Longrightarrow> \<not> running c \<Longrightarrow> cleanup_transport_state k c = (k', c') \<Longrightarrow>
    life_step (k, phase, c) (k', NoThread, c')"
| Others: "set fds \<inter> set (own_fds k) = {} \<Longrightarrow> life_step (k, phase, c) (k\<lparr>foreign_fds := fds\<rparr>, phase, c)"

section \<open>Descriptor tables\<close>

text \<open>What the code relies on: a new descriptor is not one of those held, and closing a held one
  leaves the others held.\<close>

locale descriptor_table =
  fixes table_ok :: "'k \<Rightarrow> int set \<Rightarrow> bool"
    and new :: "'k \<Rightarrow> 'k \<times> int"
    and close :: "int \<Rightarrow> 'k \<Rightarrow> 'k"
  assumes new_law: "table_ok k ds \<Longrightarrow> new k = (k', d) \<Longrightarrow> table_ok k' (insert d ds) \<and> d \<notin> ds \<and> 0 \<le> d"
    and close_law: "table_ok k ds \<Longrightarrow> d \<in> ds \<Longrightarrow> table_ok (close d k) (ds - {d})"
    and close_invalid: "d < 0 \<Longrightarrow> close d k = k"
begin

lemma close_new: "table_ok k ds \<Longrightarrow> new k = (k', d) \<Longrightarrow> table_ok (close d k') ds"
  using new_law [of k ds k' d] close_law [of k' "insert d ds" d] by auto

lemma new_two:
  "table_ok k ds \<Longrightarrow> new k = (k1, a) \<Longrightarrow> new k1 = (k2, b) \<Longrightarrow>
     table_ok k2 (insert a (insert b ds)) \<and> a \<notin> ds \<and> b \<notin> ds \<and> a \<noteq> b \<and> 0 \<le> a \<and> 0 \<le> b"
  using new_law [of k ds k1 a] new_law [of k1 "insert a ds" k2 b] by (auto simp: insert_commute)

lemma close_valid: "table_ok k (ds \<union> (if 0 \<le> x then {x} else {})) \<Longrightarrow> x \<notin> ds \<Longrightarrow> table_ok (close x k) ds"
  using close_law [of k "insert x ds" x] close_invalid [of x k] by (auto split: if_splits)

lemma close_three:
  assumes "table_ok k {x \<in> {a, b, c}. 0 \<le> x}" and "0 \<le> a \<Longrightarrow> a \<noteq> b \<and> a \<noteq> c" and "0 \<le> b \<Longrightarrow> b \<noteq> c"
  shows "table_ok (close c (close b (close a k))) {}"
proof -
  have sets: "{x \<in> {a, b, c}. 0 \<le> x} = {x \<in> {b, c}. 0 \<le> x} \<union> (if 0 \<le> a then {a} else {})"
    "{x \<in> {b, c}. 0 \<le> x} = {x \<in> {c}. 0 \<le> x} \<union> (if 0 \<le> b then {b} else {})"
    "{x \<in> {c}. 0 \<le> x} = {} \<union> (if 0 \<le> c then {c} else {})" by auto
  have "table_ok (close a k) {x \<in> {b, c}. 0 \<le> x}"
    using assms(2) by (intro close_valid [OF assms(1) [unfolded sets(1)]]) blast
  from close_valid [OF this [unfolded sets(2)]] have "table_ok (close b (close a k)) {x \<in> {c}. 0 \<le> x}"
    using assms(3) by blast
  from close_valid [OF this [unfolded sets(3)]] show ?thesis by simp
qed

end

text \<open>The kernel's table, as far as this client is concerned, holds exactly \<open>ds\<close>.\<close>

definition holds :: "kernel \<Rightarrow> int set \<Rightarrow> bool" where
  "holds k ds \<longleftrightarrow> alloc_ok k \<and> \<not> stray_close k \<and> set (own_fds k) = ds \<and> ds \<inter> set (foreign_fds k) = {} \<and> (\<forall>d \<in> ds. 0 \<le> d)"

lemma alloc_ok_cong [simp]:
  "alloc_ok (k\<lparr>own_fds := xs\<rparr>) = alloc_ok k" "alloc_ok (k\<lparr>foreign_fds := xs\<rparr>) = alloc_ok k"
  "alloc_ok (k\<lparr>nonblocking := xs\<rparr>) = alloc_ok k" "alloc_ok (k\<lparr>tty_of := m\<rparr>) = alloc_ok k"
  "alloc_ok (k\<lparr>stray_close := b\<rparr>) = alloc_ok k"
  by (simp_all add: alloc_ok_def)

lemma alloc_fresh: "alloc_ok k \<Longrightarrow> alloc k used \<notin> set used" "alloc_ok k \<Longrightarrow> 0 \<le> alloc k used"
  by (simp_all add: alloc_ok_def)

interpretation fds: descriptor_table holds new_fd close_fd
proof
  fix k ds k' d assume "holds k ds" "new_fd k = (k', d)"
  then show "holds k' (insert d ds) \<and> d \<notin> ds \<and> 0 \<le> d"
    using alloc_fresh [of k "own_fds k @ foreign_fds k"] by (auto simp: holds_def new_fd_def Let_def)
qed (auto simp: holds_def close_fd_def)

lemma adopt_holds: "holds k {} \<Longrightarrow> holds (adopt_fd d k) (if 0 \<le> d then {d} else {})"
  by (auto simp: holds_def adopt_fd_def)

section \<open>The I/O thread and the calls leave the handles alone\<close>

definition handles :: "client \<Rightarrow> int \<times> (int \<times> int) \<times> bool" where
  "handles c = (fd c, wake_pipe c, io_thread c)"

lemma handles_dispatch: "dispatch_payload p stamp c = Some c' \<Longrightarrow> handles c' = handles c"
  using dispatch_ignored [of c p stamp] dispatch_payload_eq [of c _ p stamp]
  by (cases "answered p c") (auto simp: answered_def handles_def split: option.splits if_splits)

lemma handles_feed_one: "feed_one x c = Some c' \<Longrightarrow> handles c' = handles c"
  using handles_dispatch
  by (cases x) (fastforce simp: Let_def handles_def split: Option.bind_splits option.splits prod.splits)

lemma handles_calls [simp]:
  "handles (finish_publishing c) = handles c" "handles (invoke_callback before d after c) = handles c"
  by (simp_all add: handles_def finish_publishing_def invoke_callback_def)

lemma handles_feed_input: "feed_input input c = Some c' \<Longrightarrow> handles c' = handles c"
proof (induction input arbitrary: c)
  case (Cons x input)
  then obtain c1 where "feed_one x c = Some c1" "feed_input input (finish_publishing c1) = Some c'"
    by (auto simp del: feed_one.simps split: Option.bind_splits)
  with Cons.IH handles_feed_one show ?case by fastforce
qed simp

lemma handles_read: "read_once outcome c = Some (c', again) \<Longrightarrow> handles c' = handles c"
  by (auto simp: read_once_def handles_def dest!: handles_feed_input
      split: read_outcome.splits Option.bind_splits)

lemma handles_write: "write_packet steps pkt c = Some (c', ok) \<Longrightarrow> handles c' = handles c"
  by (erule write_packet_io) (auto simp: only_io_def handles_def)

lemma handles_timeout: "handle_request_timeout now c = (c', stop) \<Longrightarrow> handles c' = handles c"
  by (auto simp: handle_request_timeout_eq Let_def handles_def)

lemma handles_simps [simp]:
  "handles (begin_pass now c) = handles c" "handles (stop_running c) = handles c"
  "handles (drain_wake_pipe c) = handles c" "handles (wake_io_thread c) = handles c"
  "handles (store_channel ch c) = handles c" "handles (on_timeout r c) = handles c"
  "handles (clear_pending_work c) = handles c" "handles (c\<lparr>in_flight_request := flight\<rparr>) = handles c"
  "handles (fst (dequeue_due_watchdog_command now c)) = handles c" "handles (fst (dequeue_command c)) = handles c"
  "handles (fst (dequeue_ready_query now c)) = handles c" "handles (fst (enqueue_command now pkt refresh c)) = handles c"
  "handles (fst (submit_query io now pkt cid dl stop c)) = handles c"
  by (simp_all add: handles_def begin_pass_def stop_running_def drain_wake_pipe_def wake_io_thread_def store_channel_def
      on_timeout_def clear_pending_work_eq dequeue_due_watchdog_command_def dequeue_command_def dequeue_ready_query_eq
      enqueue_command_def submit_query_def Let_def split: option.split poll_kind.split)

lemma handles_dequeues:
  "dequeue_due_watchdog_command now c = (c', w) \<Longrightarrow> handles c' = handles c"
  "dequeue_command c = (c', w) \<Longrightarrow> handles c' = handles c"
  "dequeue_ready_query now c = (c', r) \<Longrightarrow> handles c' = handles c"
  using handles_simps(9-11) by (metis fst_conv)+

lemma handles_io: "io_step (pc, c) (pc', c') \<Longrightarrow> handles c' = handles c"
  by (cases rule: io_step.cases, assumption)
    (auto simp: after_write_def simp del: feed_one.simps dest!: handles_timeout handles_read handles_feed_one handles_write handles_dequeues split: if_splits prod.splits)

lemma handles_api: "api_step c c' \<Longrightarrow> handles c' = handles c"
  by (induction rule: api_step.induct)
    (simp_all add: set_rpm_def set_duty_def set_current_def set_current_brake_def set_servo_pos_def Let_def
      set_app_output_disabled_def enqueue_control_command_def set_motor_poll_interval_def set_imu_poll_interval_def
      disconnect_signal_def, simp_all add: handles_def)

lemma handles_system: "system_step (pc, c) (pc', c') \<Longrightarrow> handles c' = handles c"
  by (auto elim!: system_step.cases dest: handles_io handles_api)

section \<open>Opening and closing\<close>

definition held :: "client \<Rightarrow> int set" where
  "held c = {d \<in> {fd c, fst (wake_pipe c), snd (wake_pipe c)}. 0 \<le> d}"

definition distinct_handles :: "client \<Rightarrow> bool" where
  "distinct_handles c \<longleftrightarrow>
     (0 \<le> fd c \<longrightarrow> fd c \<noteq> fst (wake_pipe c) \<and> fd c \<noteq> snd (wake_pipe c)) \<and>
     (0 \<le> fst (wake_pipe c) \<longrightarrow> fst (wake_pipe c) \<noteq> snd (wake_pipe c))"

text \<open>No connection: nothing is open, nothing is queued, nobody waits.\<close>

definition quiet :: "client \<Rightarrow> bool" where
  "quiet c \<longleftrightarrow> client_ok c \<and> \<not> running c \<and> \<not> io_thread c \<and> held c = {} \<and> outstanding c = [] \<and> command_queue c = []"

text \<open>A connection: three open descriptors that do not block.\<close>

definition live :: "kernel \<Rightarrow> client \<Rightarrow> bool" where
  "live k c \<longleftrightarrow> held c = {fd c, fst (wake_pipe c), snd (wake_pipe c)} \<and> held c \<subseteq> set (nonblocking k)"

lemma held_cong: "handles c' = handles c \<Longrightarrow> held c' = held c" "handles c' = handles c \<Longrightarrow> distinct_handles c' = distinct_handles c"
  "handles c' = handles c \<Longrightarrow> live k c' = live k c"
  by (auto simp: handles_def held_def distinct_handles_def live_def)

lemma held_negative: "held c = {} \<Longrightarrow> fd c < 0 \<and> fst (wake_pipe c) < 0 \<and> snd (wake_pipe c) < 0"
  by (auto simp: held_def not_le)

lemma client_ok_handles:
  "client_ok (c\<lparr>fd := d, wake_pipe := p\<rparr>) = client_ok c" "client_ok (c\<lparr>fd := d\<rparr>) = client_ok c"
  "client_ok (c\<lparr>io_thread := b\<rparr>) = client_ok c"
  by (rule client_ok_cong; simp)+

lemma close_member_eq: "close_member d k = (close_fd d k, if 0 \<le> d then - 1 else d)"
  by (simp add: close_member_def close_fd_def)

lemma cleanup_eq:
  "cleanup_transport_state k c =
     (close_fd (snd (wake_pipe c)) (close_fd (fst (wake_pipe c)) (close_fd (fd c) k)),
      (clear_pending_work (c\<lparr>io_thread := False\<rparr>))\<lparr>fd := min (fd c) (- 1), wake_pipe := (min (fst (wake_pipe c)) (- 1), min (snd (wake_pipe c)) (- 1))\<rparr>)"
  by (simp add: cleanup_transport_state_def close_member_eq Let_def clear_pending_work_eq min_def)

lemma cleanup_quiet:
  assumes "holds k (held c)" "distinct_handles c" "client_ok c" "\<not> running c"
    and "cleanup_transport_state k c = (k', c')"
  shows "holds k' {} \<and> quiet c'"
proof -
  have "holds k' {}"
    using assms(1,2,5) fds.close_three [of k "fd c" "fst (wake_pipe c)" "snd (wake_pipe c)"]
    by (auto simp: cleanup_eq held_def distinct_handles_def)
  moreover have "client_ok c'"
    using assms(3,5) client_ok_clear [of "c\<lparr>io_thread := False\<rparr>"] by (auto simp: cleanup_eq client_ok_handles)
  ultimately show ?thesis
    using assms(4,5) by (auto simp: quiet_def cleanup_eq clear_pending_work_eq held_def outstanding_def in_flight_list_def)
qed

text \<open>What an attempt to open leaves: at most the one descriptor that \<open>fd_\<close> names.\<close>

definition opened_as :: "client \<Rightarrow> client \<Rightarrow> bool" where
  "opened_as c c' \<longleftrightarrow> (\<exists>path. c' = c\<lparr>fd := fd c', cfg := (cfg c)\<lparr>device_path := path\<rparr>\<rparr>)"

lemma opened_asI: "opened_as c c" "opened_as c (c\<lparr>fd := d\<rparr>)"
  "opened_as c (c\<lparr>cfg := (cfg c)\<lparr>device_path := path\<rparr>, fd := d\<rparr>)"
proof -
  have *: "cfg c = (cfg c)\<lparr>device_path := device_path (cfg c)\<rparr>" by simp
  show "opened_as c c" "opened_as c (c\<lparr>fd := d\<rparr>)"
    unfolding opened_as_def by (rule exI [of _ "device_path (cfg c)"], simp)+
  show "opened_as c (c\<lparr>cfg := (cfg c)\<lparr>device_path := path\<rparr>, fd := d\<rparr>)"
    unfolding opened_as_def by (rule exI [of _ path]) simp
qed

lemma holds_nonblocking [simp]: "holds (k\<lparr>nonblocking := xs\<rparr>) ds = holds k ds" "holds (k\<lparr>tty_of := m\<rparr>) ds = holds k ds"
  by (simp_all add: holds_def)

lemma open_serial_holds:
  assumes "holds k {}" "open_serial out rate d k = (k', d', ok)"
  shows "if ok then 0 \<le> d' \<and> holds k' {d'} else d' = d \<and> holds k' {}"
proof -
  obtain k1 n where n: "new_fd k = (k1, n)" by (cases "new_fd k")
  have "holds k1 {n} \<and> 0 \<le> n" "holds (close_fd n (k1\<lparr>nonblocking := n # nonblocking k1\<rparr>)) {}"
    using fds.new_law [OF assms(1) n] fds.close_law [of "k1\<lparr>nonblocking := n # nonblocking k1\<rparr>" "{n}" n] by auto
  with assms n show ?thesis
    by (auto simp: open_serial_def Let_def split: option.splits if_splits)
qed

lemma open_transport_holds:
  assumes "holds k {}" "fd c < 0" "open_transport env k c = (k', c', ok)"
  shows "holds k' (if 0 \<le> fd c' then {fd c'} else {}) \<and> opened_as c c' \<and> (\<not> ok \<longrightarrow> fd c' < 0)"
proof (cases "has_open_serial_fn (cfg c)")
  case True
  have "0 \<le> d \<Longrightarrow> holds (adopt_fd d k) {d}" "\<not> 0 \<le> d \<Longrightarrow> holds (adopt_fd d k) {}"
    "0 \<le> d \<Longrightarrow> holds (close_fd d (adopt_fd d k)) {}" for d
    using adopt_holds [OF assms(1), of d] fds.close_valid [of "adopt_fd d k" "{}" d] by simp_all
  with assms True show ?thesis
    by (auto simp: open_transport_def open_custom_def Let_def opened_asI split: if_splits option.splits)
next
  case False
  then have ot: "open_builtin env k c = (k', c', ok)" using assms(3) by (simp add: open_transport_def)
  show ?thesis
  proof (cases "device_path (cfg c) = [] \<and> find_devices (glob_result env) = []")
    case True
    then show ?thesis using ot assms by (auto simp: open_builtin_def Let_def opened_asI)
  next
    case False
    define c1 where "c1 = (if device_path (cfg c) = [] then c\<lparr>cfg := (cfg c)\<lparr>device_path := hd (find_devices (glob_result env))\<rparr>\<rparr> else c)"
    obtain k1 d o1 where os: "open_serial (device env (device_path (cfg c1))) (baud (cfg c1)) (fd c1) k = (k1, d, o1)"
      by (metis prod_cases3)
    have "fd c1 = fd c" by (simp add: c1_def)
    from open_serial_holds [OF assms(1) os] have "holds k1 (if 0 \<le> d then {d} else {}) \<and> (\<not> o1 \<longrightarrow> d < 0)"
      using assms(2) \<open>fd c1 = fd c\<close> by (auto split: if_splits)
    moreover have "k' = k1 \<and> c' = c1\<lparr>fd := d\<rparr> \<and> ok = o1"
      using ot False os by (auto simp: open_builtin_def Let_def c1_def split: if_splits)
    ultimately show ?thesis using opened_asI by (auto simp: c1_def)
  qed
qed

lemma set_nonblocking_holds:
  "set_nonblocking answers d k = (k', ok) \<Longrightarrow>
     \<exists>xs. k' = k\<lparr>nonblocking := xs\<rparr> \<and> set (nonblocking k) \<subseteq> set xs \<and> (ok \<longrightarrow> d \<in> set xs \<and> d \<in> set (own_fds k))"
  by (auto simp: set_nonblocking_def split: if_splits intro: exI [of _ "d # nonblocking k"] exI [of _ "nonblocking k"])

lemma set_all_nonblocking_holds:
  assumes "set_all_nonblocking env k c = (k', ok)"
  shows "\<exists>xs. k' = k\<lparr>nonblocking := xs\<rparr> \<and>
    (ok \<longrightarrow> {fd c, fst (wake_pipe c), snd (wake_pipe c)} \<subseteq> set xs \<inter> set (own_fds k))"
proof -
  obtain k1 o1 where 1: "set_nonblocking (fcntl_fd env) (fd c) k = (k1, o1)" by fastforce
  obtain k2 o2 where 2: "set_nonblocking (fcntl_read_end env) (fst (wake_pipe c)) k1 = (k2, o2)" by fastforce
  obtain k3 o3 where 3: "set_nonblocking (fcntl_write_end env) (snd (wake_pipe c)) k2 = (k3, o3)" by fastforce
  obtain x1 x2 x3 where "k1 = k\<lparr>nonblocking := x1\<rparr>" "k2 = k\<lparr>nonblocking := x2\<rparr>" "k3 = k\<lparr>nonblocking := x3\<rparr>"
    "set x1 \<subseteq> set x2" "set x2 \<subseteq> set x3" "o1 \<longrightarrow> fd c \<in> set x1 \<inter> set (own_fds k)"
    "o2 \<longrightarrow> fst (wake_pipe c) \<in> set x2 \<inter> set (own_fds k)" "o3 \<longrightarrow> snd (wake_pipe c) \<in> set x3 \<inter> set (own_fds k)"
    using set_nonblocking_holds [OF 1] set_nonblocking_holds [OF 2] set_nonblocking_holds [OF 3] by fastforce
  then show ?thesis
    using assms 1 2 3 by (auto simp: set_all_nonblocking_def split: if_splits)
qed

text \<open>A client with other handles.\<close>

definition rewired :: "client \<Rightarrow> client \<Rightarrow> bool" where
  "rewired c c' \<longleftrightarrow> c' = c\<lparr>fd := fd c', wake_pipe := wake_pipe c', wake_pending := wake_pending c'\<rparr>"

lemma none_held: "fd c < 0 \<Longrightarrow> fst (wake_pipe c) < 0 \<Longrightarrow> snd (wake_pipe c) < 0 \<Longrightarrow> held c = {}"
  by (auto simp: held_def)

lemma open_wake_pipe_holds:
  assumes "holds k (if 0 \<le> fd c then {fd c} else {})" "open_wake_pipe env k c = (k', c', ok)"
    and "fst (wake_pipe c) < 0" "snd (wake_pipe c) < 0"
  shows "rewired c c' \<and> holds k' (held c') \<and> distinct_handles c'
    \<and> (if ok then live k' c' else held c' = {})"
proof (cases "pipe_ok env")
  case False
  then have "c' = c\<lparr>fd := - 1\<rparr>" "k' = close_fd (fd c) k" "\<not> ok" using assms(2) by (simp_all add: open_wake_pipe_def)
  with assms fds.close_valid [of k "{}" "fd c"] show ?thesis
    by (simp add: none_held rewired_def distinct_handles_def)
next
  case True
  obtain k1 r k2 w where n: "new_fd k = (k1, r)" "new_fd k1 = (k2, w)" by fastforce
  let ?c = "c\<lparr>wake_pipe := (r, w), wake_pending := False\<rparr>"
  have h: "holds k2 (held ?c)" "distinct_handles ?c" "0 \<le> r" "0 \<le> w"
    using fds.new_two [OF assms(1) n]
    by (auto simp: held_def distinct_handles_def conj_disj_distribR Collect_disj_eq insert_commute Collect_conv_if
        split: if_splits)
  obtain k3 set3 where a: "set_all_nonblocking env k2 ?c = (k3, set3)" by fastforce
  from set_all_nonblocking_holds [OF a] obtain xs
    where xs: "k3 = k2\<lparr>nonblocking := xs\<rparr>" "set3 \<longrightarrow> {fd c, r, w} \<subseteq> set xs \<inter> set (own_fds k2)" by auto
  have k3: "holds k3 (held ?c)" using h(1) xs(1) by simp
  show ?thesis
  proof (cases set3)
    case True
    have "live k3 ?c" using xs True h by (auto simp: live_def held_def holds_def)
    with k3 h(2) True \<open>pipe_ok env\<close> assms(2) n a show ?thesis
      by (auto simp: open_wake_pipe_def Let_def rewired_def)
  next
    case False
    have "holds (close_fd w (close_fd r (close_fd (fd c) k3))) {}"
      using k3 h(2) by (intro fds.close_three) (auto simp: held_def distinct_handles_def)
    with False \<open>pipe_ok env\<close> assms(2) n a show ?thesis
      by (auto simp: open_wake_pipe_def Let_def none_held rewired_def distinct_handles_def)
  qed
qed

lemma watchdog_device_path: "control_watchdog_enabled (config\<lparr>device_path := path\<rparr>) = control_watchdog_enabled config"
  by (cases "command_watchdog_action config") (simp_all add: control_watchdog_enabled_def)

lemma client_ok_opened: "opened_as c c' \<Longrightarrow> client_ok c' = client_ok c"
proof -
  assume "opened_as c c'"
  then obtain path where "c' = c\<lparr>fd := fd c', cfg := (cfg c)\<lparr>device_path := path\<rparr>\<rparr>" by (auto simp: opened_as_def)
  moreover have "client_ok (c\<lparr>fd := d, cfg := (cfg c)\<lparr>device_path := path\<rparr>\<rparr>) = client_ok c" for d
    unfolding client_ok_def channels_ok_def
    by (subst requests_ok_cong [of "c\<lparr>fd := d, cfg := (cfg c)\<lparr>device_path := path\<rparr>\<rparr>" c])
      (simp_all add: watchdog_device_path)
  ultimately show ?thesis by metis
qed

lemma quiet_opened: "quiet c \<Longrightarrow> opened_as c c' \<Longrightarrow> fd c' < 0 \<Longrightarrow> quiet c'"
proof -
  assume a: "quiet c" "opened_as c c'" "fd c' < 0"
  then obtain path where c': "c' = c\<lparr>fd := fd c', cfg := (cfg c)\<lparr>device_path := path\<rparr>\<rparr>" by (auto simp: opened_as_def)
  have "client_ok c'" using a client_ok_opened by (simp add: quiet_def)
  moreover have "held c' = {}" using a(1,3) held_negative [of c] by (subst c') (auto simp: quiet_def held_def)
  moreover have "\<not> running c' \<and> \<not> io_thread c' \<and> outstanding c' = [] \<and> command_queue c' = []"
    using a(1) by (subst (1 2 3 4) c') (simp add: quiet_def outstanding_def in_flight_list_def)
  ultimately show ?thesis by (simp add: quiet_def)
qed

lemma client_ok_rewired: "rewired c c' \<Longrightarrow> client_ok c' = client_ok c"
proof -
  assume "rewired c c'"
  then have "c' = c\<lparr>fd := fd c', wake_pipe := wake_pipe c', wake_pending := wake_pending c'\<rparr>" by (simp add: rewired_def)
  moreover have "client_ok (c\<lparr>fd := d, wake_pipe := p, wake_pending := b\<rparr>) = client_ok c" for d p b
    by (rule client_ok_cong) simp_all
  ultimately show ?thesis by metis
qed

lemma started_reset:
  assumes "client_ok c"
  shows "started (LoopTop, reset_connection now c)" "handles (reset_connection now c) = handles c"
proof -
  let ?c = "c\<lparr>parser := parser_reset (parser c), imu_data_cache := None, motor_state_cache := None\<rparr>"
  have "client_ok ?c"
    using assms requests_ok_cong [of ?c c] by (simp add: client_ok_def channels_ok_def parser_reset_def)
  from client_ok_clear [OF this] show "started (LoopTop, reset_connection now c)"
    by (auto simp: started_def reset_connection_def Let_def client_ok_def channels_ok_def)
      (auto simp: requests_ok_def owned_def outstanding_def in_flight_list_def)
  show "handles (reset_connection now c) = handles c"
    by (simp add: reset_connection_def Let_def handles_def clear_pending_work_eq)
qed

lemma rewiredE:
  assumes "rewired c c'"
  obtains d p b where "c' = c\<lparr>fd := d, wake_pipe := p, wake_pending := b\<rparr>"
  using assms unfolding rewired_def by blast

lemma opened_asE:
  assumes "opened_as c c'"
  obtains d path where "c' = c\<lparr>fd := d, cfg := (cfg c)\<lparr>device_path := path\<rparr>\<rparr>"
  using assms unfolding opened_as_def by blast

lemma quiet_rewired: "quiet c \<Longrightarrow> opened_as c c1 \<Longrightarrow> rewired c1 c' \<Longrightarrow> held c' = {} \<Longrightarrow> quiet c'"
  using client_ok_opened [of c c1] client_ok_rewired [of c1 c']
  by (auto simp: quiet_def outstanding_def in_flight_list_def elim!: rewiredE opened_asE)

lemma connect_eq:
  assumes "\<not> running c" "cleanup_transport_state k c = (k1, c1)" "open_transport env k1 c1 = (k2, c2, opened)"
    "open_wake_pipe env k2 c2 = (k3, c3, ready)"
  shows "connect_client False env k c =
      (if \<not> opened then (k2, c2, Returns False) else if \<not> ready then (k3, c3, Returns False)
       else (k3, reset_connection (connect_time env) c3, CreatesThread))"
  using assms by (simp add: connect_client_def)

lemma connect_outcome:
  assumes "holds k (held c)" "distinct_handles c" "client_ok c" "\<not> running c"
    and "connect_client False env k c = (k', c', progress)"
  shows "holds k' (held c') \<and> distinct_handles c' \<and>
    (case progress of
       Returns b \<Rightarrow> \<not> b \<and> quiet c'
     | CreatesThread \<Rightarrow> started (LoopTop, c') \<and> live k' c' \<and> \<not> io_thread c')"
proof -
  obtain k1 c1 where 1: "cleanup_transport_state k c = (k1, c1)" by fastforce
  obtain k2 c2 opened where 2: "open_transport env k1 c1 = (k2, c2, opened)" by (metis prod_cases3)
  obtain k3 c3 ready where 3: "open_wake_pipe env k2 c2 = (k3, c3, ready)" by (metis prod_cases3)
  have q: "holds k1 {}" "quiet c1" using cleanup_quiet [OF assms(1-4) 1] by auto
  then have n: "fd c1 < 0" "fst (wake_pipe c1) < 0" "snd (wake_pipe c1) < 0"
    using held_negative by (auto simp: quiet_def)
  have o: "holds k2 (if 0 \<le> fd c2 then {fd c2} else {})" "opened_as c1 c2" "\<not> opened \<longrightarrow> fd c2 < 0"
    using open_transport_holds [OF q(1) n(1) 2] by auto
  have wp: "wake_pipe c2 = wake_pipe c1" using o(2) by (auto elim: opened_asE)
  have w: "rewired c2 c3" "holds k3 (held c3)" "distinct_handles c3" "if ready then live k3 c3 else held c3 = {}"
    using open_wake_pipe_holds [OF o(1) 3] n(2,3) wp by auto
  note res = connect_eq [OF assms(4) 1 2 3]
  have ok3: "client_ok c3" "io_thread c3 = io_thread c1"
    using q(2) client_ok_opened [OF o(2)] client_ok_rewired [OF w(1)] o(2) w(1)
    by (auto simp: quiet_def elim!: rewiredE opened_asE)
  consider "\<not> opened" | "opened" "\<not> ready" | "opened" "ready" by blast
  then show ?thesis
  proof cases
    case 1
    then have "quiet c2" using quiet_opened [OF q(2) o(2)] o(3) by blast
    with 1 res assms(5) o(1,3) show ?thesis
      using held_negative [of c2] by (auto simp: quiet_def distinct_handles_def)
  next
    case 2
    with res assms(5) w quiet_rewired [OF q(2) o(2) w(1)] show ?thesis by auto
  next
    case 3
    let ?c = "reset_connection (connect_time env) c3"
    have h: "handles ?c = handles c3" by (rule started_reset [OF ok3(1)])
    with 3 res assms(5) w held_cong [OF h] started_reset(1) [OF ok3(1)] ok3(2) q(2) show ?thesis
      by (auto simp: quiet_def handles_def)
  qed
qed

section \<open>The invariant of the life cycle\<close>

fun life_ok :: "life \<Rightarrow> bool" where
  "life_ok (k, phase, c) \<longleftrightarrow>
     holds k (held c) \<and> distinct_handles c \<and>
     (case phase of
        NoThread \<Rightarrow> quiet c
      | Starting \<Rightarrow> client_ok c \<and> running c \<and> sent c = [] \<and> live k c \<and> \<not> io_thread c
      | Threaded pc \<Rightarrow> system_ok (pc, c) \<and> live k c \<and> io_thread c)"

lemma life_ok_joined:
  "life_ok (k, phase, c) \<Longrightarrow> joined phase \<Longrightarrow> holds k (held c) \<and> distinct_handles c \<and> client_ok c \<and> \<not> running c"
  by (auto simp: joined_def quiet_def system_ok_def)

lemma quiet_life: "holds k {} \<Longrightarrow> quiet c \<Longrightarrow> life_ok (k, NoThread, c)"
  using held_negative [of c] by (auto simp: quiet_def distinct_handles_def)

lemma quiet_api: "quiet c \<Longrightarrow> api_step c c' \<Longrightarrow> quiet c'"
  using api_step_frame [of c c'] client_ok_api [of c c'] held_cong(1) [OF handles_api [of c c']] handles_api [of c c']
  by (auto simp: quiet_def handles_def)

lemma system_ok_step: "system_step (pc, c) (pc', c') \<Longrightarrow> system_ok (pc, c) \<Longrightarrow> system_ok (pc', c')"
  using client_system.step_inv by blast

lemma life_ok_step: "life_step s t \<Longrightarrow> life_ok s \<Longrightarrow> life_ok t"
proof (induction rule: life_step.induct)
  case (Thread pc c pc' c' k)
  have h: "handles c' = handles c" by (rule handles_system [OF Thread.hyps])
  with Thread.prems system_ok_step [OF Thread.hyps] held_cong [OF h] show ?case by (auto simp: handles_def)
next
  case (Call c c' phase k)
  have h: "handles c' = handles c" by (rule handles_api [OF Call.hyps(1)])
  from Call.hyps(2) show ?case
  proof
    assume "phase = NoThread"
    with Call quiet_api [OF _ Call.hyps(1)] held_cong [OF h] show ?case by auto
  next
    assume "phase = Starting \<and> running c'"
    with Call.prems client_ok_api [OF Call.hyps(1)] api_step_frame [OF Call.hyps(1)] held_cong [OF h] h show ?case
      by (auto simp: handles_def)
  qed
next
  case (ConnectFails phase c env k k' c' b)
  with connect_outcome [of k c env k' c' "Returns b"] life_ok_joined [OF ConnectFails.prems ConnectFails.hyps(1)]
  show ?case by simp
next
  case (ConnectReady phase c env k k' c')
  with connect_outcome [of k c env k' c' CreatesThread] life_ok_joined [OF ConnectReady.prems ConnectReady.hyps(1)]
  show ?case by (auto simp: started_def)
next
  case (Created created k c k' c' ok)
  show ?case
  proof (cases created)
    case True
    let ?c = "c\<lparr>io_thread := True\<rparr>"
    have res: "k' = k" "c' = ?c" "ok" using Created.hyps True by (simp_all add: create_thread_def)
    have same: "held ?c = held c" "distinct_handles ?c = distinct_handles c" "live k ?c = live k c"
      by (simp_all add: held_def distinct_handles_def live_def)
    have "system_ok (LoopTop, ?c)"
      using Created.prems by (intro client_system.initial_inv) (simp add: started_def client_ok_handles)
    then show ?thesis using Created.prems by (simp add: res same)
  next
    case False
    let ?c = "c\<lparr>running := False\<rparr>"
    have "held ?c = held c" "distinct_handles ?c = distinct_handles c" by (simp_all add: held_def distinct_handles_def)
    with Created.prems have "holds k (held ?c)" "distinct_handles ?c" "client_ok ?c" "\<not> running ?c" by simp_all
    then have "holds k1 {} \<and> quiet c1" if "cleanup_transport_state k ?c = (k1, c1)" for k1 c1
      using cleanup_quiet that by blast
    then have "life_ok (k', NoThread, c')" "\<not> ok"
      using Created.hyps False by (auto simp: create_thread_def simp del: life_ok.simps intro!: quiet_life split: prod.splits)
    then show ?thesis by simp
  qed
next
  case (Disconnected phase c k k' c')
  then show ?case
    using life_ok_joined [OF Disconnected.prems Disconnected.hyps(1)] cleanup_quiet [of k c k' c'] quiet_life by blast
next
  case (Others fds' k phase c)
  then show ?case by (cases phase) (auto simp: holds_def live_def)
qed

definition fresh_process :: "life \<Rightarrow> bool" where
  "fresh_process s \<longleftrightarrow>
     (\<exists>k config. s = (k, NoThread, new_client config) \<and> own_fds k = [] \<and> \<not> stray_close k \<and> alloc_ok k)"

lemma quiet_new: "quiet (new_client config)"
  using client_ok_new [of config]
  by (auto simp: quiet_def) (auto simp: new_client_def held_def outstanding_def in_flight_list_def)

interpretation life_cycle: step_invariant fresh_process life_step life_ok
proof
  show "life_ok s" if "fresh_process s" for s
    using that quiet_life [OF _ quiet_new] by (auto simp: fresh_process_def holds_def simp del: life_ok.simps)
  show "life_ok t" if "life_step s t" "life_ok s" for s t
    using that by (rule life_ok_step)
qed

text \<open>
  C35: Over any sequence of connections, failed connections, transport failures and disconnects,
  interleaved with the I/O thread, with other callers and with the rest of the process: no
  descriptor is leaked and none is closed that the client does not own, so no descriptor of the
  rest of the process is ever closed (one that a custom opener stores is the client's from then on).
  Without a connection nothing is open and nobody waits for
  a reply; while the I/O thread exists its three descriptors are open, distinct and non-blocking,
  which the draining of the wake pipe requires.
\<close>

theorem connection_descriptors:
  assumes "fresh_process s" "life_step\<^sup>*\<^sup>* s (k, phase, c)"
  shows "\<not> stray_close k \<and> set (own_fds k) = {d \<in> {fd c, fst (wake_pipe c), snd (wake_pipe c)}. 0 \<le> d}
    \<and> set (own_fds k) \<inter> set (foreign_fds k) = {}
    \<and> (if phase = NoThread
       then own_fds k = [] \<and> \<not> is_connected c \<and> (\<forall>q < length (queries c). query_result q c \<noteq> None)
       else distinct [fd c, fst (wake_pipe c), snd (wake_pipe c)]
         \<and> {fd c, fst (wake_pipe c), snd (wake_pipe c)} \<subseteq> set (own_fds k) \<inter> set (nonblocking k))"
proof -
  have ok: "life_ok (k, phase, c)" by (rule life_cycle.reachable_inv [OF assms])
  then have h: "holds k (held c)" "distinct_handles c" by simp_all
  show ?thesis
  proof (cases "phase = NoThread")
    case True
    with ok have q: "quiet c" by simp
    then show ?thesis
      using True h idle_completed [of c] held_negative [of c] by (auto simp: quiet_def holds_def is_connected_def)
  next
    case False
    with ok have "live k c" by (cases phase) auto
    with False h show ?thesis by (auto simp: holds_def live_def held_def distinct_handles_def)
  qed
qed

text \<open>A process whose descriptors 0 to 2 are in use connects to a device that answers every call.\<close>

definition example_tty :: termios where
  "example_tty = \<lparr>tty_flags = [ICANON, ECHO, ICRNL, IXON], character_bits = 7, ispeed = None, ospeed = None, vmin = 0, vtime = 5\<rparr>"

text \<open>The flags that the manual of \<open>cfmakeraw\<close> lists as cleared, and its effect as documented.\<close>

definition cooked_flags :: "tty_flag set" where
  "cooked_flags =
     {IGNBRK, BRKINT, PARMRK, ISTRIP, INLCR, IGNCR, ICRNL, IXON, OPOST, ECHO, ECHONL, ICANON, ISIG, IEXTEN, PARENB}"

definition example_raw :: "termios \<Rightarrow> termios" where
  "example_raw tty = tty\<lparr>tty_flags := filter (\<lambda>f. f \<notin> cooked_flags) (tty_flags tty), character_bits := 8\<rparr>"

text \<open>The usual choice of a descriptor: the lowest that is not open.\<close>

definition lowest_free :: "int list \<Rightarrow> int" where
  "lowest_free used = hd (filter (\<lambda>d. d \<notin> set used) (map int [0..<Suc (length used)]))"

lemma lowest_free: "0 \<le> lowest_free used \<and> lowest_free used \<notin> set used"
proof -
  let ?ds = "map int [0..<Suc (length used)]"
  have "card (set ?ds) = Suc (length used)" by (simp add: card_image del: upt_Suc)
  with card_length [of used] have "\<not> set ?ds \<subseteq> set used" by (metis card_mono finite_set le_trans not_less_eq_eq)
  then have "filter (\<lambda>d. d \<notin> set used) ?ds \<noteq> []" by (auto simp: filter_empty_conv simp del: upt_Suc)
  from hd_in_set [OF this] show ?thesis by (auto simp: lowest_free_def)
qed

definition example_env :: connect_env where
  "example_env =
     \<lparr>opener = \<lparr>stored_fd = None, returned = None\<rparr>,
      glob_result = (\<lambda>pattern. if pattern = ''/dev/ttyACM*'' then Some [''/dev/ttyACM0''] else None),
      device = (\<lambda>_. \<lparr>open_ok = True, tcgetattr_result = Some example_tty, cfsetispeed_ok = True,
                   cfsetospeed_ok = True, cfmakeraw_result = example_raw, tcsetattr_ok = True\<rparr>),
      pipe_ok = True, fcntl_fd = (True, True), fcntl_read_end = (True, True), fcntl_write_end = (True, True),
      connect_time = 0\<rparr>"

definition example_kernel :: kernel where
  "example_kernel = \<lparr>own_fds = [], foreign_fds = [0, 1, 2], nonblocking = [], tty_of = Map.empty, stray_close = False, alloc = lowest_free\<rparr>"

lemma example_fresh: "fresh_process (example_kernel, NoThread, new_client config)"
  by (auto simp: fresh_process_def example_kernel_def alloc_ok_def lowest_free)

lemmas connect_defs =
  connect_client_def cleanup_transport_state_def close_member_def open_transport_def open_builtin_def open_serial_def
  open_wake_pipe_def set_all_nonblocking_def set_nonblocking_def new_fd_def close_fd_def find_devices_def baud_to_constant_def

lemma example_connects:
  "\<exists>k c. connect_client False example_env example_kernel (new_client default_controller_config) = (k, c, CreatesThread)
     \<and> own_fds k = [5, 4, 3]"
  by (simp add: connect_defs example_env_def example_kernel_def new_client_def default_controller_config_def
      clear_pending_work_eq lowest_free_def Let_def)

theorem connection_descriptors_witness:
  "\<exists>k c. life_step\<^sup>*\<^sup>* (example_kernel, NoThread, new_client default_controller_config) (k, Threaded LoopTop, c)
     \<and> distinct [fd c, fst (wake_pipe c), snd (wake_pipe c)] \<and> set (own_fds k) = {3, 4, 5}"
proof -
  let ?s = "(example_kernel, NoThread, new_client default_controller_config)"
  obtain k c where r: "connect_client False example_env example_kernel (new_client default_controller_config) = (k, c, CreatesThread)"
    "own_fds k = [5, 4, 3]" using example_connects by blast
  have f: "fresh_process ?s" by (rule example_fresh)
  have "life_step ?s (k, Starting, c)"
    by (rule life_step.ConnectReady [OF _ _ r(1)]) (simp_all add: joined_def new_client_def)
  moreover have "life_step (k, Starting, c) (k, Threaded LoopTop, c\<lparr>io_thread := True\<rparr>)"
    using life_step.Created [of True k c] by (simp add: create_thread_def)
  ultimately have steps: "life_step\<^sup>*\<^sup>* ?s (k, Threaded LoopTop, c\<lparr>io_thread := True\<rparr>)" by (meson rtranclp.simps)
  from connection_descriptors [OF f steps] steps r(2) show ?thesis
    by (intro exI [of _ k] exI [of _ "c\<lparr>io_thread := True\<rparr>"]) auto
qed

section \<open>When a connection is made\<close>

text \<open>The line settings: those that the device had, with both speeds as configured, made raw by the C
  library, and then the modem lines ignored, the receiver on, and reads that return single bytes.\<close>

definition line_settings :: "serial_outcome \<Rightarrow> speed \<Rightarrow> termios" where
  "line_settings out baud_const =
     (let tty = cfmakeraw_result out ((the (tcgetattr_result out))\<lparr>ispeed := Some baud_const, ospeed := Some baud_const\<rparr>)
      in tty\<lparr>tty_flags := CLOCAL # CREAD # tty_flags tty, vmin := 1, vtime := 0\<rparr>)"

text \<open>What the manual says of \<open>cfmakeraw\<close>: eight bits, the listed flags cleared, the speeds not touched.\<close>

definition cfmakeraw_documented :: "(termios \<Rightarrow> termios) \<Rightarrow> bool" where
  "cfmakeraw_documented raw \<longleftrightarrow>
     (\<forall>tty. ispeed (raw tty) = ispeed tty \<and> ospeed (raw tty) = ospeed tty \<and> character_bits (raw tty) = 8
        \<and> set (tty_flags (raw tty)) = set (tty_flags tty) - cooked_flags)"

definition raw_line :: "speed \<Rightarrow> termios \<Rightarrow> bool" where
  "raw_line baud_const tty \<longleftrightarrow>
     ispeed tty = Some baud_const \<and> ospeed tty = Some baud_const \<and> character_bits tty = 8 \<and>
     {CLOCAL, CREAD} \<subseteq> set (tty_flags tty) \<and> set (tty_flags tty) \<inter> cooked_flags = {} \<and> vmin tty = 1 \<and> vtime tty = 0"

lemma line_settings_raw: "cfmakeraw_documented (cfmakeraw_result out) \<Longrightarrow> raw_line b (line_settings out b)"
  by (auto simp: cfmakeraw_documented_def line_settings_def raw_line_def Let_def) (simp_all add: cooked_flags_def)

definition serial_usable :: "serial_outcome \<Rightarrow> bool" where
  "serial_usable out \<longleftrightarrow>
     open_ok out \<and> tcgetattr_result out \<noteq> None \<and> cfsetispeed_ok out \<and> cfsetospeed_ok out \<and> tcsetattr_ok out"

lemma open_serial_outcome:
  assumes "open_serial out rate d k = (k', d', ok)"
  shows "ok \<longleftrightarrow> baud_to_constant rate \<noteq> None \<and> serial_usable out"
    and "ok \<Longrightarrow> tty_of k' d' = Some (line_settings out (the (baud_to_constant rate)))"
proof -
  show "ok \<longleftrightarrow> baud_to_constant rate \<noteq> None \<and> serial_usable out"
    using assms by (auto simp: open_serial_def serial_usable_def Let_def split: option.splits if_splits prod.splits)
  show "ok \<Longrightarrow> tty_of k' d' = Some (line_settings out (the (baud_to_constant rate)))"
    using assms
    by (auto simp: open_serial_def Let_def line_settings_def split: option.splits if_splits prod.splits)
qed

lemma set_nonblocking_outcome:
  "snd (set_nonblocking answers d k) \<longleftrightarrow> answers = (True, True) \<and> d \<in> set (own_fds k)"
  "tty_of (fst (set_nonblocking answers d k)) = tty_of k" "own_fds (fst (set_nonblocking answers d k)) = own_fds k"
  by (cases answers; simp add: set_nonblocking_def)+

lemma set_all_nonblocking_outcome:
  "snd (set_all_nonblocking env k c) \<longleftrightarrow>
     fcntl_fd env = (True, True) \<and> fcntl_read_end env = (True, True) \<and> fcntl_write_end env = (True, True)
     \<and> {fd c, fst (wake_pipe c), snd (wake_pipe c)} \<subseteq> set (own_fds k)"
  "tty_of (fst (set_all_nonblocking env k c)) = tty_of k"
  using set_nonblocking_outcome
  by (auto simp: set_all_nonblocking_def Let_def case_prod_beta)

lemma new_fd_own: "new_fd k = (k', d) \<Longrightarrow> tty_of k' = tty_of k \<and> d \<in> set (own_fds k') \<and> set (own_fds k) \<subseteq> set (own_fds k')"
  by (auto simp: new_fd_def Let_def)

lemma open_wake_pipe_outcome:
  assumes "open_wake_pipe env k c = (k', c', ok)" "fd c \<in> set (own_fds k)"
  shows "ok \<longleftrightarrow> pipe_ok env \<and> fcntl_fd env = (True, True) \<and> fcntl_read_end env = (True, True)
      \<and> fcntl_write_end env = (True, True)"
    and "ok \<Longrightarrow> tty_of k' = tty_of k \<and> fd c' = fd c \<and> cfg c' = cfg c"
proof -
  obtain k1 r k2 w where n: "new_fd k = (k1, r)" "new_fd k1 = (k2, w)" by fastforce
  let ?c = "c\<lparr>wake_pipe := (r, w), wake_pending := False\<rparr>"
  obtain k3 set3 where a: "set_all_nonblocking env k2 ?c = (k3, set3)" by fastforce
  have t: "tty_of k2 = tty_of k" "{fd c, r, w} \<subseteq> set (own_fds k2)"
    using new_fd_own [OF n(1)] new_fd_own [OF n(2)] assms(2) by auto
  have s3: "set3 \<longleftrightarrow> fcntl_fd env = (True, True) \<and> fcntl_read_end env = (True, True) \<and> fcntl_write_end env = (True, True)"
    "tty_of k3 = tty_of k"
    using set_all_nonblocking_outcome [of env k2 ?c] a t by auto
  show "ok \<longleftrightarrow> pipe_ok env \<and> fcntl_fd env = (True, True) \<and> fcntl_read_end env = (True, True)
      \<and> fcntl_write_end env = (True, True)" and "ok \<Longrightarrow> tty_of k' = tty_of k \<and> fd c' = fd c \<and> cfg c' = cfg c"
    using assms(1) n a s3 by (auto simp: open_wake_pipe_def Let_def split: if_splits)
qed

text \<open>The device that a connection uses: the configured one, else the first match of \<open>/dev/ttyACM*\<close>, else
  of \<open>/dev/ttyUSB*\<close>, else of \<open>/dev/cu.usb*\<close>.\<close>

definition matches :: "connect_env \<Rightarrow> string \<Rightarrow> string list" where
  "matches env pattern = (case glob_result env pattern of None \<Rightarrow> [] | Some paths \<Rightarrow> paths)"

definition chosen_device :: "connect_env \<Rightarrow> client \<Rightarrow> string option" where
  "chosen_device env c =
     (if device_path (cfg c) \<noteq> [] then Some (device_path (cfg c))
      else
        case matches env ''/dev/ttyACM*'' @ matches env ''/dev/ttyUSB*'' @ matches env ''/dev/cu.usb*'' of
          [] \<Rightarrow> None | path # _ \<Rightarrow> Some path)"

lemma chosen_device_eq:
  "chosen_device env c =
     (if device_path (cfg c) \<noteq> [] then Some (device_path (cfg c))
      else case find_devices (glob_result env) of [] \<Rightarrow> None | path # _ \<Rightarrow> Some path)"
  by (simp add: chosen_device_def find_devices_def matches_def)

definition device_answers :: "connect_env \<Rightarrow> client \<Rightarrow> bool" where
  "device_answers env c \<longleftrightarrow>
     (\<exists>path. chosen_device env c = Some path \<and> serial_usable (device env path)) \<and> baud_to_constant (baud (cfg c)) \<noteq> None
     \<and> pipe_ok env \<and> fcntl_fd env = (True, True) \<and> fcntl_read_end env = (True, True) \<and> fcntl_write_end env = (True, True)"

lemma open_builtin_outcome:
  assumes "open_builtin env k c = (k', c', ok)"
  shows "ok \<longleftrightarrow> (\<exists>path. chosen_device env c = Some path \<and> serial_usable (device env path)) \<and> baud_to_constant (baud (cfg c)) \<noteq> None"
    and "ok \<Longrightarrow> Some (device_path (cfg c')) = chosen_device env c \<and>
      tty_of k' (fd c') = Some (line_settings (device env (device_path (cfg c'))) (the (baud_to_constant (baud (cfg c)))))"
proof -
  consider "chosen_device env c = None" | path where "chosen_device env c = Some path" by fastforce
  then have "(ok \<longleftrightarrow> (\<exists>path. chosen_device env c = Some path \<and> serial_usable (device env path)) \<and> baud_to_constant (baud (cfg c)) \<noteq> None)
    \<and> (ok \<longrightarrow> Some (device_path (cfg c')) = chosen_device env c \<and>
      tty_of k' (fd c') = Some (line_settings (device env (device_path (cfg c'))) (the (baud_to_constant (baud (cfg c))))))"
  proof cases
    case 1
    then show ?thesis
      using assms by (auto simp: chosen_device_eq open_builtin_def Let_def split: if_splits list.splits)
  next
    case (2 path)
    obtain k1 d o1 where os: "open_serial (device env path) (baud (cfg c)) (fd c) k = (k1, d, o1)" by (metis prod_cases3)
    have "k' = k1 \<and> ok = o1 \<and> fd c' = d \<and> device_path (cfg c') = path"
      using assms 2 os
      by (auto simp: chosen_device_eq open_builtin_def Let_def split: if_splits list.splits prod.splits)
    with open_serial_outcome [OF os] 2 show ?thesis by auto
  qed
  then show "ok \<longleftrightarrow> (\<exists>path. chosen_device env c = Some path \<and> serial_usable (device env path)) \<and> baud_to_constant (baud (cfg c)) \<noteq> None"
    and "ok \<Longrightarrow> Some (device_path (cfg c')) = chosen_device env c \<and>
      tty_of k' (fd c') = Some (line_settings (device env (device_path (cfg c'))) (the (baud_to_constant (baud (cfg c)))))" by auto
qed

lemma open_builtin_valid: "holds k {} \<Longrightarrow> open_builtin env k c = (k', c', True) \<Longrightarrow> 0 \<le> fd c'"
  by (auto simp: open_builtin_def Let_def dest!: open_serial_holds split: if_splits prod.splits)

text \<open>
  C36: On any client whose previous connection has ended and whose configuration names no custom
  opener, \<open>connect\<close> goes on to start the I/O thread exactly when a device path is configured or
  found, the baud rate is one of the supported six and no system call fails.  The device then is the
  configured one or, when none is configured, the first \<open>/dev/ttyACM*\<close>, without one the first
  \<open>/dev/ttyUSB*\<close>, without either the first \<open>/dev/cu.usb*\<close>.  Its line gets the settings it had with both
  speeds as configured, made raw by the C library, then modem lines ignored, receiver on and reads
  of single bytes; if \<open>cfmakeraw\<close> does what its manual says this is a raw eight-bit line at the
  configured rate.  The I/O thread starts in an initial state of the invariant; otherwise \<open>connect\<close>
  returns false with everything closed.
\<close>

theorem connect_exactly:
  assumes "fresh_process s" "life_step\<^sup>*\<^sup>* s (k, phase, c)" "joined phase" "\<not> has_open_serial_fn (cfg c)"
    and "connect_client False env k c = (k', c', progress)"
  shows "if device_answers env c
    then progress = CreatesThread \<and> Some (device_path (cfg c')) = chosen_device env c
      \<and> tty_of k' (fd c') = Some (line_settings (device env (device_path (cfg c'))) (the (baud_to_constant (baud (cfg c)))))
      \<and> (if cfmakeraw_documented (cfmakeraw_result (device env (device_path (cfg c'))))
          then raw_line (the (baud_to_constant (baud (cfg c)))) (the (tty_of k' (fd c'))) else True)
      \<and> started (LoopTop, c')
    else progress = Returns False \<and> own_fds k' = []"
proof -
  have pre: "holds k (held c)" "distinct_handles c" "client_ok c" "\<not> running c"
    using life_ok_joined [OF life_cycle.reachable_inv [OF assms(1,2)] assms(3)] by auto
  obtain k1 c1 where 1: "cleanup_transport_state k c = (k1, c1)" by fastforce
  have cfg1: "cfg c1 = cfg c" using 1 by (auto simp: cleanup_eq clear_pending_work_eq)
  then have same: "chosen_device env c1 = chosen_device env c" by (simp add: chosen_device_def)
  obtain k2 c2 opened where 2: "open_transport env k1 c1 = (k2, c2, opened)" by (metis prod_cases3)
  obtain k3 c3 ready where 3: "open_wake_pipe env k2 c2 = (k3, c3, ready)" by (metis prod_cases3)
  have q: "holds k1 {}" "fd c1 < 0"
    using cleanup_quiet [OF pre 1] held_negative [of c1] by (auto simp: quiet_def)
  have b: "open_builtin env k1 c1 = (k2, c2, opened)" using 2 cfg1 assms(4) by (simp add: open_transport_def)
  note res = connect_eq [OF pre(4) 1 2 3]
  have own: "fd c2 \<in> set (own_fds k2)" if opened
  proof -
    have "0 \<le> fd c2" by (rule open_builtin_valid [OF q(1)]) (use b that in simp)
    with open_transport_holds [OF q 2] have "holds k2 {fd c2}" by simp
    then show ?thesis by (simp add: holds_def)
  qed
  have "(opened \<and> ready) = device_answers env c"
    unfolding device_answers_def
    using open_builtin_outcome(1) [OF b, unfolded same cfg1] open_wake_pipe_outcome(1) [OF 3 own] by blast
  moreover have "Some (device_path (cfg c3)) = chosen_device env c \<and>
      tty_of k3 (fd c3) = Some (line_settings (device env (device_path (cfg c3))) (the (baud_to_constant (baud (cfg c)))))" if "opened" "ready"
    using open_builtin_outcome(2) [OF b, unfolded same cfg1] open_wake_pipe_outcome(2) [OF 3 own] that by simp
  moreover have "cfg (reset_connection t c3) = cfg c3" "fd (reset_connection t c3) = fd c3" for t
    by (simp_all add: reset_connection_def clear_pending_work_eq Let_def)
  ultimately show ?thesis
    using res assms(5) connect_outcome [OF pre assms(5)] line_settings_raw
    by (cases opened; cases ready) (auto simp: quiet_def holds_def)
qed

theorem connect_exactly_witness:
  "\<exists>k c. connect_client False example_env example_kernel (new_client default_controller_config) = (k, c, CreatesThread)
     \<and> device_path (cfg c) = ''/dev/ttyACM0'' \<and> raw_line B115200 (the (tty_of k (fd c)))"
proof -
  let ?c = "new_client default_controller_config"
  obtain k c where r: "connect_client False example_env example_kernel ?c = (k, c, CreatesThread)"
    using example_connects by blast
  note example_fresh [of default_controller_config]
  moreover have "\<not> has_open_serial_fn (cfg ?c)" "joined NoThread"
    by (simp_all add: new_client_def default_controller_config_def joined_def)
  moreover have "device_answers example_env ?c" "chosen_device example_env ?c = Some ''/dev/ttyACM0''"
    "baud_to_constant (baud (cfg ?c)) = Some B115200"
    by (simp_all add: device_answers_def chosen_device_def matches_def example_env_def new_client_def
        default_controller_config_def serial_usable_def baud_to_constant_def)
  moreover have "cfmakeraw_documented (cfmakeraw_result (device example_env path))" for path
    by (auto simp: cfmakeraw_documented_def example_env_def example_raw_def)
  ultimately have "device_path (cfg c) = ''/dev/ttyACM0'' \<and> raw_line B115200 (the (tty_of k (fd c)))"
    using connect_exactly [OF _ rtranclp.rtrancl_refl _ _ r, of NoThread] by (simp add: line_settings_raw)
  with r show ?thesis by blast
qed

text \<open>Nothing bounds the descriptor that \<open>connect\<close> hands to \<open>FD_SET\<close>: in a process that has the first \<open>n\<close>
  descriptors in use, on a system that returns the lowest free one, the device gets descriptor \<open>n\<close>, also when \<open>n\<close> is not below \<open>FD_SETSIZE\<close>.\<close>

lemma serial_descriptor_unbounded:
  assumes "serial_usable out" "baud_to_constant rate \<noteq> None" "own_fds k = []" "foreign_fds k = map int [0..<n]"
    and "alloc k = lowest_free"
  shows "\<exists>k'. open_serial out rate d k = (k', int n, True)"
proof -
  have "filter (\<lambda>d. d \<notin> int ` {0..<n}) (map int [0..<Suc n]) = [int n]"
    by (auto simp: filter_empty_conv)
  then have "alloc k (own_fds k @ foreign_fds k) = int n"
    using assms(3-5) by (simp add: lowest_free_def del: upt_Suc)
  then show ?thesis
    using assms(1,2) by (auto simp: open_serial_def serial_usable_def new_fd_def Let_def)
qed

end
