(* ===== verification/Publication.thy ===== *)
theory Publication
  imports Lifecycle
begin

text \<open>
  What a subscriber gets, over every interleaving of the life cycle: connections that come and go,
  the I/O thread with its single callback invocations, and the calls of other threads, which may
  subscribe and reset handles at any moment, also between the copy of the callbacks and the calls
  of the copies.
\<close>

section \<open>Samples and calls\<close>

datatype sample = ImuReading imu_data | MotorReading motor_state

primrec kind_of :: "sample \<Rightarrow> poll_kind" where
  "kind_of (ImuReading _) = Imu"
| "kind_of (MotorReading _) = MotorState"

text \<open>The registration that a call is for, and what it is called with.\<close>

primrec call_of :: "delivery \<Rightarrow> poll_kind \<times> nat" where
  "call_of (DeliverImu i _) = (Imu, i)"
| "call_of (DeliverMotor i _) = (MotorState, i)"

primrec sample_of :: "delivery \<Rightarrow> sample" where
  "sample_of (DeliverImu _ d) = ImuReading d"
| "sample_of (DeliverMotor _ m) = MotorReading m"

definition calls :: "poll_kind \<times> nat \<Rightarrow> delivery list \<Rightarrow> sample list" where
  "calls h ds = map sample_of (filter (\<lambda>d. call_of d = h) ds)"

definition registrations :: "poll_kind \<Rightarrow> callback_registry \<Rightarrow> (nat \<times> bool) list" where
  "registrations kind r = (case kind of Imu \<Rightarrow> imu_callbacks r | MotorState \<Rightarrow> motor_callbacks r)"

text \<open>A callable callback is registered under the handle.\<close>

definition registered :: "poll_kind \<times> nat \<Rightarrow> callback_registry \<Rightarrow> bool" where
  "registered h r \<longleftrightarrow> (snd h, True) \<in> set (registrations (fst h) r)"

definition subscribe :: "poll_kind \<Rightarrow> bool \<Rightarrow> callback_registry \<Rightarrow> callback_registry \<times> subscription_handle" where
  "subscribe kind callback r =
     (case kind of Imu \<Rightarrow> subscribe_imu callback r | MotorState \<Rightarrow> subscribe_motor_state callback r)"

text \<open>The sample that the next byte completes: it ends a payload that answers the poll in flight, and
  the payload is acceptable.\<close>

definition new_sample :: "byte \<times> 64 word \<Rightarrow> client \<Rightarrow> sample option" where
  "new_sample x c =
     (case feed_byte (parser c) (fst x) of
        Some (_, Some p) \<Rightarrow>
          (case map_option request_kind (answered p c) of
             Some PollImu \<Rightarrow>
               map_option (\<lambda>d. ImuReading (d\<lparr>imu_stamp_ns := snd x\<rparr>)) (the (parse_get_imu_data p))
           | Some PollMotorState \<Rightarrow>
               map_option (\<lambda>m. MotorReading (m\<lparr>motor_stamp_ns := snd x\<rparr>)) (the (parse_get_values p))
           | _ \<Rightarrow> None)
      | _ \<Rightarrow> None)"

text \<open>What a step publishes to a handle: the sample that the byte completes, if a callable callback is
  registered under the handle at that moment.\<close>

fun published_to :: "poll_kind \<times> nat \<Rightarrow> life \<Rightarrow> life \<Rightarrow> sample list" where
  "published_to h (k, Threaded (Feeding (x # input)), c) (k', Threaded (Feeding input'), c') =
     (if input' = input
      then case new_sample x c of
             Some v \<Rightarrow> if kind_of v = fst h \<and> registered h (registry c) then [v] else []
           | None \<Rightarrow> []
      else [])"
| "published_to h _ _ = []"

text \<open>An execution, with all samples that are published to a handle in the course of it.\<close>

inductive observed :: "poll_kind \<times> nat \<Rightarrow> life \<Rightarrow> sample list \<Rightarrow> life \<Rightarrow> bool" for h s where
  observed_refl: "observed h s [] s"
| observed_step: "observed h s vs t \<Longrightarrow> life_step t u \<Longrightarrow> observed h s (vs @ published_to h t u) u"

section \<open>Copies\<close>

text \<open>The calls to make for a sample.\<close>

definition copies :: "callback_registry \<Rightarrow> sample \<Rightarrow> delivery list" where
  "copies r v =
     (case v of
        ImuReading d \<Rightarrow> map (\<lambda>i. DeliverImu i d) (invoke_callbacks (imu_callbacks r))
      | MotorReading m \<Rightarrow> map (\<lambda>i. DeliverMotor i m) (invoke_callbacks (motor_callbacks r)))"

lemma calls_simps [simp]:
  "calls h [] = []" "calls h (ds @ es) = calls h ds @ calls h es"
  "calls h (d # ds) = (if call_of d = h then [sample_of d] else []) @ calls h ds"
  by (simp_all add: calls_def)

lemma filter_map_unique:
  "distinct xs \<Longrightarrow> filter (\<lambda>x. x = y) xs = (if y \<in> set xs then [y] else [])"
  by (induction xs) auto

lemma invoked_iff: "i \<in> set (invoke_callbacks cs) \<longleftrightarrow> (i, True) \<in> set cs"
  by (force simp: invoke_callbacks_def)

lemma copies_distinct: "wf_registry r \<Longrightarrow> distinct (map call_of (copies r v))"
  using imu_subs.delivered_once motor_subs.delivered_once
  by (cases v) (auto simp: copies_def distinct_map inj_on_def)

lemma calls_map:
  assumes "\<And>i. call_of (f i) = (kind, i)" "\<And>i. sample_of (f i) = v" "distinct xs"
  shows "calls (kind, j) (map f xs) = (if j \<in> set xs then [v] else [])" "kind \<noteq> kind' \<Longrightarrow> calls (kind', j) (map f xs) = []"
proof -
  show "calls (kind, j) (map f xs) = (if j \<in> set xs then [v] else [])"
    using filter_map_unique [OF assms(3), of j] assms(1,2) by (simp add: calls_def filter_map comp_def)
  show "kind \<noteq> kind' \<Longrightarrow> calls (kind', j) (map f xs) = []"
    using assms(1) by (simp add: calls_def filter_map comp_def)
qed

lemma calls_copies:
  assumes "wf_registry r"
  shows "calls h (copies r v) = (if kind_of v = fst h \<and> registered h r then [v] else [])"
proof (cases v)
  case (ImuReading d)
  note m = calls_map [of "\<lambda>i. DeliverImu i d" Imu v, OF _ _ imu_subs.delivered_once [OF assms]]
  show ?thesis
    using ImuReading m(1) [of "snd h"] m(2) [of MotorState "snd h"]
    by (cases h; cases "fst h") (auto simp: copies_def registered_def registrations_def invoked_iff)
next
  case (MotorReading d)
  note m = calls_map [of "\<lambda>i. DeliverMotor i d" MotorState v, OF _ _ motor_subs.delivered_once [OF assms]]
  show ?thesis
    using MotorReading m(1) [of "snd h"] m(2) [of Imu "snd h"]
    by (cases h; cases "fst h") (auto simp: copies_def registered_def registrations_def invoked_iff)
qed

lemma copies_old: "wf_registry r \<Longrightarrow> d \<in> set (copies r v) \<Longrightarrow> snd (call_of d) < next_subscription_id r"
  using registration_old [of r _ True] by (cases v) (fastforce simp: copies_def invoked_iff)+

lemma dispatch_copies:
  assumes "dispatch_payload p stamp c = Some c'"
  shows "registry c' = registry c \<and> deliveries c' = deliveries c \<and> publishing c' =
    (case map_option request_kind (answered p c) of
       Some PollImu \<Rightarrow> (case the (parse_get_imu_data p) of
           None \<Rightarrow> publishing c | Some d \<Rightarrow> copies (registry c) (ImuReading (d\<lparr>imu_stamp_ns := stamp\<rparr>)))
     | Some PollMotorState \<Rightarrow> (case the (parse_get_values p) of
           None \<Rightarrow> publishing c | Some m \<Rightarrow> copies (registry c) (MotorReading (m\<lparr>motor_stamp_ns := stamp\<rparr>)))
     | _ \<Rightarrow> publishing c)"
proof (cases "answered p c")
  case None
  then have "in_flight_request c = None \<or> p = [] \<or> (\<exists>r. in_flight_request c = Some r \<and> expected_id r \<noteq> p ! 0)"
    by (auto simp: answered_def split: option.splits if_splits)
  from dispatch_ignored [OF this, of stamp] assms None show ?thesis by simp
next
  case (Some r)
  then have r: "in_flight_request c = Some r" "p \<noteq> []" "expected_id r = p ! 0"
    by (auto simp: answered_def split: option.splits if_splits)
  with assms Some show ?thesis
    by (cases "request_kind r")
      (auto simp: dispatch_payload_def Let_def publish_imu_def publish_motor_state_def on_success_def copies_def
        split: option.splits Option.bind_splits)
qed

lemma feed_one_copies:
  assumes "feed_one x c = Some c'" "publishing c = []"
  shows "registry c' = registry c \<and> deliveries c' = deliveries c
    \<and> publishing c' = (case new_sample x c of None \<Rightarrow> [] | Some v \<Rightarrow> copies (registry c) v)"
proof -
  obtain buf d where fb: "feed_byte (parser c) (fst x) = Some (buf, d)"
    using assms(1) by (cases x; cases "feed_byte (parser c) (fst x)") auto
  then have c': "(case d of None \<Rightarrow> Some (c\<lparr>parser := buf\<rparr>) | Some p \<Rightarrow> dispatch_payload p (snd x) (c\<lparr>parser := buf\<rparr>)) = Some c'"
    using assms(1) by (cases x) (auto simp: Let_def cong: option.case_cong)
  have a: "answered p (c\<lparr>parser := buf\<rparr>) = answered p c" for p by (simp add: answered_def)
  show ?thesis
  proof (cases d)
    case (Some p)
    with c' have "dispatch_payload p (snd x) (c\<lparr>parser := buf\<rparr>) = Some c'" by simp
    from dispatch_copies [OF this] fb Some assms(2) show ?thesis
      by (auto simp: new_sample_def a split: option.split request_kind.split)
  qed (use c' fb assms(2) in \<open>auto simp: new_sample_def\<close>)
qed

section \<open>Everything else leaves the subscriptions alone\<close>

definition subs :: "client \<Rightarrow> callback_registry \<times> delivery list \<times> delivery list" where
  "subs c = (registry c, publishing c, deliveries c)"

lemma subs_frame [simp]:
  "subs (c\<lparr>fd := d\<rparr>) = subs c" "subs (c\<lparr>running := b\<rparr>) = subs c" "subs (c\<lparr>io_thread := b\<rparr>) = subs c"
  "subs (c\<lparr>cfg := config\<rparr>) = subs c" "subs (c\<lparr>wake_pipe := p\<rparr>) = subs c" "subs (c\<lparr>wake_pending := b\<rparr>) = subs c"
  "subs (begin_pass now c) = subs c" "subs (stop_running c) = subs c"
  "subs (drain_wake_pipe c) = subs c" "subs (wake_io_thread c) = subs c"
  "subs (store_channel ch c) = subs c" "subs (on_timeout r c) = subs c"
  "subs (clear_pending_work c) = subs c" "subs (c\<lparr>in_flight_request := flight\<rparr>) = subs c"
  "subs (fst (dequeue_due_watchdog_command now c)) = subs c" "subs (fst (dequeue_command c)) = subs c"
  "subs (fst (dequeue_ready_query now c)) = subs c" "subs (fst (enqueue_command now pkt refresh c)) = subs c"
  "subs (fst (submit_query io now pkt cid dl stop c)) = subs c" "subs (reset_connection now c) = subs c"
  by (simp_all add: subs_def begin_pass_def stop_running_def drain_wake_pipe_def wake_io_thread_def store_channel_def
      on_timeout_def clear_pending_work_eq dequeue_due_watchdog_command_def dequeue_command_def dequeue_ready_query_eq
      enqueue_command_def submit_query_def reset_connection_def Let_def split: option.split poll_kind.split)

lemma subs_dequeues:
  "dequeue_due_watchdog_command now c = (c', w) \<Longrightarrow> subs c' = subs c"
  "dequeue_command c = (c', w) \<Longrightarrow> subs c' = subs c"
  "dequeue_ready_query now c = (c', r) \<Longrightarrow> subs c' = subs c"
  using subs_frame(15-17) by (metis fst_conv)+

lemma subs_write: "write_packet steps pkt c = Some (c', ok) \<Longrightarrow> subs c' = subs c"
  by (erule write_packet_io) (auto simp: only_io_def subs_def)

lemma subs_timeout: "handle_request_timeout now c = (c', stop) \<Longrightarrow> subs c' = subs c"
  by (auto simp: handle_request_timeout_eq Let_def subs_def)

lemma subs_cleanup: "cleanup_transport_state k c = (k', c') \<Longrightarrow> subs c' = subs c"
  by (auto simp: cleanup_eq subs_def clear_pending_work_eq)

lemma subs_open: "open_transport env k c = (k', c', ok) \<Longrightarrow> subs c' = subs c"
  by (auto simp: open_transport_def open_custom_def open_builtin_def Let_def split: if_splits option.splits prod.splits)

lemma subs_pipe: "open_wake_pipe env k c = (k', c', ok) \<Longrightarrow> subs c' = subs c"
  by (auto simp: open_wake_pipe_def Let_def split: if_splits prod.splits)

lemma subs_connect:
  assumes "\<not> running c" "connect_client False env k c = (k', c', progress)"
  shows "subs c' = subs c"
proof -
  obtain k1 c1 where 1: "cleanup_transport_state k c = (k1, c1)" by fastforce
  obtain k2 c2 opened where 2: "open_transport env k1 c1 = (k2, c2, opened)" by (metis prod_cases3)
  obtain k3 c3 ready where 3: "open_wake_pipe env k2 c2 = (k3, c3, ready)" by (metis prod_cases3)
  show ?thesis
    using connect_eq [OF assms(1) 1 2 3] assms(2) subs_cleanup [OF 1] subs_open [OF 2] subs_pipe [OF 3]
    by (auto split: if_splits)
qed

lemma subs_create: "create_thread created k c = (k', c', ok) \<Longrightarrow> subs c' = subs c"
  by (auto simp: create_thread_def dest!: subs_cleanup split: if_splits prod.splits)

section \<open>Steps\<close>

text \<open>The change of the registry by a call: a subscription, or the reset of a handle.\<close>

definition registry_change :: "callback_registry \<Rightarrow> callback_registry \<Rightarrow> bool" where
  "registry_change r r' \<longleftrightarrow>
     (\<exists>kind b. r' = fst (subscribe kind b r)) \<or> (\<exists>h. r' = snd (handle_reset h r))"

lemma api_subs:
  "api_step c c' \<Longrightarrow> subs c' = subs c \<or>
     registry_change (registry c) (registry c') \<and> publishing c' = publishing c \<and> deliveries c' = deliveries c"
proof (induction rule: api_step.induct)
  case (SubscribeImu c b)
  have "fst (subscribe_imu b (registry c)) = fst (subscribe Imu b (registry c))" by (simp add: subscribe_def)
  then show ?case unfolding registry_change_def by auto
next
  case (SubscribeMotor c b)
  have "fst (subscribe_motor_state b (registry c)) = fst (subscribe MotorState b (registry c))" by (simp add: subscribe_def)
  then show ?case unfolding registry_change_def by auto
next
  case (Unsubscribe c h)
  then show ?case by (auto simp: registry_change_def)
qed (auto simp: set_rpm_def set_duty_def set_current_def set_current_brake_def set_servo_pos_def Let_def
      set_app_output_disabled_def enqueue_control_command_def set_motor_poll_interval_def set_imu_poll_interval_def
      disconnect_signal_def, simp_all add: subs_def)

lemma io_subs:
  "io_step (pc, c) (pc', c') \<Longrightarrow> subs c' = subs c \<and> (\<forall>x input. pc = Feeding (x # input) \<longrightarrow> pc' \<noteq> Feeding input)
       \<and> (\<forall>input. pc = Feeding input \<longrightarrow> publishing c = [])
     \<or> (\<exists>x input. pc = Feeding (x # input) \<and> pc' = Feeding input \<and> publishing c = [] \<and> feed_one x c = Some c')
     \<or> (\<exists>input before d after. pc = Feeding input \<and> pc' = pc \<and> publishing c = before @ d # after
         \<and> c' = invoke_callback before d after c)"
  by (cases rule: io_step.cases, assumption)
    (auto simp: after_write_def read_once_def simp del: feed_one.simps
      dest!: subs_timeout subs_write subs_dequeues split: if_splits prod.splits)

section \<open>The invariant\<close>

text \<open>Identities are used once: all calls made or copied are for identities below the next one.  The
  copied calls are for different registrations, and there are some only while bytes are processed.\<close>

fun pub_ok :: "life \<Rightarrow> bool" where
  "pub_ok (k, phase, c) \<longleftrightarrow>
     wf_registry (registry c)
     \<and> (\<forall>d \<in> set (deliveries c) \<union> set (publishing c). snd (call_of d) < next_subscription_id (registry c))
     \<and> distinct (map call_of (publishing c))
     \<and> (publishing c \<noteq> [] \<longrightarrow> (\<exists>input. phase = Threaded (Feeding input)))"

lemma subscribe_law:
  assumes "wf_registry r" "subscribe kind b r = (r', h)"
  obtains i where "h = Some (kind, i)" "i = next_subscription_id r" "next_subscription_id r' = Suc i"
    "wf_registry r'" "\<And>j. registered j r' \<longleftrightarrow> registered j r \<or> b \<and> j = (kind, i)"
proof (rule that [of "next_subscription_id r"])
  show "wf_registry r'" using assms wf_subscribe [OF assms(1), of b] by (cases kind) (auto simp: subscribe_def)
  show "registered j r' \<longleftrightarrow> registered j r \<or> b \<and> j = (kind, next_subscription_id r)" for j
    using assms(2) by (cases j; cases kind; cases "fst j")
      (auto simp: subscribe_def subscribe_imu_def subscribe_motor_state_def registered_def registrations_def Let_def)
qed (use assms(2) in \<open>cases kind; auto simp: subscribe_def subscribe_imu_def subscribe_motor_state_def Let_def\<close>)+

lemma registered_old: "wf_registry r \<Longrightarrow> registered h r \<Longrightarrow> snd h < next_subscription_id r"
  using registration_old [of r "snd h" True]
  by (cases "fst h") (auto simp: registered_def registrations_def)

lemma reset_law:
  assumes "wf_registry r"
  shows "wf_registry (snd (handle_reset g r))" "next_subscription_id (snd (handle_reset g r)) = next_subscription_id r"
    "registered j (snd (handle_reset g r)) \<longleftrightarrow> registered j r \<and> g \<noteq> Some j"
proof -
  show "wf_registry (snd (handle_reset g r))" "next_subscription_id (snd (handle_reset g r)) = next_subscription_id r"
    using assms wf_unsubscribe [OF assms] by (cases g; auto simp: handle_reset_def unsubscribe_def split: poll_kind.split prod.split)+
  show "registered j (snd (handle_reset g r)) \<longleftrightarrow> registered j r \<and> g \<noteq> Some j"
    by (cases g; cases "fst (the g)"; cases j; cases "fst j")
      (auto simp: handle_reset_def unsubscribe_def registered_def registrations_def split: poll_kind.splits prod.splits)
qed

lemma registry_change_ok:
  assumes "registry_change r r'" "wf_registry r"
  shows "wf_registry r' \<and> next_subscription_id r \<le> next_subscription_id r'
    \<and> (\<forall>h. snd h < next_subscription_id r \<and> registered h r' \<longrightarrow> registered h r)"
  using assms(1) unfolding registry_change_def
proof
  assume "\<exists>kind b. r' = fst (subscribe kind b r)"
  then obtain kind b h where "subscribe kind b r = (r', h)" by (metis prod.collapse)
  then show ?thesis by (rule subscribe_law [OF assms(2)]) auto
next
  assume "\<exists>h. r' = snd (handle_reset h r)"
  then show ?thesis using reset_law [OF assms(2)] by auto
qed

text \<open>A step that publishes nothing: the calls stay, the registry changes by a call at most.\<close>

definition calm :: "client \<Rightarrow> client \<Rightarrow> bool" where
  "calm c c' \<longleftrightarrow> publishing c' = publishing c \<and> deliveries c' = deliveries c
     \<and> (registry c' = registry c \<or> registry_change (registry c) (registry c'))"

lemma calm_subs: "subs c' = subs c \<Longrightarrow> calm c c'"
  by (simp add: calm_def subs_def)

lemma calm_api: "api_step c c' \<Longrightarrow> calm c c'"
  using api_subs [of c c'] by (auto simp: calm_def subs_def)

lemma life_step_cases:
  assumes "life_step (k, phase, c) (k', phase', c')" "pub_ok (k, phase, c)"
  obtains (Calm) "calm c c'" "phase' = phase \<or> publishing c = []" "\<And>h. published_to h (k, phase, c) (k', phase', c') = []"
  | (Feeds) x input where "phase = Threaded (Feeding (x # input))" "phase' = Threaded (Feeding input)"
      "publishing c = []" "feed_one x c = Some c'"
  | (Calls) input before d "after" where "phase = Threaded (Feeding input)" "phase' = phase"
      "publishing c = before @ d # after" "c' = invoke_callback before d after c"
proof -
  have quiet: thesis if "calm c c'" "phase' = phase \<or> publishing c = []"
    "\<forall>x input. phase = Threaded (Feeding (x # input)) \<longrightarrow> phase' \<noteq> Threaded (Feeding input)"
  proof (rule Calm [OF that(1,2)])
    show "published_to h (k, phase, c) (k', phase', c') = []" for h
      using that(3) by (cases "(h, (k, phase, c), (k', phase', c'))" rule: published_to.cases) auto
  qed
  have idle: "joined phase \<Longrightarrow> publishing c = []" using assms(2) by (auto simp: joined_def)
  from assms(1) show thesis
  proof (cases rule: life_step.cases)
    case (Thread pc pc')
    then have "system_step (pc, c) (pc', c')" by simp
    then show thesis
    proof (cases rule: system_step.cases)
      case Io
      from io_subs [OF this] show thesis
      proof (elim disjE exE conjE)
        assume "subs c' = subs c" "\<forall>x input. pc = Feeding (x # input) \<longrightarrow> pc' \<noteq> Feeding input"
          "\<forall>input. pc = Feeding input \<longrightarrow> publishing c = []"
        with assms(2) Thread show thesis by (auto intro!: quiet calm_subs)
      next
        fix x input
        assume "pc = Feeding (x # input)" "pc' = Feeding input" "publishing c = []" "feed_one x c = Some c'"
        with Thread show thesis by (intro Feeds) simp_all
      next
        fix input before d "after"
        assume "pc = Feeding input" "pc' = pc" "publishing c = before @ d # after" "c' = invoke_callback before d after c"
        with Thread show thesis by (intro Calls) simp_all
      qed
    next
      case Api
      with Thread show thesis by (auto intro!: quiet calm_api)
    qed
  next
    case Call
    then show thesis by (auto intro!: quiet calm_api)
  next
    case (ConnectFails env b)
    with idle subs_connect [of c env k k' c'] show thesis by (auto intro!: quiet calm_subs)
  next
    case (ConnectReady env)
    with idle subs_connect [of c env k k' c'] show thesis by (auto intro!: quiet calm_subs)
  next
    case (Created created ok)
    with assms(2) subs_create [of created k c k' c' ok] show thesis by (auto intro!: quiet calm_subs)
  next
    case Disconnected
    with idle subs_cleanup [of k c k' c'] show thesis by (auto intro!: quiet calm_subs)
  next
    case (Others fds)
    then show thesis by (auto intro!: quiet calm_subs)
  qed
qed

lemma pub_ok_step: "life_step s t \<Longrightarrow> pub_ok s \<Longrightarrow> pub_ok t"
proof -
  assume step: "life_step s t" and ok: "pub_ok s"
  obtain k phase c k' phase' c' where st: "s = (k, phase, c)" "t = (k', phase', c')" by (metis prod_cases3)
  from step ok show "pub_ok t" unfolding st
  proof (cases rule: life_step_cases)
    case Calm
    have wf: "wf_registry (registry c)" using ok by (simp add: st)
    have "wf_registry (registry c') \<and> next_subscription_id (registry c) \<le> next_subscription_id (registry c')"
      using Calm(1) registry_change_ok [OF _ wf] wf by (auto simp: calm_def)
    moreover have "\<forall>d \<in> set (deliveries c') \<union> set (publishing c'). snd (call_of d) < next_subscription_id (registry c)"
      using Calm(1) ok by (simp add: st calm_def)
    ultimately show "pub_ok (k', phase', c')"
      using Calm(1,2) ok by (auto simp: st calm_def intro: less_le_trans)
  next
    case (Feeds x input)
    with feed_one_copies [of x c c'] ok show "pub_ok (k', phase', c')"
      by (auto simp: st copies_distinct copies_old split: option.splits)
  next
    case (Calls input before d "after")
    then show "pub_ok (k', phase', c')" using ok by (auto simp: st invoke_callback_def)
  qed
qed

interpretation publications: step_invariant fresh_process life_step pub_ok
proof
  show "pub_ok s" if "fresh_process s" for s
    using that by (auto simp: fresh_process_def new_client_def wf_registry_def)
  show "pub_ok t" if "life_step s t" "pub_ok s" for s t
    using that by (rule pub_ok_step)
qed

text \<open>All calls for a handle, made and to be made, in order.\<close>

fun due_and_made :: "poll_kind \<times> nat \<Rightarrow> life \<Rightarrow> sample list" where
  "due_and_made h (_, _, c) = calls h (deliveries c) @ calls h (publishing c)"

lemma calls_none: "h \<notin> call_of ` set ds \<Longrightarrow> calls h ds = []"
  by (auto simp: calls_def filter_empty_conv)

lemma step_calls:
  assumes "life_step s t" "pub_ok s"
  shows "due_and_made h t = due_and_made h s @ published_to h s t"
proof -
  obtain k phase c k' phase' c' where st: "s = (k, phase, c)" "t = (k', phase', c')" by (metis prod_cases3)
  from assms show ?thesis unfolding st
  proof (cases rule: life_step_cases)
    case Calm
    then show "due_and_made h (k', phase', c') = due_and_made h (k, phase, c) @ published_to h (k, phase, c) (k', phase', c')"
      by (simp add: calm_def)
  next
    case (Feeds x input)
    with feed_one_copies [of x c c'] assms(2)
    show "due_and_made h (k', phase', c') = due_and_made h (k, phase, c) @ published_to h (k, phase, c) (k', phase', c')"
      by (auto simp: st calls_copies split: option.split)
  next
    case (Calls input before d "after")
    have "call_of d = h \<Longrightarrow> calls h before = []"
      using assms(2) Calls(3) by (intro calls_none) (auto simp: st)
    moreover have "published_to h (k, phase, c) (k', phase', c') = []"
      using Calls by (cases input) auto
    ultimately show "due_and_made h (k', phase', c') = due_and_made h (k, phase, c) @ published_to h (k, phase, c) (k', phase', c')"
      using Calls by (auto simp: invoke_callback_def)
  qed
qed

lemma step_registry:
  assumes "life_step (k, phase, c) (k', phase', c')" "pub_ok (k, phase, c)"
  shows "registry c' = registry c \<or> registry_change (registry c) (registry c')"
  using assms
proof (cases rule: life_step_cases)
  case Calm
  then show ?thesis by (simp add: calm_def)
next
  case (Feeds x input)
  with feed_one_copies [of x c c'] show ?thesis by simp
next
  case (Calls input before d "after")
  then show ?thesis by (simp add: invoke_callback_def)
qed

lemma observed_ok: "observed h s vs t \<Longrightarrow> pub_ok s \<Longrightarrow> pub_ok t"
  by (induction rule: observed.induct) (auto intro: pub_ok_step)

lemma observed_calls:
  "observed h s vs t \<Longrightarrow> pub_ok s \<Longrightarrow> due_and_made h t = due_and_made h s @ vs"
proof (induction rule: observed.induct)
  case (observed_step vs t u)
  with step_calls [of t u h] observed_ok [of h s vs t] show ?case by simp
qed simp

lemma step_ids:
  assumes "life_step (k, phase, c) (k', phase', c')" "pub_ok (k, phase, c)"
  shows "next_subscription_id (registry c) \<le> next_subscription_id (registry c')"
  using step_registry [OF assms] registry_change_ok [of "registry c" "registry c'"] assms(2) by auto

lemma observed_ids:
  "observed h s vs t \<Longrightarrow> pub_ok s \<Longrightarrow>
     next_subscription_id (registry (snd (snd s))) \<le> next_subscription_id (registry (snd (snd t)))"
proof (induction rule: observed.induct)
  case (observed_step vs t u)
  then show ?case
    using step_ids [of "fst t" "fst (snd t)" "snd (snd t)" "fst u" "fst (snd u)" "snd (snd u)"] observed_ok [of h s vs t]
    by (simp del: pub_ok.simps)
qed simp

text \<open>A handle that is not registered and whose identity was given out stays silent.\<close>

fun silent :: "poll_kind \<times> nat \<Rightarrow> life \<Rightarrow> bool" where
  "silent h (_, _, c) \<longleftrightarrow> \<not> registered h (registry c) \<and> snd h < next_subscription_id (registry c)"

lemma silent_nothing: "silent h s \<Longrightarrow> published_to h s t = []"
  by (cases "(h, s, t)" rule: published_to.cases) (auto split: option.split)

lemma silent_step: "life_step s t \<Longrightarrow> pub_ok s \<Longrightarrow> silent h s \<Longrightarrow> silent h t"
proof -
  assume a: "life_step s t" "pub_ok s" "silent h s"
  obtain k phase c k' phase' c' where st: "s = (k, phase, c)" "t = (k', phase', c')" by (metis prod_cases3)
  have wf: "wf_registry (registry c)" "\<not> registered h (registry c)" "snd h < next_subscription_id (registry c)"
    using a(2,3) by (simp_all add: st)
  from step_registry [OF a(1,2) [unfolded st]] show "silent h t"
  proof
    assume "registry_change (registry c) (registry c')"
    from registry_change_ok [OF this wf(1)] wf(2,3) show "silent h t" unfolding st silent.simps by fastforce
  qed (use wf in \<open>simp add: st\<close>)
qed

lemma observed_silent:
  "observed h s vs t \<Longrightarrow> pub_ok s \<Longrightarrow> silent h s \<Longrightarrow> vs = [] \<and> silent h t"
proof (induction rule: observed.induct)
  case (observed_step vs t u)
  with silent_nothing [of h t u] silent_step [of t u h] observed_ok [of h s vs t] show ?case by simp
qed simp

lemma one_call_pending:
  assumes "pub_ok (k, phase, c)"
  shows "length (calls h (publishing c)) \<le> 1"
proof -
  have "distinct (map call_of (publishing c))" using assms by simp
  then have "length (filter (\<lambda>d. call_of d = h) ds) \<le> 1" if "ds = publishing c" for ds
    unfolding that [symmetric]
    by (induction ds) (auto simp: filter_empty_conv image_iff)
  then show ?thesis by (simp add: calls_def)
qed

section \<open>What a subscriber gets\<close>

text \<open>
  C19: A subscriber gets exactly the samples that are published while it is registered, each once and
  in order, whatever connections, other calls and callbacks come in between.  A new subscription has
  an identity that no call was ever made for and none is due for, and changes no other registration.
  From then on the calls made for it, followed by the one that may be copied and not yet made, are
  the samples published while it is registered; when no bytes are being processed they have all been
  made.  Resetting the handle removes this registration only.  A call that was already copied may
  still run once after the reset, and that is all: nothing is published to the handle afterwards,
  also not by later subscriptions.  No step changes a registration but subscribing and resetting.
\<close>

theorem subscription_delivery:
  assumes "fresh_process s" "life_step\<^sup>*\<^sup>* s (k, phase, c)"
    and "subscribe kind True (registry c) = (r, Some h)"
    and "observed h (k, phase, c\<lparr>registry := r\<rparr>) vs (k1, phase1, c1)"
    and "observed h (k1, phase1, c1\<lparr>registry := snd (handle_reset (Some h) (registry c1))\<rparr>) ws (k2, phase2, c2)"
  shows "calls h (deliveries c) = [] \<and> calls h (publishing c) = [] \<and> \<not> registered h (registry c)
    \<and> (\<forall>j. registered j r \<longleftrightarrow> registered j (registry c) \<or> j = h)
    \<and> calls h (deliveries c1) @ calls h (publishing c1) = vs \<and> length (calls h (publishing c1)) \<le> 1
    \<and> (if \<forall>input. phase1 \<noteq> Threaded (Feeding input) then calls h (deliveries c1) = vs else True)
    \<and> (\<forall>j. registered j (snd (handle_reset (Some h) (registry c1))) \<longleftrightarrow> registered j (registry c1) \<and> j \<noteq> h)
    \<and> ws = [] \<and> calls h (deliveries c2) @ calls h (publishing c2) = vs \<and> \<not> registered h (registry c2)
    \<and> (life_step (k1, phase1, c1) (k', phase', c') \<longrightarrow>
         registry c' = registry c1 \<or> (\<exists>g b. registry c' = fst (subscribe g b (registry c1)))
         \<or> (\<exists>g. registry c' = snd (handle_reset g (registry c1))))"
proof -
  have ok: "pub_ok (k, phase, c)" by (rule publications.reachable_inv [OF assms(1,2)])
  then have wf: "wf_registry (registry c)" by simp
  obtain i where h: "h = (kind, i)" and r: "i = next_subscription_id (registry c)" "next_subscription_id r = Suc i"
    "wf_registry r" "\<And>j. registered j r \<longleftrightarrow> registered j (registry c) \<or> j = h"
    using subscribe_law [OF wf assms(3)] by auto
  have old: "h \<notin> call_of ` set ds" if "\<forall>d \<in> set ds. snd (call_of d) < i" for ds
    using that by (metis h imageE less_irrefl snd_conv)
  have new: "calls h (deliveries c) = []" "calls h (publishing c) = []" "\<not> registered h (registry c)"
    using ok registered_old [OF wf, of h] by (auto simp: h r(1) intro!: calls_none old [unfolded h r(1)])
  have ok0: "pub_ok (k, phase, c\<lparr>registry := r\<rparr>)" using ok r(1-3) by (auto simp: less_Suc_eq)
  have ok1: "pub_ok (k1, phase1, c1)" by (rule observed_ok [OF assms(4) ok0])
  let ?r = "snd (handle_reset (Some h) (registry c1))"
  have ids: "i < next_subscription_id (registry c1)" using observed_ids [OF assms(4) ok0] r(2) by simp
  note reset = reset_law [where r = "registry c1" and g = "Some h"]
  have ok1': "pub_ok (k1, phase1, c1\<lparr>registry := ?r\<rparr>)" "silent h (k1, phase1, c1\<lparr>registry := ?r\<rparr>)"
    using ok1 reset ids by (simp_all add: h)
  have made: "calls h (deliveries c1) @ calls h (publishing c1) = vs"
    using observed_calls [OF assms(4) ok0] new by simp
  moreover have "ws = []" "\<not> registered h (registry c2)"
    using observed_silent [OF assms(5) ok1'] by simp_all
  moreover have "calls h (deliveries c2) @ calls h (publishing c2) = vs"
    using observed_calls [OF assms(5) ok1'(1)] made \<open>ws = []\<close> by simp
  moreover have "publishing c1 = []" if "\<forall>input. phase1 \<noteq> Threaded (Feeding input)"
    using ok1 that by auto
  moreover have "life_step (k1, phase1, c1) (k', phase', c') \<Longrightarrow>
      registry c' = registry c1 \<or> registry_change (registry c1) (registry c')"
    using step_registry ok1 by blast
  ultimately show ?thesis
    using new r(4) one_call_pending [OF ok1, of h] reset(3) ok1 by (auto simp: registry_change_def)
qed

section \<open>An execution with a sample\<close>

text \<open>A client that polls motor states only: a subscriber comes, the client connects, polls, and gets a
  reply.  Then the subscriber resets its handle between the copy and the call of its callback.\<close>

lemma observed_io:
  assumes "observed h s vs (k, Threaded pc, c)" "io_step (pc, c) (pc', c')"
    and "published_to h (k, Threaded pc, c) (k, Threaded pc', c') = []"
  shows "observed h s vs (k, Threaded pc', c')"
  using observed_step [OF assms(1) life_step.Thread [OF system_step.Io [OF assms(2)]]] assms(3) by simp

lemma frame_feeding:
  assumes "frameable p"
  obtains bs where "frame p = bs @ [3]" "feed_bytes [] bs = Some (bs, [])" "feed_byte bs 3 = Some ([], Some p)"
proof -
  obtain hi lo where c: "crc_bytes p = [hi, lo]" by (rule crc_bytes_join)
  let ?bs = "frame_header (length p) @ p @ [hi, lo]"
  have f: "frame p = ?bs @ [3]" using assms c by (simp add: frame_eq)
  have w: "feed_bytes [] ?bs = Some ([] @ ?bs, [])"
    by (rule feed_bytes_waiting) (use waiting_prefix [OF assms, where hi = hi and lo = lo] in auto)
  have "feed_bytes [] (?bs @ [3]) = Some ([], [p])" using feed_bytes_frame [OF assms] by (simp only: f)
  moreover have "feed_byte bs 3 = Some ([], Some p)"
    if "feed_bytes [] bs = Some (bs, [])" "feed_bytes [] (bs @ [3]) = Some ([], [p])" for bs
    using that by (auto simp: feed_bytes_append split: Option.bind_splits option.splits prod.splits)
  ultimately have "feed_byte ?bs 3 = Some ([], Some p)" using w by simp
  with f w that show thesis by simp
qed

lemma observed_feeds:
  "observed h s vs (k, Threaded (Feeding (map (\<lambda>b. (b, t)) bs @ rest)), c) \<Longrightarrow> publishing c = [] \<Longrightarrow>
     feed_bytes (parser c) bs = Some (buf, []) \<Longrightarrow> observed h s vs (k, Threaded (Feeding rest), c\<lparr>parser := buf\<rparr>)"
proof (induction bs arbitrary: c)
  case (Cons b bs)
  obtain buf' where f: "feed_byte (parser c) b = Some (buf', None)" "feed_bytes buf' bs = Some (buf, [])"
    using Cons.prems(3) by (auto split: Option.bind_splits option.splits prod.splits)
  let ?c = "c\<lparr>parser := buf'\<rparr>" and ?input = "map (\<lambda>b. (b, t)) bs @ rest"
  have step: "io_step (Feeding ((b, t) # ?input), c) (Feeding ?input, ?c)"
    by (rule io_step.FeedByte) (simp_all add: Cons.prems(2) f(1))
  have none: "new_sample (b, t) c = None" by (simp add: new_sample_def f(1))
  have "observed h s vs (k, Threaded (Feeding ((b, t) # ?input)), c)" using Cons.prems(1) by simp
  from observed_io [OF this step] have "observed h s vs (k, Threaded (Feeding ?input), ?c)" by (simp add: none)
  from Cons.IH [OF this] f(2) Cons.prems(2) show ?case by simp
next
  case Nil
  then have same: "c\<lparr>parser := buf\<rparr> = c" by (cases c) simp
  show ?case unfolding same using Nil(1) by simp
qed

definition motor_only :: client where
  "motor_only = new_client (default_controller_config\<lparr>imu_poll_interval := 0\<rparr>)"

definition subscribed_client :: client where
  "subscribed_client = motor_only\<lparr>registry := fst (subscribe MotorState True (registry motor_only))\<rparr>"

lemma subscribed_client_connects:
  obtains k c where "connect_client False example_env example_kernel subscribed_client = (k, c, CreatesThread)"
    "running c" "outstanding c = []" "command_queue c = []" "\<not> armed (control_watchdog c)" "parser c = []"
    "publishing c = []" "deliveries c = []" "motor_callbacks (registry c) = [(1, True)]"
    "imu_channel c = \<lparr>channel_kind = Imu, interval_ms = 0, reschedule = False, next_due = 0\<rparr>"
    "motor_channel c = \<lparr>channel_kind = MotorState, interval_ms = 50, reschedule = False, next_due = 0\<rparr>"
    "poll_response_timeout (cfg c) = 20"
proof -
  have "\<exists>k c. connect_client False example_env example_kernel subscribed_client = (k, c, CreatesThread)
    \<and> running c \<and> outstanding c = [] \<and> command_queue c = [] \<and> \<not> armed (control_watchdog c) \<and> parser c = []
    \<and> publishing c = [] \<and> deliveries c = [] \<and> motor_callbacks (registry c) = [(1, True)]
    \<and> imu_channel c = \<lparr>channel_kind = Imu, interval_ms = 0, reschedule = False, next_due = 0\<rparr>
    \<and> motor_channel c = \<lparr>channel_kind = MotorState, interval_ms = 50, reschedule = False, next_due = 0\<rparr>
    \<and> poll_response_timeout (cfg c) = 20"
    by (simp add: connect_defs example_env_def example_kernel_def subscribed_client_def motor_only_def new_client_def
        default_controller_config_def clear_pending_work_eq lowest_free_def Let_def subscribe_def
        subscribe_motor_state_def reset_connection_def outstanding_def in_flight_list_def parser_reset_def default_watchdog_def)
  with that show thesis by blast
qed

text \<open>The reply: 54 bytes, all zero after the identifier, received at time 7.\<close>

definition motor_reply :: payload where
  "motor_reply = id_byte GetValues # replicate 53 0"

definition motor_value :: sample where
  "motor_value = MotorReading ((values_of motor_reply)\<lparr>motor_stamp_ns := 7\<rparr>)"

text \<open>The poll, from the top of the loop to the bytes of the reply.\<close>

lemma polls_and_reads:
  assumes c: "running c" "outstanding c = []" "command_queue c = []" "\<not> armed (control_watchdog c)"
    and ch: "imu_channel c = \<lparr>channel_kind = Imu, interval_ms = 0, reschedule = False, next_due = 0\<rparr>"
      "motor_channel c = \<lparr>channel_kind = MotorState, interval_ms = 50, reschedule = False, next_due = 0\<rparr>"
      "poll_response_timeout (cfg c) = 20"
    and obs: "observed h s [] (k, Threaded LoopTop, c)" and input: "input \<noteq> []"
  obtains poll snt where "observed h s [] (k, Threaded (Feeding input),
      c\<lparr>motor_channel := (motor_channel c)\<lparr>next_due := ms 50\<rparr>, sent := snt, in_flight_request := Some poll\<rparr>)"
    "request_kind poll = PollMotorState" "expected_id poll = id_byte GetValues"
proof -
  let ?pkt = build_get_values_request
  let ?ch = "(motor_channel c)\<lparr>next_due := ms 50\<rparr>"
  let ?poll = "\<lparr>request_kind = PollMotorState, expected_id = id_byte GetValues, packet = ?pkt,
      deadline = ms 20, stop_on_timeout = False, query_ref = None\<rparr>"
  let ?c1 = "c\<lparr>motor_channel := ?ch\<rparr>"
  let ?c2 = "?c1\<lparr>sent := sent c @ ?pkt, in_flight_request := Some ?poll\<rparr>"
  have q: "in_flight_request c = None" "request_queue c = []"
    using c(2) by (auto simp: outstanding_def in_flight_list_def split: option.splits)
  have pass: "begin_pass 0 c = c" "begin_pass 0 ?c2 = ?c2"
    using ch by (cases c; simp add: begin_pass_def reschedule_channel_def)+
  have t: "handle_request_timeout 0 c = (c, False)" using idle_timeout [OF c(2)] .
  have t2: "handle_request_timeout 0 ?c2 = (?c2, False)"
    using q(2) by (cases c) (simp add: handle_request_timeout_def Let_def)
  have pkt: "?pkt \<noteq> []" "length ?pkt \<le> 100"
    by (simp_all add: request_defs frame_empty_iff frameable_def length_frame)
  have w: "write_packet [Wrote 100] ?pkt ?c1 = Some (?c1\<lparr>sent := sent c @ ?pkt\<rparr>, True)"
    using write_at_once [of ?c1 ?pkt 100] c(1) pkt by simp
  have sel: "select_due_poll_channel 0 c = Some (motor_channel c)"
    by (simp add: select_due_poll_channel_def consider_channel_def ch)
  have mk: "make_due_poll_request (cfg c) (motor_channel c) 0 = (?ch, Some ?poll)"
    by (simp add: make_due_poll_request_def ch Let_def del: id_byte.simps)
  have st: "store_channel ?ch c = ?c1" by (simp add: store_channel_def ch)
  have steps: "io_step (LoopTop, c) (Selecting, c)" "io_step (Selecting, c) (WatchdogPhase, c)"
    "io_step (WatchdogPhase, c) (CommandPhase, c)" "io_step (CommandPhase, c) (TimeoutPhase, c)"
    "io_step (TimeoutPhase, c) (SchedulePhase, c)"
    using io_step.BeginPass [of c 0 0 c False] io_step.Selected [of c False c False] io_step.WatchdogQuiet [of 0 c c]
      io_step.NoCommand [of c c] io_step.CheckTimeouts [of 0 c c False] c(1,3,4) pass(1) t
    by (simp_all add: dequeue_due_watchdog_command_def dequeue_command_def)
  have send: "io_step (SchedulePhase, c) (LoopTop, ?c2)"
  proof -
    have "write_packet [Wrote 100] (packet ?poll) (store_channel ?ch c) = Some (?c1\<lparr>sent := sent c @ ?pkt\<rparr>, True)"
      unfolding st using w by simp
    from io_step.SendPoll [OF q(1) sel mk this] show ?thesis by simp
  qed
  have steps2: "io_step (LoopTop, ?c2) (Selecting, ?c2)" "io_step (Selecting, ?c2) (Reading, ?c2)"
    "io_step (Reading, ?c2) (Feeding input, ?c2)"
    using io_step.BeginPass [of ?c2 0 0 ?c2 False] io_step.Selected [of ?c2 False ?c2 True]
      io_step.ReadBytes [OF input] c(1) pass(2) t2 by simp_all
  note obs
  from observed_io [OF this steps(1)] have "observed h s [] (k, Threaded Selecting, c)" by simp
  from observed_io [OF this steps(2)] have "observed h s [] (k, Threaded WatchdogPhase, c)" by simp
  from observed_io [OF this steps(3)] have "observed h s [] (k, Threaded CommandPhase, c)" by simp
  from observed_io [OF this steps(4)] have "observed h s [] (k, Threaded TimeoutPhase, c)" by simp
  from observed_io [OF this steps(5)] have "observed h s [] (k, Threaded SchedulePhase, c)" by simp
  from observed_io [OF this send] have "observed h s [] (k, Threaded LoopTop, ?c2)" by simp
  from observed_io [OF this steps2(1)] have "observed h s [] (k, Threaded Selecting, ?c2)" by simp
  from observed_io [OF this steps2(2)] have "observed h s [] (k, Threaded Reading, ?c2)" by simp
  from observed_io [OF this steps2(3)] have "observed h s [] (k, Threaded (Feeding input), ?c2)" by simp
  from that [OF this] show thesis by simp
qed

lemma sample_is_published:
  obtains k c where "observed (MotorState, 1) (example_kernel, NoThread, subscribed_client) [motor_value]
      (k, Threaded (Feeding []), c)"
    "publishing c = [DeliverMotor 1 ((values_of motor_reply)\<lparr>motor_stamp_ns := 7\<rparr>)]" "deliveries c = []"
proof -
  let ?h = "(MotorState, 1 :: nat)" and ?s = "(example_kernel, NoThread, subscribed_client)"
  obtain k c where conn: "connect_client False example_env example_kernel subscribed_client = (k, c, CreatesThread)"
    and c: "running c" "outstanding c = []" "command_queue c = []" "\<not> armed (control_watchdog c)" "parser c = []"
      "publishing c = []" "deliveries c = []" "motor_callbacks (registry c) = [(1, True)]"
    and ch: "imu_channel c = \<lparr>channel_kind = Imu, interval_ms = 0, reschedule = False, next_due = 0\<rparr>"
      "motor_channel c = \<lparr>channel_kind = MotorState, interval_ms = 50, reschedule = False, next_due = 0\<rparr>"
      "poll_response_timeout (cfg c) = 20"
    by (rule subscribed_client_connects)
  let ?c = "c\<lparr>io_thread := True\<rparr>"
  have "life_step ?s (k, Starting, c)"
    by (rule life_step.ConnectReady [OF _ _ conn])
      (simp_all add: joined_def subscribed_client_def motor_only_def new_client_def)
  from observed_step [OF observed_refl this, of ?h] have "observed ?h ?s [] (k, Starting, c)" by simp
  moreover have "life_step (k, Starting, c) (k, Threaded LoopTop, ?c)"
    using life_step.Created [of True k c k ?c True] by (simp add: create_thread_def)
  ultimately have start: "observed ?h ?s [] (k, Threaded LoopTop, ?c)" using observed_step by fastforce
  have p: "frameable motor_reply" by (simp add: motor_reply_def frameable_def)
  obtain bs where bs: "frame motor_reply = bs @ [3]" "feed_bytes [] bs = Some (bs, [])"
    "feed_byte bs 3 = Some ([], Some motor_reply)" by (rule frame_feeding [OF p])
  let ?input = "map (\<lambda>b. (b, 7)) bs @ [(3, 7)]"
  obtain poll snt where read: "observed ?h ?s [] (k, Threaded (Feeding ?input),
      ?c\<lparr>motor_channel := (motor_channel ?c)\<lparr>next_due := ms 50\<rparr>, sent := snt, in_flight_request := Some poll\<rparr>)"
    and poll: "request_kind poll = PollMotorState" "expected_id poll = id_byte GetValues"
    by (rule polls_and_reads [OF _ _ _ _ _ _ _ start, of ?input]) (use c ch in \<open>simp_all add: outstanding_def in_flight_list_def\<close>)
  let ?c2 = "?c\<lparr>motor_channel := (motor_channel ?c)\<lparr>next_due := ms 50\<rparr>, sent := snt, in_flight_request := Some poll\<rparr>"
  let ?c3 = "?c2\<lparr>parser := bs\<rparr>"
  have last: "observed ?h ?s [] (k, Threaded (Feeding [(3, 7)]), ?c3)"
    by (rule observed_feeds [OF read]) (use c(5,6) bs(2) in simp_all)
  have reply: "motor_reply \<noteq> []" "expected_id poll = motor_reply ! 0"
    by (simp_all add: motor_reply_def poll del: id_byte.simps)
  obtain c' where "dispatch_payload motor_reply 7 (?c3\<lparr>parser := []\<rparr>) = Some c'"
    using dispatch_payload_eq [of "?c3\<lparr>parser := []\<rparr>" poll motor_reply 7] reply by auto
  then have f: "feed_one (3, 7) ?c3 = Some c'" by (simp add: bs(3))
  have "answered motor_reply ?c3 = Some poll"
    by (simp add: answered_def motor_reply_def poll del: id_byte.simps)
  then have new: "new_sample (3, 7) ?c3 = Some motor_value"
    by (simp add: new_sample_def bs(3) poll parse_get_values_eq motor_value_def)
      (simp add: motor_reply_def)
  from feed_one_copies [OF f] new c(6-8) have c': "deliveries c' = []"
    "publishing c' = [DeliverMotor 1 ((values_of motor_reply)\<lparr>motor_stamp_ns := 7\<rparr>)]"
    by (simp_all add: motor_value_def copies_def invoke_callbacks_def)
  have "life_step (k, Threaded (Feeding [(3, 7)]), ?c3) (k, Threaded (Feeding []), c')"
    by (intro life_step.Thread system_step.Io io_step.FeedByte f) (simp add: c(6))
  from observed_step [OF last this] have "observed ?h ?s [motor_value] (k, Threaded (Feeding []), c')"
    using new c(8) by (simp add: motor_value_def registered_def registrations_def)
  from that [OF this c'(2,1)] show thesis .
qed

theorem subscription_delivery_witness:
  "\<exists>k c c'. observed (MotorState, 1) (example_kernel, NoThread, subscribed_client) [motor_value]
      (k, Threaded (Feeding []), c)
    \<and> calls (MotorState, 1) (deliveries c) = []
    \<and> observed (MotorState, 1) (k, Threaded (Feeding []), c\<lparr>registry := snd (handle_reset (Some (MotorState, 1)) (registry c))\<rparr>)
        [] (k, Threaded (Feeding []), c')
    \<and> calls (MotorState, 1) (deliveries c') = [motor_value] \<and> \<not> registered (MotorState, 1) (registry c')"
proof -
  let ?h = "(MotorState, 1 :: nat)" and ?d = "DeliverMotor 1 ((values_of motor_reply)\<lparr>motor_stamp_ns := 7\<rparr>)"
  obtain k c where run: "observed ?h (example_kernel, NoThread, subscribed_client) [motor_value] (k, Threaded (Feeding []), c)"
    and c: "publishing c = [?d]" "deliveries c = []" by (rule sample_is_published)
  let ?reset = "c\<lparr>registry := snd (handle_reset (Some ?h) (registry c))\<rparr>"
  let ?c' = "invoke_callback [] ?d [] ?reset"
  have "io_step (Feeding [], ?reset) (Feeding [], ?c')" by (rule io_step.InvokeCallback) (simp add: c(1))
  from observed_io [OF observed_refl this]
  have calls: "observed ?h (k, Threaded (Feeding []), ?reset) [] (k, Threaded (Feeding []), ?c')" by simp
  have sub: "subscribe MotorState True (registry motor_only) = (registry subscribed_client, Some ?h)"
    by (simp add: subscribe_def subscribe_motor_state_def subscribed_client_def motor_only_def new_client_def Let_def)
  have start: "motor_only\<lparr>registry := registry subscribed_client\<rparr> = subscribed_client"
    by (simp add: subscribed_client_def)
  have fresh: "fresh_process (example_kernel, NoThread, motor_only)"
    unfolding motor_only_def by (rule example_fresh)
  from subscription_delivery [OF fresh rtranclp.rtrancl_refl sub, unfolded start, OF run calls]
  have "calls ?h (deliveries ?c') @ calls ?h (publishing ?c') = [motor_value]" "\<not> registered ?h (registry ?c')" by blast+
  moreover have "publishing ?c' = []" by (simp add: invoke_callback_def)
  ultimately have "calls ?h (deliveries ?c') = [motor_value]" "\<not> registered ?h (registry ?c')" by simp_all
  moreover have "calls ?h (deliveries c) = []" by (simp add: c(2))
  ultimately show ?thesis using run calls by blast
qed

end
