(* ===== verification/Management.thy ===== *)
theory Management
  imports Lifecycle
begin

text \<open>
  The blocking operations of \<open>ControllerClient\<close> in \<open>src/controller_client.cpp\<close>: the firmware query, the
  reading and writing of configurations, the stored LispBM code, and the calibration.  An operation
  is a program over the calls it makes into the client: \<open>request_payload\<close>, \<open>set_app_output_disabled\<close>
  and the test of \<open>running_\<close>, each with a continuation for its result.  The clock reading from which
  an operation computes its deadline and the result of \<open>try_lock_until\<close> on the management mutex are
  arguments.  Theory \<open>Management_Runs\<close> relates the programs to the scheduler and the I/O thread.
\<close>

section \<open>Programs over the client\<close>

text \<open>\<open>Fault\<close>: a reply parser would have read outside its payload.\<close>

datatype 'a prog =
  Return 'a
| Fault
| RequestPayload bytes command_id time bool "payload option \<Rightarrow> 'a prog"
| SetAppOutput int "bool \<Rightarrow> 'a prog"
| LoadRunning "bool \<Rightarrow> 'a prog"

primrec and_then :: "'a prog \<Rightarrow> ('a \<Rightarrow> 'b prog) \<Rightarrow> 'b prog" where
  "and_then (Return x) f = f x"
| "and_then Fault f = Fault"
| "and_then (RequestPayload pkt cid dl stop k) f = RequestPayload pkt cid dl stop (\<lambda>r. and_then (k r) f)"
| "and_then (SetAppOutput d k) f = SetAppOutput d (\<lambda>ok. and_then (k ok) f)"
| "and_then (LoadRunning k) f = LoadRunning (\<lambda>b. and_then (k b) f)"

definition parsed :: "'a checked \<Rightarrow> ('a \<Rightarrow> 'b prog) \<Rightarrow> 'b prog" where
  "parsed v f = (case v of None \<Rightarrow> Fault | Some x \<Rightarrow> f x)"

text \<open>\<open>payload ? parse(*payload) : std::nullopt\<close>.\<close>

definition parse_reply :: "(payload \<Rightarrow> 'a option checked) \<Rightarrow> payload option \<Rightarrow> 'a option prog" where
  "parse_reply parse reply = (case reply of None \<Rightarrow> Return None | Some p \<Rightarrow> parsed (parse p) Return)"

text \<open>\<open>if (!reply) return NoReply; return ack(*reply) ? Success : Rejected\<close>.\<close>

definition ack_result :: "(payload \<Rightarrow> bool checked) \<Rightarrow> payload option \<Rightarrow> operation_result prog" where
  "ack_result ack reply =
     (case reply of
        None \<Rightarrow> Return NoReply
      | Some p \<Rightarrow> parsed (ack p) (\<lambda>ok. Return (if ok then Success else Rejected)))"

section \<open>Firmware version\<close>

definition request_fw_version :: "int \<Rightarrow> time \<Rightarrow> fw_version option prog" where
  "request_fw_version timeout now =
     (if timeout \<le> 0 then Return None
      else RequestPayload build_fw_version_request FwVersion (now + ms timeout) False (parse_reply parse_fw_version))"

section \<open>Configurations\<close>

definition request_motor_config_until :: "time \<Rightarrow> motor_config_image option prog" where
  "request_motor_config_until dl =
     RequestPayload build_get_motor_config_request GetMotorConfig dl True (parse_reply parse_motor_config)"

definition request_motor_config :: "int \<Rightarrow> time \<Rightarrow> bool \<Rightarrow> motor_config_image option prog" where
  "request_motor_config timeout now locked =
     (if timeout \<le> 0 then Return None
      else if \<not> locked then Return None
      else request_motor_config_until (now + ms timeout))"

definition write_motor_config :: "motor_config_image \<Rightarrow> int \<Rightarrow> time \<Rightarrow> bool \<Rightarrow> operation_result prog" where
  "write_motor_config img timeout now locked =
     (let pkt = build_set_motor_config_request img
      in if pkt = [] then Return InvalidData
         else
           let dl = now + ms timeout
           in if timeout \<le> 0 \<or> \<not> locked then Return NoReply
              else and_then (request_motor_config_until dl) (\<lambda>current.
                case current of
                  None \<Rightarrow> Return NoReply
                | Some current \<Rightarrow>
                    if \<not> same_config_signature (motor_bytes img) (motor_bytes current) then Return IncompatibleData
                    else RequestPayload pkt SetMotorConfig dl True
                           (ack_result (\<lambda>p. parse_config_ack p SetMotorConfig))))"

definition request_app_config_until :: "time \<Rightarrow> app_config_image option prog" where
  "request_app_config_until dl =
     RequestPayload build_get_app_config_request GetAppConfig dl True (parse_reply parse_app_config)"

definition request_app_config :: "int \<Rightarrow> time \<Rightarrow> bool \<Rightarrow> app_config_image option prog" where
  "request_app_config timeout now locked =
     (if timeout \<le> 0 then Return None
      else if \<not> locked then Return None
      else request_app_config_until (now + ms timeout))"

definition write_app_config :: "app_config_image \<Rightarrow> app_config_storage \<Rightarrow> int \<Rightarrow> time \<Rightarrow> bool \<Rightarrow> operation_result prog" where
  "write_app_config img storage timeout now locked =
     (let pkt = build_set_app_config_request img storage
      in if pkt = [] then Return InvalidData
         else
           let dl = now + ms timeout
           in if timeout \<le> 0 \<or> \<not> locked then Return NoReply
              else and_then (request_app_config_until dl) (\<lambda>current.
                case current of
                  None \<Rightarrow> Return NoReply
                | Some current \<Rightarrow>
                    if \<not> same_config_signature (app_bytes img) (app_bytes current) then Return IncompatibleData
                    else
                      let cid = (if storage = Persistent then SetAppConfig else SetAppConfigNoStore)
                      in RequestPayload pkt cid dl True (ack_result (\<lambda>p. parse_config_ack p cid))))"

section \<open>Stored LispBM code\<close>

definition kInitialLispReadBytes :: u32 where "kInitialLispReadBytes = 10"
definition kLispReadChunkBytes :: u32 where "kLispReadChunkBytes = 400"
definition kLispWriteChunkBytes :: nat where "kLispWriteChunkBytes = 384"
definition kEmptyLispEraseBytes :: u32 where "kEmptyLispEraseBytes = 16"
definition kLispEraseMarginBytes :: u32 where "kLispEraseMarginBytes = 100"

lemma unat_remaining: "length img < unat (t :: u32) \<Longrightarrow> unat (t - of_nat (length img)) = unat t - length img"
  using unsigned_less [of t, where ?'a = nat]
  by (subst unat_sub) (simp_all add: word_le_nat_alt unat_of_nat take_bit_nat_eq_self)

lemma unat_requested:
  "length img < unat (t :: u32) \<Longrightarrow>
     unat (min kLispReadChunkBytes (t - of_nat (length img))) = min 400 (unat t - length img)"
  by (simp add: min_def word_le_nat_alt unat_remaining kLispReadChunkBytes_def)

text \<open>The loop of \<open>request_lisp_code\<close>: \<open>img\<close> is what has been read.\<close>

function lisp_read_loop :: "time \<Rightarrow> u32 \<Rightarrow> bytes \<Rightarrow> lisp_code_image option prog" where
  "lisp_read_loop dl total_size img =
     (if length img < unat total_size then
        let remaining = total_size - of_nat (length img);
            requested = min kLispReadChunkBytes remaining
        in RequestPayload (build_lisp_read_request requested (of_nat (length img))) LispReadCode dl True (\<lambda>reply.
             case reply of
               None \<Rightarrow> Return None
             | Some p \<Rightarrow> parsed (parse_lisp_read_reply p) (\<lambda>chunk.
                 case chunk of
                   None \<Rightarrow> Return None
                 | Some (chunk, reply_total, reply_offset) \<Rightarrow>
                     if reply_total \<noteq> total_size \<or> unat reply_offset \<noteq> length img \<or> length chunk \<noteq> unat requested
                     then Return None
                     else lisp_read_loop dl total_size (img @ chunk)))
      else Return (Some \<lparr>lisp_bytes = img\<rparr>))"
  by pat_completeness auto

termination
  by (relation "measure (\<lambda>(dl, t, img). unat t - length img)") (auto simp: unat_requested)

definition request_lisp_code :: "int \<Rightarrow> time \<Rightarrow> bool \<Rightarrow> lisp_code_image option prog" where
  "request_lisp_code timeout now locked =
     (if timeout \<le> 0 then Return None
      else
        let dl = now + ms timeout
        in if \<not> locked then Return None
           else RequestPayload (build_lisp_read_request kInitialLispReadBytes 0) LispReadCode dl True (\<lambda>reply.
             case reply of
               None \<Rightarrow> Return None
             | Some p \<Rightarrow> parsed (parse_lisp_read_reply p) (\<lambda>chunk.
                 case chunk of
                   None \<Rightarrow> Return None
                 | Some (chunk, total_size, offset) \<Rightarrow>
                     if offset \<noteq> 0 then Return None
                     else if total_size = 0 then Return (Some \<lparr>lisp_bytes = []\<rparr>)
                     else if total_size < kInitialLispReadBytes \<or> length chunk \<noteq> unat kInitialLispReadBytes then Return None
                     else lisp_read_loop dl total_size chunk)))"

definition erase_lisp_code_until :: "u32 \<Rightarrow> time \<Rightarrow> operation_result prog" where
  "erase_lisp_code_until sz dl =
     (let pkt = build_lisp_erase_request sz
      in if pkt = [] then Return InvalidData
         else RequestPayload pkt LispEraseCode dl True (ack_result (\<lambda>p. parse_bool_ack p LispEraseCode)))"

definition erase_lisp_code :: "int \<Rightarrow> time \<Rightarrow> bool \<Rightarrow> operation_result prog" where
  "erase_lisp_code timeout now locked =
     (if timeout \<le> 0 \<or> \<not> locked then Return NoReply
      else erase_lisp_code_until kEmptyLispEraseBytes (now + ms timeout))"

text \<open>The loop of \<open>write_lisp_code\<close>.  The offset, a 32-bit counter in the code, never exceeds the length
  of the packed image, which is below \<open>2 ^ 20\<close>.\<close>

function lisp_write_loop :: "time \<Rightarrow> bytes \<Rightarrow> nat \<Rightarrow> operation_result prog" where
  "lisp_write_loop dl packed offset =
     (if offset < length packed then
        let chunk_size = min kLispWriteChunkBytes (length packed - offset);
            chunk = take chunk_size (drop offset packed)
        in RequestPayload (build_lisp_write_request chunk (of_nat offset)) LispWriteCode dl True (\<lambda>reply.
             case reply of
               None \<Rightarrow> Return NoReply
             | Some p \<Rightarrow> parsed (parse_lisp_write_ack p (of_nat offset)) (\<lambda>ok.
                 if \<not> ok then Return Rejected else lisp_write_loop dl packed (offset + chunk_size)))
      else Return Success)"
  by pat_completeness auto

termination
  by (relation "measure (\<lambda>(dl, packed, offset). length packed - offset)") (auto simp: kLispWriteChunkBytes_def)

declare lisp_read_loop.simps [simp del] lisp_write_loop.simps [simp del]

definition write_lisp_code :: "lisp_code_image \<Rightarrow> int \<Rightarrow> time \<Rightarrow> bool \<Rightarrow> operation_result prog" where
  "write_lisp_code img timeout now locked =
     (let packed = pack_lisp_code img
      in if packed = [] then Return InvalidData
         else
           let dl = now + ms timeout
           in if timeout \<le> 0 \<or> \<not> locked then Return NoReply
              else
                let erase_size = of_nat (length (lisp_bytes img) + 2 + unat kLispEraseMarginBytes)
                in and_then (erase_lisp_code_until erase_size dl) (\<lambda>erase_result.
                     if erase_result \<noteq> Success then Return erase_result
                     else lisp_write_loop dl packed 0))"

definition set_lisp_running :: "bool \<Rightarrow> int \<Rightarrow> time \<Rightarrow> bool \<Rightarrow> operation_result prog" where
  "set_lisp_running run timeout now locked =
     (if timeout \<le> 0 \<or> \<not> locked then Return NoReply
      else RequestPayload (build_lisp_set_running_request run) LispSetRunning (now + ms timeout) True
             (ack_result (\<lambda>p. parse_bool_ack p LispSetRunning)))"

section \<open>Calibration\<close>

text \<open>The duration, in milliseconds, for which application output is suppressed.\<close>

definition suppression_duration :: "int \<Rightarrow> int" where
  "suppression_duration timeout =
     (let kSuppressionMargin = 5000; max_duration = int32_max
      in if timeout > max_duration - kSuppressionMargin then max_duration else timeout + kSuppressionMargin)"

definition calibration_result :: "payload option \<Rightarrow> foc_calibration_result prog" where
  "calibration_result reply =
     (case reply of
        None \<Rightarrow> Return \<lparr>operation = NoReply, firmware_code = None\<rparr>
      | Some p \<Rightarrow> parsed (parse_foc_calibration_reply p) (\<lambda>code.
          case code of
            None \<Rightarrow> Return \<lparr>operation = Rejected, firmware_code = None\<rparr>
          | Some code \<Rightarrow>
              Return \<lparr>operation = (if sint code < 0 then Rejected else Success), firmware_code = Some code\<rparr>))"

definition run_foc_calibration :: "foc_calibration_parameters \<Rightarrow> int \<Rightarrow> time \<Rightarrow> bool \<Rightarrow> foc_calibration_result prog" where
  "run_foc_calibration parameters timeout now locked =
     (let pkt = build_foc_calibration_request parameters
      in if pkt = [] then Return \<lparr>operation = InvalidData, firmware_code = None\<rparr>
         else
           let dl = now + ms timeout
           in if timeout \<le> 0 \<or> \<not> locked then Return \<lparr>operation = NoReply, firmware_code = None\<rparr>
              else SetAppOutput (suppression_duration timeout) (\<lambda>queued.
                if \<not> queued then Return \<lparr>operation = NoReply, firmware_code = None\<rparr>
                else RequestPayload pkt DetectApplyAllFoc dl True (\<lambda>reply.
                  LoadRunning (\<lambda>r.
                    if r then SetAppOutput 0 (\<lambda>_. calibration_result reply)
                    else calibration_result reply))))"

end
