(* ===== verification/Management_Runs.thy ===== *)
theory Management_Runs
  imports Management
begin

text \<open>
  What the programs of \<open>Management\<close> do.  A run of a program is the sequence of its calls with their
  results; \<open>run_prog\<close> replays such a sequence.  The relation \<open>exec\<close> runs a program on the client: its
  requests go through the request queue, the I/O thread and the calls of other threads interleave
  with it, and a request returns when its query is completed.  Every execution on the client is a
  run in which each reply carries the identifier that its request expects.
\<close>

section \<open>Runs\<close>

datatype event =
  Asked bytes command_id time bool "payload option"
| OutputSet int bool
| SawRunning bool

primrec run_prog :: "'a prog \<Rightarrow> event list \<Rightarrow> 'a option" where
  "run_prog (Return x) es = (if es = [] then Some x else None)"
| "run_prog Fault es = None"
| "run_prog (RequestPayload pkt cid dl stop k) es =
     (case es of
        Asked pkt' cid' dl' stop' r # rest \<Rightarrow>
          if (pkt', cid', dl', stop') = (pkt, cid, dl, stop) then run_prog (k r) rest else None
      | _ \<Rightarrow> None)"
| "run_prog (SetAppOutput d k) es =
     (case es of OutputSet d' ok # rest \<Rightarrow> if d' = d then run_prog (k ok) rest else None | _ \<Rightarrow> None)"
| "run_prog (LoadRunning k) es =
     (case es of SawRunning b # rest \<Rightarrow> run_prog (k b) rest | _ \<Rightarrow> None)"

lemma run_Return [simp]: "run_prog (Return x) es = Some y \<longleftrightarrow> es = [] \<and> y = x"
  by auto

lemma run_RequestPayload:
  "run_prog (RequestPayload pkt cid dl stop k) es = Some x \<longleftrightarrow>
     (\<exists>r rest. es = Asked pkt cid dl stop r # rest \<and> run_prog (k r) rest = Some x)"
  by (auto split: list.splits event.splits)

lemma run_SetAppOutput:
  "run_prog (SetAppOutput d k) es = Some x \<longleftrightarrow> (\<exists>ok rest. es = OutputSet d ok # rest \<and> run_prog (k ok) rest = Some x)"
  by (auto split: list.splits event.splits)

lemma run_LoadRunning:
  "run_prog (LoadRunning k) es = Some x \<longleftrightarrow> (\<exists>b rest. es = SawRunning b # rest \<and> run_prog (k b) rest = Some x)"
  by (auto split: list.splits event.splits)

lemma run_and_then:
  "run_prog (and_then m f) es = Some y \<longleftrightarrow>
     (\<exists>es1 es2 x. es = es1 @ es2 \<and> run_prog m es1 = Some x \<and> run_prog (f x) es2 = Some y)"
proof (induction m arbitrary: es)
  case (RequestPayload pkt cid dl stop k)
  then show ?case by (auto simp: run_RequestPayload simp del: run_prog.simps) (metis append_Cons)+
next
  case (SetAppOutput d k)
  then show ?case by (auto simp: run_SetAppOutput simp del: run_prog.simps) (metis append_Cons)+
next
  case (LoadRunning k)
  then show ?case by (auto simp: run_LoadRunning simp del: run_prog.simps) (metis append_Cons)+
qed auto

lemmas run_simps = run_RequestPayload run_SetAppOutput run_LoadRunning run_and_then

text \<open>The programs never fault, and each request carries the identifier that it expects back.\<close>

primrec wf_prog :: "'a prog \<Rightarrow> bool" where
  "wf_prog (Return x) = True"
| "wf_prog Fault = False"
| "wf_prog (RequestPayload pkt cid dl stop k) = (framed_command cid pkt \<and> (\<forall>r. wf_prog (k r)))"
| "wf_prog (SetAppOutput d k) = (\<forall>ok. wf_prog (k ok))"
| "wf_prog (LoadRunning k) = (\<forall>b. wf_prog (k b))"

lemma wf_and_then: "wf_prog m \<Longrightarrow> (\<And>x. wf_prog (f x)) \<Longrightarrow> wf_prog (and_then m f)"
  by (induction m) auto

section \<open>Executions on the client\<close>

text \<open>\<open>io\<close>: the caller is a callback on the I/O thread, where \<open>request_payload\<close> returns at once.\<close>

inductive exec :: "bool \<Rightarrow> 'a prog \<Rightarrow> system \<Rightarrow> event list \<Rightarrow> 'a \<Rightarrow> system \<Rightarrow> bool" for io where
  Returned: "exec io (Return x) s [] x s"
| Meanwhile: "system_step s s' \<Longrightarrow> exec io m s' es x t \<Longrightarrow> exec io m s es x t"
| Refused: "submit_query io now pkt cid dl stop c = (c', None) \<Longrightarrow> exec io (k None) (pc, c') es x t \<Longrightarrow>
    exec io (RequestPayload pkt cid dl stop k) (pc, c) (Asked pkt cid dl stop None # es) x t"
| Waited: "submit_query io now pkt cid dl stop c = (c', Some q) \<Longrightarrow> system_step\<^sup>*\<^sup>* (pc, c') (pc2, c2) \<Longrightarrow>
    query_result q c2 = Some r \<Longrightarrow> exec io (k r) (pc2, c2) es x t \<Longrightarrow>
    exec io (RequestPayload pkt cid dl stop k) (pc, c) (Asked pkt cid dl stop r # es) x t"
| Output: "set_app_output_disabled now d c = (c', ok) \<Longrightarrow> exec io (k ok) (pc, c') es x t \<Longrightarrow>
    exec io (SetAppOutput d k) (pc, c) (OutputSet d ok # es) x t"
| Running: "exec io (k (running c)) (pc, c) es x t \<Longrightarrow>
    exec io (LoadRunning k) (pc, c) (SawRunning (running c) # es) x t"

text \<open>A reply that was delivered carries the identifier its request expects.\<close>

definition matched :: "event \<Rightarrow> bool" where
  "matched e = (case e of Asked pkt cid dl stop (Some p) \<Rightarrow> p \<noteq> [] \<and> hd p = id_byte cid | _ \<Rightarrow> True)"

section \<open>Whose reply a query gets\<close>

text \<open>The request that owns query \<open>q\<close> expects the identifier \<open>b\<close>, and a result of \<open>q\<close> carries it.\<close>

definition answers_with :: "nat \<Rightarrow> byte \<Rightarrow> client \<Rightarrow> bool" where
  "answers_with q b c \<longleftrightarrow>
     q < length (queries c) \<and>
     (\<forall>r \<in> set (outstanding c). query_ref r = Some q \<longrightarrow> expected_id r = b) \<and>
     (case result (queries c ! q) of None \<Rightarrow> True | Some p \<Rightarrow> p \<noteq> [] \<and> hd p = b)"

lemma answers_withI:
  assumes "answers_with q b c" "length (queries c) \<le> length (queries c')"
    and "\<And>r. r \<in> set (outstanding c') \<Longrightarrow> r \<in> set (outstanding c) \<or> query_ref r \<noteq> Some q"
    and "result (queries c' ! q) = result (queries c ! q) \<or> (\<exists>p. result (queries c' ! q) = Some p \<and> p \<noteq> [] \<and> hd p = b)"
  shows "answers_with q b c'"
  using assms by (fastforce simp: answers_with_def)

lemma answers_with_same:
  "answers_with q b c \<Longrightarrow> queries c' = queries c \<Longrightarrow> set (outstanding c') \<subseteq> set (outstanding c) \<Longrightarrow> answers_with q b c'"
  by (rule answers_withI) auto

lemma answers_with_mark:
  "answers_with q b c \<Longrightarrow> queries c' = mark gone (queries c) \<Longrightarrow> set (outstanding c') \<subseteq> set (outstanding c) \<Longrightarrow>
     answers_with q b c'"
  by (rule answers_withI [of q b c]) (auto simp: nth_mark answers_with_def)

lemma outstanding_iff: "r \<in> set (outstanding c) \<longleftrightarrow> r \<in> set (request_queue c) \<or> in_flight_request c = Some r"
  by (auto simp: outstanding_def in_flight_list_def split: option.splits)

lemma answers_with_timeout:
  assumes "answers_with q b c" "handle_request_timeout now c = (c', stop)"
  shows "answers_with q b c'"
proof (rule answers_with_mark [OF assms(1)])
  show "queries c' = mark (refs (overdue_in_flight now c @ filter (\<lambda>r. deadline r \<le> now) (request_queue c))) (queries c)"
    using timeout_queries [of now c] assms(2) by simp
  show "set (outstanding c') \<subseteq> set (outstanding c)"
    using assms(2) by (auto simp: handle_request_timeout_eq Let_def outstanding_iff split: if_splits)
qed

lemma answers_with_clear: "answers_with q b c \<Longrightarrow> answers_with q b (clear_pending_work c)"
  by (erule answers_with_mark [where gone = "refs (outstanding c)"])
    (auto simp: clear_pending_work_eq outstanding_iff)

lemma answers_with_only_io: "answers_with q b c \<Longrightarrow> only_io c out c' \<Longrightarrow> answers_with q b c'"
  by (erule answers_with_same) (auto simp: only_io_def outstanding_iff)

lemma answers_with_write: "answers_with q b c \<Longrightarrow> write_packet steps pkt c = Some (c', ok) \<Longrightarrow> answers_with q b c'"
  by (auto elim!: write_packet_io intro: answers_with_only_io)

lemma answers_with_dispatch:
  assumes "answers_with q b c" "dispatch_payload p stamp c = Some c'"
  shows "answers_with q b c'"
proof (cases "answered p c")
  case None
  then have "in_flight_request c = None \<or> p = [] \<or> (\<exists>r. in_flight_request c = Some r \<and> expected_id r \<noteq> p ! 0)"
    by (auto simp: answered_def split: option.splits if_splits)
  from dispatch_ignored [OF this, of stamp] assms show ?thesis by simp
next
  case (Some r)
  then have r: "in_flight_request c = Some r" "p \<noteq> []" "expected_id r = p ! 0"
    by (auto simp: answered_def split: option.splits if_splits)
  then have own: "query_ref r = Some q \<Longrightarrow> hd p = b"
    using assms(1) by (auto simp: answers_with_def outstanding_iff hd_conv_nth)
  have d: "in_flight_request c' = None" "request_queue c' = request_queue c"
    "queries c' = (if request_kind r = Query then queries (on_success r p c) else queries c)"
    using dispatch_payload_eq [OF r, of stamp] assms(2) by auto
  show ?thesis
  proof (rule answers_withI [OF assms(1)])
    show "length (queries c) \<le> length (queries c')" by (simp add: d(3) on_success_def split: option.split)
    show "x \<in> set (outstanding c) \<or> query_ref x \<noteq> Some q" if "x \<in> set (outstanding c')" for x
      using that d(1,2) by (simp add: outstanding_iff)
    show "result (queries c' ! q) = result (queries c ! q) \<or> (\<exists>p. result (queries c' ! q) = Some p \<and> p \<noteq> [] \<and> hd p = b)"
    proof (cases "query_ref r = Some q \<and> request_kind r = Query")
      case True
      then show ?thesis using own r(2) assms(1) by (auto simp: d(3) on_success_def answers_with_def)
    next
      case False
      then show ?thesis by (auto simp: d(3) on_success_def split: option.split)
    qed
  qed
qed

lemma answers_with_parser: "answers_with q b (c\<lparr>parser := buf\<rparr>) = answers_with q b c"
  by (simp add: answers_with_def outstanding_def in_flight_list_def)

lemma answers_with_feed_one:
  assumes "answers_with q b c" "feed_one x c = Some c'"
  shows "answers_with q b c'"
proof -
  obtain byte stamp where x: "x = (byte, stamp)" by (cases x)
  from assms(2) obtain buf d where "(case d of None \<Rightarrow> Some (c\<lparr>parser := buf\<rparr>) | Some p \<Rightarrow> dispatch_payload p stamp (c\<lparr>parser := buf\<rparr>)) = Some c'"
    by (auto simp: x Let_def split: Option.bind_splits prod.splits)
  then show ?thesis
    using assms(1) answers_with_dispatch [of q b "c\<lparr>parser := buf\<rparr>"] by (cases d) (auto simp: answers_with_parser)
qed

lemma answers_with_calls [simp]:
  "answers_with q b (finish_publishing c) = answers_with q b c"
  "answers_with q b (invoke_callback before d after c) = answers_with q b c"
  by (simp_all add: answers_with_def outstanding_def in_flight_list_def finish_publishing_def invoke_callback_def)

lemma answers_with_feed: "feed_input input c = Some c' \<Longrightarrow> answers_with q b c \<Longrightarrow> answers_with q b c'"
proof (induction input arbitrary: c)
  case (Cons x input)
  then obtain c1 where "feed_one x c = Some c1" "feed_input input (finish_publishing c1) = Some c'"
    by (auto simp del: feed_one.simps split: Option.bind_splits)
  with Cons answers_with_feed_one [OF Cons.prems(2)] show ?case by simp
qed simp

lemma answers_with_read: "answers_with q b c \<Longrightarrow> read_once outcome c = Some (c', again) \<Longrightarrow> answers_with q b c'"
  by (auto simp: read_once_def intro: answers_with_feed answers_with_same
      split: read_outcome.splits Option.bind_splits)
    (auto simp: answers_with_def outstanding_def in_flight_list_def)

text \<open>Steps that touch neither the queries nor the requests.\<close>

lemma answers_with_frame [simp]:
  "answers_with q b (stop_running c) = answers_with q b c" "answers_with q b (drain_wake_pipe c) = answers_with q b c"
  "answers_with q b (begin_pass now c) = answers_with q b c" "answers_with q b (wake_io_thread c) = answers_with q b c"
  "answers_with q b (store_channel ch c) = answers_with q b c" "answers_with q b (c\<lparr>registry := g\<rparr>) = answers_with q b c"
  "answers_with q b (c\<lparr>running := v\<rparr>) = answers_with q b c"
  "answers_with q b (fst (enqueue_command now pkt refresh c)) = answers_with q b c"
  "answers_with q b (fst (dequeue_due_watchdog_command now c)) = answers_with q b c"
  "answers_with q b (fst (dequeue_command c)) = answers_with q b c"
  "answers_with q b (set_motor_poll_interval n c) = answers_with q b c"
  "answers_with q b (set_imu_poll_interval n c) = answers_with q b c"
  by (simp_all add: answers_with_def outstanding_def in_flight_list_def stop_running_def drain_wake_pipe_def begin_pass_def
      wake_io_thread_def store_channel_def enqueue_command_def dequeue_due_watchdog_command_def dequeue_command_def
      set_motor_poll_interval_def set_imu_poll_interval_def Let_def split: option.split poll_kind.split)

lemma answers_with_dequeues:
  "dequeue_due_watchdog_command now c = (c', w) \<Longrightarrow> answers_with q b c' = answers_with q b c"
  "dequeue_command c = (c', w) \<Longrightarrow> answers_with q b c' = answers_with q b c"
  using answers_with_frame(9,10) by (metis fst_conv)+

lemma set_tl_filter: "x \<in> set (tl (filter P xs)) \<Longrightarrow> x \<in> set xs"
  by (metis filter_is_subset list.sel(2) list.set_sel(2) subsetD)

lemma answers_with_ready:
  assumes "answers_with q b c" "dequeue_ready_query now c = (c', r)"
  shows "answers_with q b c'" "r = Some query \<Longrightarrow> query \<in> set (outstanding c)"
proof -
  have "queries c' = mark (refs (filter (\<lambda>r. deadline r \<le> now) (request_queue c))) (queries c)"
    "set (outstanding c') \<subseteq> set (outstanding c)"
    using assms(2) by (auto simp: dequeue_ready_query_eq Let_def outstanding_iff dest: set_tl_filter split: if_splits)
  with assms(1) show "answers_with q b c'" by (blast intro: answers_with_mark)
  show "r = Some query \<Longrightarrow> query \<in> set (outstanding c)"
    using assms(2) by (auto simp: dequeue_ready_query_eq Let_def outstanding_iff dest!: hd_in_set split: if_splits)
qed

lemma answers_with_in_flight:
  "answers_with q b c \<Longrightarrow> (query_ref r = Some q \<Longrightarrow> expected_id r = b) \<Longrightarrow> answers_with q b (c\<lparr>in_flight_request := Some r\<rparr>)"
  by (auto simp: answers_with_def outstanding_iff)

lemma answers_with_on_timeout: "answers_with q b c \<Longrightarrow> answers_with q b (on_timeout r c)"
  by (rule answers_with_mark [where gone = "refs [r]"]) (auto simp: on_timeout_mark outstanding_iff)

lemma poll_has_no_query: "make_due_poll_request config ch now = (ch', Some r) \<Longrightarrow> query_ref r = None"
  by (auto simp: make_due_poll_request_def Let_def split: if_splits)

lemma answers_with_io: "io_step s t \<Longrightarrow> answers_with q b (snd s) \<Longrightarrow> answers_with q b (snd t)"
proof (induction rule: io_step.induct)
  case (BeginPass c now schedule_now c' stop)
  then show ?case using answers_with_timeout [of q b "begin_pass schedule_now c"] by simp
next
  case (SendPoll c after_io ch ch' poll steps c' ok)
  then have "answers_with q b c'" using answers_with_write [of q b "store_channel ch' c"] by simp
  then show ?case using poll_has_no_query [OF SendPoll.hyps(3)] by (auto intro!: answers_with_in_flight)
next
  case (SendQuery c after_io c1 query steps c' ok)
  have "answers_with q b c1" "query \<in> set (outstanding c)"
    using answers_with_ready [OF _ SendQuery.hyps(3)] SendQuery.prems by auto
  then have "answers_with q b c'" "query_ref query = Some q \<Longrightarrow> expected_id query = b"
    using answers_with_write [OF _ SendQuery.hyps(4)] SendQuery.prems by (auto simp: answers_with_def)
  then show ?case by (auto intro!: answers_with_in_flight answers_with_on_timeout)
qed (auto simp: after_write_def answers_with_clear simp del: feed_one.simps intro: answers_with_timeout answers_with_read answers_with_feed_one answers_with_write answers_with_ready
      dest!: answers_with_dequeues split: prod.splits)

lemma answers_with_api: "api_step c c' \<Longrightarrow> answers_with q b c \<Longrightarrow> answers_with q b c'"
proof (induction rule: api_step.induct)
  case (Submit cid pkt c io now dl stop)
  then show ?case
    by (intro answers_withI [OF Submit.prems])
      (auto simp: submit_query_def Let_def outstanding_iff answers_with_def nth_append wake_io_thread_def split: if_splits)
qed (auto simp: set_rpm_def set_duty_def set_current_def set_current_brake_def set_servo_pos_def Let_def
      set_app_output_disabled_def enqueue_control_command_def disconnect_signal_def)

lemma answers_with_steps: "system_step\<^sup>*\<^sup>* s t \<Longrightarrow> answers_with q b (snd s) \<Longrightarrow> answers_with q b (snd t)"
proof (induction rule: rtranclp_induct)
  case (step y z)
  from step.hyps(2) show ?case
    by (cases rule: system_step.cases) (use step.IH step.prems answers_with_io answers_with_api in fastforce)+
qed

section \<open>Every execution is a run\<close>

lemma in_refs: "q \<in> set (refs rs) \<longleftrightarrow> (\<exists>r \<in> set rs. query_ref r = Some q)"
  by (force simp: refs_def List.map_filter_def)

lemma submitted_answers:
  assumes "client_ok c" "submit_query io now pkt cid dl stop c = (c', Some q)"
  shows "answers_with q (id_byte cid) c'"
proof -
  have fresh: "query_ref r \<noteq> Some (length (queries c))" if "r \<in> set (outstanding c)" for r
  proof
    assume "query_ref r = Some (length (queries c))"
    with that have "length (queries c) \<in> set (refs (outstanding c))" by (auto simp: in_refs)
    with assms(1) show False
      by (metis client_ok_def finite_unfinished finite_set_mset_mset_set less_irrefl mem_Collect_eq append_Nil2
          owned_def requests_ok_def set_mset_mset unfinished_def)
  qed
  show ?thesis
    using assms(2) fresh
    by (auto simp: submit_query_def Let_def answers_with_def outstanding_iff wake_io_thread_def split: if_splits)
qed

lemma exec_refines:
  assumes "exec io m s es x t" "wf_prog m" "system_ok s"
  shows "run_prog m es = Some x \<and> (\<forall>e \<in> set es. matched e) \<and> system_step\<^sup>*\<^sup>* s t"
  using assms
proof (induction rule: exec.induct)
  case (Meanwhile s s' m es x t)
  then have "system_ok s'" using client_system.step_inv by blast
  with Meanwhile show ?case by (auto intro: converse_rtranclp_into_rtranclp)
next
  case (Refused now pkt cid dl stop c c' k pc es x t)
  then have st: "system_step (pc, c) (pc, c')"
    using api_step.Submit [of cid pkt c io now dl stop] by (auto intro: system_step.Api)
  then have "system_ok (pc, c')" using Refused.prems client_system.step_inv by blast
  with Refused st show ?case by (auto simp: matched_def intro: converse_rtranclp_into_rtranclp)
next
  case (Waited now pkt cid dl stop c c' q pc pc2 c2 r k es x t)
  then have st: "system_step (pc, c) (pc, c')"
    using api_step.Submit [of cid pkt c io now dl stop] by (auto intro: system_step.Api)
  then have steps: "system_step\<^sup>*\<^sup>* (pc, c) (pc2, c2)"
    using Waited.hyps(2) by (rule converse_rtranclp_into_rtranclp)
  then have ok: "system_ok (pc2, c2)" using Waited.prems client_system.steps_inv by blast
  have "answers_with q (id_byte cid) c'"
    using submitted_answers [OF _ Waited.hyps(1)] Waited.prems by (simp add: system_ok_def)
  then have "answers_with q (id_byte cid) c2" using answers_with_steps [OF Waited.hyps(2)] by simp
  then have "matched (Asked pkt cid dl stop r)"
    using Waited.hyps(3) by (auto simp: answers_with_def query_result_def matched_def split: if_splits option.splits)
  with Waited.IH ok Waited.prems steps show ?case by auto
next
  case (Output now d c c' ok k pc es x t)
  then have st: "system_step (pc, c) (pc, c')"
    using api_step.SetAppOutput [of c now d] by (auto intro: system_step.Api)
  then have "system_ok (pc, c')" using Output.prems client_system.step_inv by blast
  with Output st show ?case by (auto simp: matched_def intro: converse_rtranclp_into_rtranclp)
qed (auto simp: matched_def)

section \<open>The operations\<close>

lemmas reply_parser_eqs = config_ack_eq bool_ack_eq lisp_write_ack_eq reply_parsers_defined [unfolded not_None_eq]

lemma wf_parsed: "\<exists>y. v = Some y \<Longrightarrow> (\<And>x. wf_prog (f x)) \<Longrightarrow> wf_prog (parsed v f)"
  by (auto simp: parsed_def split: option.split)

lemma wf_parse_reply: "(\<And>p. \<exists>y. parse p = Some y) \<Longrightarrow> wf_prog (parse_reply parse reply)"
  by (auto simp: parse_reply_def intro!: wf_parsed split: option.split)

lemma wf_ack_result: "(\<And>p. \<exists>y. ack p = Some y) \<Longrightarrow> wf_prog (ack_result ack reply)"
  by (auto simp: ack_result_def intro!: wf_parsed split: option.split)

lemma request_packets_framed:
  "framed_command FwVersion build_fw_version_request"
  "framed_command GetMotorConfig build_get_motor_config_request"
  "framed_command SetMotorConfig (build_set_motor_config_request motor)"
  "framed_command GetAppConfig build_get_app_config_request"
  "framed_command SetAppConfig (build_set_app_config_request app Persistent)"
  "storage \<noteq> Persistent \<Longrightarrow> framed_command SetAppConfigNoStore (build_set_app_config_request app storage)"
  "framed_command LispReadCode (build_lisp_read_request len offset)"
  "framed_command LispEraseCode (build_lisp_erase_request len)"
  "framed_command LispWriteCode (build_lisp_write_request chunk offset)"
  "framed_command LispSetRunning (build_lisp_set_running_request run)"
  "framed_command DetectApplyAllFoc (build_foc_calibration_request foc)"
  by (cases storage; simp add: request_defs append_be framed_frame framed_foc del: id_byte.simps)+

lemma wf_lisp_read_loop: "wf_prog (lisp_read_loop dl total_size img)"
proof (induction dl total_size img rule: lisp_read_loop.induct)
  case (1 dl total_size img)
  show ?case
    by (subst lisp_read_loop.simps)
      (auto simp: Let_def request_packets_framed reply_parser_eqs
        intro!: wf_parsed 1 split: option.split)
qed

lemma wf_lisp_write_loop: "wf_prog (lisp_write_loop dl packed offset)"
proof (induction dl packed offset rule: lisp_write_loop.induct)
  case (1 dl packed offset)
  show ?case
    by (subst lisp_write_loop.simps)
      (auto simp: Let_def request_packets_framed reply_parser_eqs
        intro!: wf_parsed 1 split: option.split)
qed

lemmas wf_intros = wf_and_then wf_parsed wf_parse_reply wf_ack_result

lemma wf_operations:
  "wf_prog (request_fw_version timeout now)"
  "wf_prog (request_motor_config timeout now locked)" "wf_prog (write_motor_config motor timeout now locked)"
  "wf_prog (request_app_config timeout now locked)" "wf_prog (write_app_config app storage timeout now locked)"
  "wf_prog (request_lisp_code timeout now locked)" "wf_prog (erase_lisp_code timeout now locked)"
  "wf_prog (write_lisp_code code timeout now locked)" "wf_prog (set_lisp_running run timeout now locked)"
  "wf_prog (run_foc_calibration foc timeout now locked)"
  by (auto simp: request_fw_version_def request_motor_config_def request_motor_config_until_def write_motor_config_def
      request_app_config_def request_app_config_until_def write_app_config_def request_lisp_code_def
      erase_lisp_code_def erase_lisp_code_until_def write_lisp_code_def set_lisp_running_def run_foc_calibration_def
      calibration_result_def Let_def request_packets_framed reply_parser_eqs
      wf_lisp_read_loop wf_lisp_write_loop
      intro!: wf_intros split: option.split)

text \<open>The operations with their results in one type.\<close>

datatype operation =
  ReadFirmware | ReadMotor | WriteMotor motor_config_image | ReadApp | WriteApp app_config_image app_config_storage
| ReadLisp | EraseLisp | WriteLisp lisp_code_image | SetLispRunning bool | Calibrate foc_calibration_parameters

datatype outcome =
  FirmwareIs "fw_version option" | MotorIs "motor_config_image option" | AppIs "app_config_image option"
| LispIs "lisp_code_image option" | Ended operation_result | Calibrated foc_calibration_result

definition perform :: "operation \<Rightarrow> int \<Rightarrow> time \<Rightarrow> bool \<Rightarrow> outcome prog" where
  "perform op timeout now locked =
     (case op of
        ReadFirmware \<Rightarrow> map_prog FirmwareIs (request_fw_version timeout now)
      | ReadMotor \<Rightarrow> map_prog MotorIs (request_motor_config timeout now locked)
      | WriteMotor img \<Rightarrow> map_prog Ended (write_motor_config img timeout now locked)
      | ReadApp \<Rightarrow> map_prog AppIs (request_app_config timeout now locked)
      | WriteApp img storage \<Rightarrow> map_prog Ended (write_app_config img storage timeout now locked)
      | ReadLisp \<Rightarrow> map_prog LispIs (request_lisp_code timeout now locked)
      | EraseLisp \<Rightarrow> map_prog Ended (erase_lisp_code timeout now locked)
      | WriteLisp img \<Rightarrow> map_prog Ended (write_lisp_code img timeout now locked)
      | SetLispRunning run \<Rightarrow> map_prog Ended (set_lisp_running run timeout now locked)
      | Calibrate foc \<Rightarrow> map_prog Calibrated (run_foc_calibration foc timeout now locked))"

lemma wf_map: "wf_prog (map_prog f m) = wf_prog m"
  by (induction m) auto

lemma wf_perform: "wf_prog (perform op timeout now locked)"
  by (cases op) (simp_all add: perform_def wf_map wf_operations)

text \<open>
  C37: Every operation, whatever else the client does meanwhile and however its requests end,
  behaves as its sequential program says: the result is that of the program on the replies its
  requests got, a reply that is delivered carries the identifier the request expects, no parser
  reads outside a reply, and the client stays in a reachable state.
\<close>

theorem operations_are_sequential:
  assumes "started s0" "system_step\<^sup>*\<^sup>* s0 s" "exec io (perform op timeout now locked) s es x t"
  shows "run_prog (perform op timeout now locked) es = Some x
    \<and> (\<forall>e \<in> set es. matched e) \<and> system_step\<^sup>*\<^sup>* s0 t"
proof -
  have "system_ok s" by (rule client_system.reachable_inv [OF assms(1,2)])
  from exec_refines [OF assms(3) wf_perform this] assms(2) show ?thesis by auto
qed

theorem operations_are_sequential_witness:
  "run_prog (perform ReadFirmware 5 0 True) [Asked build_fw_version_request FwVersion (ms 5) False None] = Some (FirmwareIs None)"
proof -
  let ?s = "(LoopTop, (new_client default_controller_config)\<lparr>running := True\<rparr>)"
  have "exec True (perform ReadFirmware 5 0 True) ?s [Asked build_fw_version_request FwVersion (ms 5) False None] (FirmwareIs None) ?s"
    by (auto simp: perform_def request_fw_version_def parse_reply_def submit_query_def intro!: exec.Refused exec.Returned)
  from operations_are_sequential [OF started_new rtranclp.rtrancl_refl this] show ?thesis by blast
qed

end
