(* ===== verification/Management_Spec.thy ===== *)
theory Management_Spec
  imports Management_Runs
begin

text \<open>
  The contracts of the management operations: which exchanges with the controller they have, in
  which order, and which result each exchange gives.
\<close>

section \<open>Writing a configuration\<close>

text \<open>A configuration image that fits one packet and holds a schema signature.\<close>

definition usable :: "bytes \<Rightarrow> bool" where
  "usable img \<longleftrightarrow> 4 \<le> length img \<and> length img \<le> 511"

text \<open>The outcome of the final request: the bare identifier acknowledges.\<close>

definition ack_outcome :: "byte list \<Rightarrow> payload option \<Rightarrow> operation_result" where
  "ack_outcome good reply = (if reply = Some good then Success else if reply = None then NoReply else Rejected)"

text \<open>The exchanges of a configuration write and their results: nothing is sent for an unusable image
  or without the mutex; the active configuration is read first; the image is sent only when the
  active configuration has the same four-byte signature.\<close>

definition config_write_spec ::
  "command_id \<Rightarrow> command_id \<Rightarrow> bytes \<Rightarrow> bool \<Rightarrow> time \<Rightarrow> event list \<Rightarrow> operation_result \<Rightarrow> bool" where
  "config_write_spec get put img ready dl es res \<longleftrightarrow>
     (\<not> usable img \<and> es = [] \<and> res = InvalidData)
   \<or> (usable img \<and> \<not> ready \<and> es = [] \<and> res = NoReply)
   \<or> (usable img \<and> ready \<and>
       (\<exists>r. es = [Asked (frame [id_byte get]) get dl True r] \<and>
          (\<nexists>current. r = Some (id_byte get # current) \<and> usable current) \<and> res = NoReply))
   \<or> (usable img \<and> ready \<and>
       (\<exists>current. usable current \<and> take 4 current \<noteq> take 4 img \<and>
          es = [Asked (frame [id_byte get]) get dl True (Some (id_byte get # current))] \<and> res = IncompatibleData))
   \<or> (usable img \<and> ready \<and>
       (\<exists>current r. usable current \<and> take 4 current = take 4 img \<and>
          es = [Asked (frame [id_byte get]) get dl True (Some (id_byte get # current)),
                Asked (frame (id_byte put # img)) put dl True r] \<and>
          res = ack_outcome [id_byte put] r))"

definition config_in :: "command_id \<Rightarrow> payload option \<Rightarrow> bytes option" where
  "config_in get reply =
     (case reply of
        None \<Rightarrow> None
      | Some p \<Rightarrow> if p \<noteq> [] \<and> hd p = id_byte get \<and> usable (tl p) then Some (tl p) else None)"

lemma config_in_no_reply [simp]: "config_in get None = None"
  by (simp add: config_in_def)

lemma config_in_Some: "config_in get reply = Some current \<longleftrightarrow> reply = Some (id_byte get # current) \<and> usable current"
  by (cases reply; cases "the reply") (auto simp: config_in_def)

lemma config_in_None: "config_in get reply = None \<longleftrightarrow> (\<nexists>current. reply = Some (id_byte get # current) \<and> usable current)"
  using config_in_Some by (metis not_None_eq)

text \<open>What both configuration writes are: a read of the active image, a comparison, a write.\<close>

locale config_exchange =
  fixes write_op :: "'i \<Rightarrow> int \<Rightarrow> time \<Rightarrow> bool \<Rightarrow> operation_result prog"
    and bytes_of :: "'i \<Rightarrow> bytes"
    and get :: command_id
    and put :: command_id
  assumes write_eq: "write_op img timeout now locked =
     (if \<not> usable (bytes_of img) then Return InvalidData
      else if timeout \<le> 0 \<or> \<not> locked then Return NoReply
      else RequestPayload (frame [id_byte get]) get (now + ms timeout) True (\<lambda>r.
        case config_in get r of
          None \<Rightarrow> Return NoReply
        | Some current \<Rightarrow>
            if take 4 (bytes_of img) \<noteq> take 4 current then Return IncompatibleData
            else RequestPayload (frame (id_byte put # bytes_of img)) put (now + ms timeout) True
                   (\<lambda>r. Return (ack_outcome [id_byte put] r))))"
begin

lemma write_runs:
  "run_prog (write_op img timeout now locked) es = Some res \<longleftrightarrow>
     config_write_spec get put (bytes_of img) (0 < timeout \<and> locked) (now + ms timeout) es res"
proof (cases "usable (bytes_of img) \<and> 0 < timeout \<and> locked")
  case True
  let ?get = "Asked (frame [id_byte get]) get (now + ms timeout) True"
  let ?put = "Asked (frame (id_byte put # bytes_of img)) put (now + ms timeout) True"
  define after where "after r rest \<longleftrightarrow> (case config_in get r of
           None \<Rightarrow> rest = [] \<and> res = NoReply
         | Some current \<Rightarrow>
             if take 4 (bytes_of img) \<noteq> take 4 current then rest = [] \<and> res = IncompatibleData
             else \<exists>r2. rest = [?put r2] \<and> res = ack_outcome [id_byte put] r2)" for r rest
  have after: "after r rest \<longleftrightarrow>
      (\<nexists>current. r = Some (id_byte get # current) \<and> usable current) \<and> rest = [] \<and> res = NoReply
      \<or> (\<exists>current. r = Some (id_byte get # current) \<and> usable current \<and> take 4 current \<noteq> take 4 (bytes_of img)
            \<and> rest = [] \<and> res = IncompatibleData)
      \<or> (\<exists>current r2. r = Some (id_byte get # current) \<and> usable current \<and> take 4 current = take 4 (bytes_of img)
            \<and> rest = [?put r2] \<and> res = ack_outcome [id_byte put] r2)" for r rest
  proof (cases "config_in get r")
    case None
    then show ?thesis using config_in_None [of get r] by (auto simp: after_def)
  next
    case (Some current)
    then have r: "r = Some (id_byte get # current)" "usable current" by (simp_all add: config_in_Some)
    show ?thesis unfolding after_def Some using r by auto
  qed
  have "run_prog (write_op img timeout now locked) es = Some res \<longleftrightarrow> (\<exists>r rest. es = ?get r # rest \<and> after r rest)"
    using True unfolding write_eq after_def
    by (auto simp: run_RequestPayload simp del: run_prog.simps split: option.split_asm if_splits)
  also have "\<dots> \<longleftrightarrow> config_write_spec get put (bytes_of img) (0 < timeout \<and> locked) (now + ms timeout) es res"
    using True unfolding config_write_spec_def after by blast
  finally show ?thesis .
qed (auto simp: write_eq config_write_spec_def)

end

lemma same_signature_usable:
  "usable a \<Longrightarrow> usable b \<Longrightarrow> same_config_signature a b \<longleftrightarrow> take 4 a = take 4 b"
  by (auto simp: same_config_signature_def usable_def)

lemma parse_config_in:
  "parse_motor_config p = Some (map_option motor_config_image.make (config_in GetMotorConfig (Some p)))"
  "parse_app_config p = Some (map_option app_config_image.make (config_in GetAppConfig (Some p)))"
  by (cases p; auto simp: parse_motor_config_def parse_app_config_def parse_config_image_eq config_in_def usable_def
      motor_config_image.make_def app_config_image.make_def)+

lemma config_in_usable: "config_in get r = Some current \<Longrightarrow> usable current"
  by (simp add: config_in_Some)

lemma ack_result_eq:
  "(\<And>p. ack p = Some (p = good)) \<Longrightarrow> ack_result ack r = Return (ack_outcome good r)"
  by (auto simp: ack_result_def parsed_def ack_outcome_def split: option.split)

lemma usable_not_empty:
  "build_set_motor_config_request motor = [] \<longleftrightarrow> \<not> usable (motor_bytes motor)"
  "storage \<in> {Volatile, Persistent} \<Longrightarrow> build_set_app_config_request app storage = [] \<longleftrightarrow> \<not> usable (app_bytes app)"
  by (auto simp: build_set_motor_config_request_def build_set_app_config_request_def usable_def frame_empty_iff frameable_def Let_def)

lemma config_packet:
  "usable (motor_bytes motor) \<Longrightarrow> build_set_motor_config_request motor = frame (id_byte SetMotorConfig # motor_bytes motor)"
  "usable (app_bytes app) \<Longrightarrow> storage \<in> {Volatile, Persistent} \<Longrightarrow> build_set_app_config_request app storage =
     frame (id_byte (if storage = Persistent then SetAppConfig else SetAppConfigNoStore) # app_bytes app)"
  by (auto simp: build_set_motor_config_request_def build_set_app_config_request_def usable_def Let_def)

interpretation motor_config: config_exchange write_motor_config motor_bytes GetMotorConfig SetMotorConfig
proof
  fix img timeout now locked
  show "write_motor_config img timeout now locked =
     (if \<not> usable (motor_bytes img) then Return InvalidData
      else if timeout \<le> 0 \<or> \<not> locked then Return NoReply
      else RequestPayload (frame [id_byte GetMotorConfig]) GetMotorConfig (now + ms timeout) True (\<lambda>r.
        case config_in GetMotorConfig r of
          None \<Rightarrow> Return NoReply
        | Some current \<Rightarrow>
            if take 4 (motor_bytes img) \<noteq> take 4 current then Return IncompatibleData
            else RequestPayload (frame (id_byte SetMotorConfig # motor_bytes img)) SetMotorConfig (now + ms timeout) True
                   (\<lambda>r. Return (ack_outcome [id_byte SetMotorConfig] r))))"
    by (auto simp: write_motor_config_def usable_not_empty config_packet request_motor_config_until_def
        build_get_motor_config_request_def Let_def fun_eq_iff parse_reply_def parsed_def parse_config_in same_signature_usable
        config_in_usable motor_config_image.make_def config_ack_eq ack_result_eq
        split: option.split simp del: id_byte.simps)
qed

lemma write_app_config_eq:
  assumes "storage \<in> {Volatile, Persistent}"
  defines "put \<equiv> (if storage = Persistent then SetAppConfig else SetAppConfigNoStore)"
  shows "write_app_config img storage timeout now locked =
     (if \<not> usable (app_bytes img) then Return InvalidData
      else if timeout \<le> 0 \<or> \<not> locked then Return NoReply
      else RequestPayload (frame [id_byte GetAppConfig]) GetAppConfig (now + ms timeout) True (\<lambda>r.
        case config_in GetAppConfig r of
          None \<Rightarrow> Return NoReply
        | Some current \<Rightarrow>
            if take 4 (app_bytes img) \<noteq> take 4 current then Return IncompatibleData
            else RequestPayload (frame (id_byte put # app_bytes img)) put (now + ms timeout) True
                   (\<lambda>r. Return (ack_outcome [id_byte put] r))))"
  using assms(1) unfolding put_def
  by (auto simp: write_app_config_def usable_not_empty config_packet request_app_config_until_def
      build_get_app_config_request_def Let_def fun_eq_iff parse_reply_def parsed_def parse_config_in same_signature_usable
      config_in_usable app_config_image.make_def config_ack_eq ack_result_eq
      split: option.split simp del: id_byte.simps)

interpretation app_volatile: config_exchange "\<lambda>img. write_app_config img Volatile" app_bytes GetAppConfig SetAppConfigNoStore
  using write_app_config_eq [of Volatile] by unfold_locales simp

interpretation app_persistent: config_exchange "\<lambda>img. write_app_config img Persistent" app_bytes GetAppConfig SetAppConfig
  using write_app_config_eq [of Persistent] by unfold_locales simp

lemma write_app_config_other: "write_app_config img (OtherStorage n) timeout now locked = Return InvalidData"
  by (simp add: write_app_config_def build_set_app_config_request_def)

text \<open>
  C38: A configuration is written exactly as its contract says: an image that does not fit is
  refused with nothing sent; the active configuration is read first; the image is sent, once and
  unchanged, only after a configuration with the same four-byte signature was received, and the
  result says success only if the controller acknowledged it.  This holds for motor and for
  application images, volatile and persistent; a storage that is neither is refused with nothing
  sent.
\<close>

theorem config_write_contract:
  "(run_prog (write_motor_config motor timeout now locked) es = Some res \<longleftrightarrow>
      config_write_spec GetMotorConfig SetMotorConfig (motor_bytes motor) (0 < timeout \<and> locked) (now + ms timeout) es res)
   \<and> (run_prog (write_app_config app Volatile timeout now locked) es = Some res \<longleftrightarrow>
      config_write_spec GetAppConfig SetAppConfigNoStore (app_bytes app) (0 < timeout \<and> locked) (now + ms timeout) es res)
   \<and> (run_prog (write_app_config app Persistent timeout now locked) es = Some res \<longleftrightarrow>
      config_write_spec GetAppConfig SetAppConfig (app_bytes app) (0 < timeout \<and> locked) (now + ms timeout) es res)
   \<and> (run_prog (write_app_config app (OtherStorage n) timeout now locked) es = Some res \<longleftrightarrow>
      es = [] \<and> res = InvalidData)"
  using motor_config.write_runs app_volatile.write_runs app_persistent.write_runs
  by (auto simp: write_app_config_other)

end
