(* ===== verification/Lisp_Transfer.thy ===== *)
theory Lisp_Transfer
  imports Management_Spec
begin

text \<open>
  The transfer of stored LispBM code: the pieces in which an image is written and read, the
  contract of every upload, and the exchanges of a complete download.
\<close>

section \<open>Pieces\<close>

text \<open>Offsets and lengths of the pieces of \<open>n\<close> bytes from an offset on, at most \<open>limit\<close> bytes each.\<close>

function piece_plan :: "nat \<Rightarrow> nat \<Rightarrow> nat \<Rightarrow> (nat \<times> nat) list" where
  "piece_plan limit offset n =
     (if 0 < limit \<and> offset < n
      then (offset, min limit (n - offset)) # piece_plan limit (offset + min limit (n - offset)) n else [])"
  by pat_completeness auto

termination by (relation "measure (\<lambda>(limit, offset, n). n - offset)") auto

declare piece_plan.simps [simp del]

lemma piece_plan_end: "n \<le> offset \<Longrightarrow> piece_plan limit offset n = []"
  by (subst piece_plan.simps) simp

definition piece_of :: "'a list \<Rightarrow> nat \<times> nat \<Rightarrow> 'a list" where
  "piece_of xs p = take (snd p) (drop (fst p) xs)"

lemma piece_plan_bounds:
  "(a, l) \<in> set (piece_plan limit offset n) \<Longrightarrow> offset \<le> a \<and> 0 < l \<and> l \<le> limit \<and> a + l \<le> n"
proof (induction limit offset n rule: piece_plan.induct)
  case (1 limit offset n)
  show ?case
  proof (cases "(a, l) = (offset, min limit (n - offset))")
    case True
    with "1.prems" show ?thesis by (subst (asm) piece_plan.simps) (auto split: if_splits)
  next
    case False
    with "1.prems" have *: "0 < limit \<and> offset < n" "(a, l) \<in> set (piece_plan limit (offset + min limit (n - offset)) n)"
      by (subst (asm) piece_plan.simps, auto split: if_splits)+
    from "1.IH" [OF *] show ?thesis by auto
  qed
qed

text \<open>Writing a piece into a memory, and all pieces of an image one after the other.\<close>

definition store_piece :: "'a list \<Rightarrow> nat \<times> 'a list \<Rightarrow> 'a list" where
  "store_piece mem p = take (fst p) mem @ snd p @ drop (fst p + length (snd p)) mem"

lemma store_pieces:
  assumes "0 < limit" "offset \<le> length xs"
  shows "foldl store_piece (take offset xs @ rest) (map (\<lambda>p. (fst p, piece_of xs p)) (piece_plan limit offset (length xs)))
    = xs @ drop (length xs - offset) rest"
  using assms
proof (induction limit offset "length xs" arbitrary: rest rule: piece_plan.induct)
  case (1 limit offset)
  show ?case
  proof (cases "offset < length xs")
    case True
    define l where "l = min limit (length xs - offset)"
    have l: "l \<le> length xs - offset" "0 < l" "0 < limit \<and> offset < length xs" using True "1.prems"(1) by (simp_all add: l_def)
    then have "store_piece (take offset xs @ rest) (offset, piece_of xs (offset, l)) = take (offset + l) xs @ drop l rest"
      by (simp add: store_piece_def piece_of_def take_add min_def)
    with "1.hyps" [OF l(3), of "drop l rest"] l show ?thesis
      by (subst piece_plan.simps) (simp add: l_def [symmetric] add.commute)
  next
    case False
    with "1.prems" show ?thesis by (subst piece_plan.simps) simp
  qed
qed

section \<open>Acknowledged exchanges\<close>

text \<open>An exchange: the packet, the identifier it expects back and the reply that acknowledges it.\<close>

type_synonym exchange = "bytes \<times> command_id \<times> payload"

definition asked :: "time \<Rightarrow> exchange \<Rightarrow> payload option \<Rightarrow> event" where
  "asked dl x r = (case x of (pkt, cid, good) \<Rightarrow> Asked pkt cid dl True r)"

definition acked :: "time \<Rightarrow> exchange \<Rightarrow> event" where
  "acked dl x = asked dl x (Some (snd (snd x)))"

text \<open>The exchanges are made in order, each only after the one before was acknowledged; the first that
  is not acknowledged is the last and gives the result.\<close>

definition in_turn :: "time \<Rightarrow> exchange list \<Rightarrow> event list \<Rightarrow> operation_result \<Rightarrow> bool" where
  "in_turn dl xs es res \<longleftrightarrow>
     es = map (acked dl) xs \<and> res = Success
   \<or> (\<exists>before x after r. xs = before @ x # after \<and> es = map (acked dl) before @ [asked dl x r] \<and>
        r \<noteq> Some (snd (snd x)) \<and> res = ack_outcome (snd (snd x)) r)"

lemma in_turn_Nil [simp]: "in_turn dl [] es res \<longleftrightarrow> es = [] \<and> res = Success"
  by (simp add: in_turn_def)

lemma in_turn_stopped:
  "xs = before @ x # after \<Longrightarrow> es = map (acked dl) before @ [asked dl x r] \<Longrightarrow> r \<noteq> Some (snd (snd x)) \<Longrightarrow>
     res = ack_outcome (snd (snd x)) r \<Longrightarrow> in_turn dl xs es res"
  unfolding in_turn_def by blast

lemma in_turn_cases:
  assumes "in_turn dl xs es res"
  obtains (all) "es = map (acked dl) xs" "res = Success"
  | (stopped) before x after r where "xs = before @ x # after" "es = map (acked dl) before @ [asked dl x r]"
      "r \<noteq> Some (snd (snd x))" "res = ack_outcome (snd (snd x)) r"
  using assms unfolding in_turn_def by blast

lemma in_turn_Cons:
  "in_turn dl (x # xs) es res \<longleftrightarrow>
     (\<exists>r rest. es = asked dl x r # rest \<and>
        (if r = Some (snd (snd x)) then in_turn dl xs rest res else rest = [] \<and> res = ack_outcome (snd (snd x)) r))"
  (is "?L \<longleftrightarrow> ?R")
proof
  assume ?L
  then show ?R
  proof (cases rule: in_turn_cases)
    case all
    then show ?thesis by (auto simp: acked_def in_turn_def)
  next
    case (stopped before y after r)
    show ?thesis
    proof (cases before)
      case Nil
      with stopped show ?thesis by auto
    next
      case (Cons b bs)
      with stopped have "in_turn dl xs (map (acked dl) bs @ [asked dl y r]) res" by (auto intro: in_turn_stopped)
      with Cons stopped show ?thesis by (auto simp: acked_def)
    qed
  qed
next
  assume ?R
  then obtain r rest where r: "es = asked dl x r # rest"
    "if r = Some (snd (snd x)) then in_turn dl xs rest res else rest = [] \<and> res = ack_outcome (snd (snd x)) r" by blast
  show ?L
  proof (cases "r = Some (snd (snd x))")
    case True
    with r have "in_turn dl xs rest res" by simp
    then show ?thesis
    proof (cases rule: in_turn_cases)
      case all
      with r(1) True show ?thesis by (simp add: in_turn_def acked_def)
    next
      case (stopped before y after r')
      with r(1) True show ?thesis by (intro in_turn_stopped [of _ "x # before" y after]) (simp_all add: acked_def)
    qed
  next
    case False
    with r show ?thesis by (intro in_turn_stopped [of _ "[]" x xs]) simp_all
  qed
qed

text \<open>A request that ends the operation unless it is acknowledged.\<close>

lemma run_ack_then:
  assumes "\<And>p. ack p = Some (p = good)" "\<And>rest. run_prog next rest = Some res \<longleftrightarrow> in_turn dl xs rest res"
  shows "run_prog (RequestPayload pkt cid dl True (\<lambda>reply.
      case reply of
        None \<Rightarrow> Return NoReply
      | Some p \<Rightarrow> parsed (ack p) (\<lambda>ok. if \<not> ok then Return Rejected else next))) es = Some res
    \<longleftrightarrow> in_turn dl ((pkt, cid, good) # xs) es res"
proof -
  have "run_prog (case r of None \<Rightarrow> Return NoReply
      | Some p \<Rightarrow> parsed (ack p) (\<lambda>ok. if \<not> ok then Return Rejected else next)) rest = Some res
    \<longleftrightarrow> (if r = Some good then in_turn dl xs rest res else rest = [] \<and> res = ack_outcome good r)" for r rest
    by (cases r) (auto simp: assms parsed_def ack_outcome_def)
  then show ?thesis unfolding run_RequestPayload in_turn_Cons by (simp add: asked_def)
qed

section \<open>Upload\<close>

definition write_exchange :: "bytes \<Rightarrow> nat \<times> nat \<Rightarrow> exchange" where
  "write_exchange packed p =
     (frame (id_byte LispWriteCode # be (of_nat (fst p) :: u32) @ piece_of packed p), LispWriteCode,
      [id_byte LispWriteCode, 1] @ be (of_nat (fst p) :: u32))"

definition erase_exchange :: "nat \<Rightarrow> exchange" where
  "erase_exchange n = (frame (id_byte LispEraseCode # be (of_nat n :: u32)), LispEraseCode, [id_byte LispEraseCode, 1])"

text \<open>The upload of an image: one erasure, then the packed image in pieces of 384 bytes.\<close>

definition upload_plan :: "lisp_code_image \<Rightarrow> exchange list" where
  "upload_plan img =
     (let packed = pack_lisp_code img
      in erase_exchange (length (lisp_bytes img) + 102) # map (write_exchange packed) (piece_plan 384 0 (length packed)))"

lemma write_packet_built:
  assumes "0 < snd p" "snd p \<le> 384" "fst p + snd p \<le> length packed"
  shows "build_lisp_write_request (piece_of packed p) (of_nat (fst p)) = fst (write_exchange packed p)"
proof -
  have "length (piece_of packed p) = snd p" using assms(3) by (simp add: piece_of_def)
  moreover from this have "piece_of packed p \<noteq> []" using assms(1) by auto
  ultimately show ?thesis
    using assms(2) by (simp add: build_lisp_write_request_def append_be write_exchange_def)
qed

lemma write_loop_runs:
  "run_prog (lisp_write_loop dl packed offset) es = Some res \<longleftrightarrow>
     in_turn dl (map (write_exchange packed) (piece_plan 384 offset (length packed))) es res"
proof (induction dl packed offset arbitrary: es rule: lisp_write_loop.induct)
  case (1 dl packed offset)
  show ?case
  proof (cases "offset < length packed")
    case True
    let ?l = "min 384 (length packed - offset)"
    have w: "build_lisp_write_request (take ?l (drop offset packed)) (of_nat offset) = fst (write_exchange packed (offset, ?l))"
      using True write_packet_built [of "(offset, ?l)" packed] by (simp add: piece_of_def)
    have "run_prog (lisp_write_loop dl packed (offset + ?l)) rest = Some res \<longleftrightarrow>
        in_turn dl (map (write_exchange packed) (piece_plan 384 (offset + ?l) (length packed))) rest res" for rest
      by (rule "1.IH" [OF True]) (simp_all add: kLispWriteChunkBytes_def)
    note step = run_ack_then [where ack = "\<lambda>p. parse_lisp_write_ack p (of_nat offset)", OF lisp_write_ack_eq this]
    show ?thesis
      by (subst lisp_write_loop.simps, subst piece_plan.simps)
        (use True step w in \<open>simp add: kLispWriteChunkBytes_def Let_def write_exchange_def\<close>)
  next
    case False
    then show ?thesis by (subst lisp_write_loop.simps, subst piece_plan.simps) auto
  qed
qed

lemma erase_built: "1 \<le> n \<Longrightarrow> n \<le> 2147483647 \<Longrightarrow> build_lisp_erase_request (of_nat n) = fst (erase_exchange n)"
proof -
  assume n: "1 \<le> n" "n \<le> 2147483647"
  then have "unat (of_nat n :: u32) = n" by (simp add: unat_of_nat take_bit_nat_eq_self)
  then show ?thesis
    using n by (auto simp: build_lisp_erase_request_def erase_exchange_def append_be word_less_nat_alt unat_eq_0 [symmetric])
qed

lemma frame_short_nonempty: "length body < 512 \<Longrightarrow> frame (b # body) \<noteq> []"
  by (simp add: frame_empty_iff frameable_def)

lemma and_then_ack:
  "and_then (RequestPayload pkt cid dl True (ack_result ack)) (\<lambda>r. if r \<noteq> Success then Return r else next) =
     RequestPayload pkt cid dl True (\<lambda>reply.
      case reply of
        None \<Rightarrow> Return NoReply
      | Some p \<Rightarrow> parsed (ack p) (\<lambda>ok. if \<not> ok then Return Rejected else next))"
  by (auto simp: ack_result_def parsed_def fun_eq_iff split: option.split)

lemma pack_empty_iff: "pack_lisp_code img = [] \<longleftrightarrow> lisp_bytes img = [] \<or> length (lisp_bytes img) > 524274"
  by (auto simp: pack_lisp_code_def append_be Let_def)

lemma write_lisp_runs:
  assumes "lisp_bytes img \<noteq> []" "length (lisp_bytes img) \<le> 524274" "0 < timeout" "locked"
  shows "run_prog (write_lisp_code img timeout now locked) es = Some res \<longleftrightarrow> in_turn (now + ms timeout) (upload_plan img) es res"
proof -
  let ?n = "length (lisp_bytes img) + 102"
  have margin: "length (lisp_bytes img) + 2 + unat kLispEraseMarginBytes = ?n" by (simp add: kLispEraseMarginBytes_def)
  have e: "build_lisp_erase_request (of_nat ?n) = fst (erase_exchange ?n)" "fst (erase_exchange ?n) \<noteq> []"
    using assms(2) erase_built [of ?n] by (simp_all add: erase_exchange_def frame_short_nonempty)
  have "write_lisp_code img timeout now locked =
      and_then (erase_lisp_code_until (of_nat ?n) (now + ms timeout))
        (\<lambda>r. if r \<noteq> Success then Return r else lisp_write_loop (now + ms timeout) (pack_lisp_code img) 0)"
    unfolding write_lisp_code_def Let_def margin using assms pack_empty_iff [of img] by simp
  also have "\<dots> = RequestPayload (fst (erase_exchange ?n)) LispEraseCode (now + ms timeout) True (\<lambda>reply.
      case reply of
        None \<Rightarrow> Return NoReply
      | Some p \<Rightarrow> parsed (parse_bool_ack p LispEraseCode) (\<lambda>ok. if \<not> ok then Return Rejected
          else lisp_write_loop (now + ms timeout) (pack_lisp_code img) 0))"
    unfolding erase_lisp_code_until_def e(1) using e(2) and_then_ack by (simp add: Let_def)
  finally show ?thesis
    using run_ack_then [where ack = "\<lambda>p. parse_bool_ack p LispEraseCode", OF bool_ack_eq write_loop_runs]
    by (simp add: upload_plan_def erase_exchange_def Let_def)
qed

text \<open>
  C40: An upload runs exactly as its contract says.  An empty or oversized image is refused with
  nothing sent.  Otherwise one erasure of 102 bytes more than the image is requested, then the
  packed image in pieces of at most 384 bytes in order, each only after everything before was
  acknowledged with its own offset; the first request that is not acknowledged ends the upload
  and gives the result, and success means that all were.  The pieces, stored at their offsets,
  leave exactly the packed image at the start of any memory and the rest as it was.
\<close>

theorem upload_contract:
  "(run_prog (write_lisp_code img timeout now locked) es = Some res \<longleftrightarrow>
      (if lisp_bytes img = [] \<or> length (lisp_bytes img) > kMaxLispCodeBytes then es = [] \<and> res = InvalidData
       else if \<not> (0 < timeout \<and> locked) then es = [] \<and> res = NoReply
       else in_turn (now + ms timeout) (upload_plan img) es res))
   \<and> foldl store_piece mem (map (\<lambda>p. (fst p, piece_of (pack_lisp_code img) p)) (piece_plan 384 0 (length (pack_lisp_code img))))
      = pack_lisp_code img @ drop (length (pack_lisp_code img)) mem"
proof
  show "run_prog (write_lisp_code img timeout now locked) es = Some res \<longleftrightarrow>
      (if lisp_bytes img = [] \<or> length (lisp_bytes img) > kMaxLispCodeBytes then es = [] \<and> res = InvalidData
       else if \<not> (0 < timeout \<and> locked) then es = [] \<and> res = NoReply
       else in_turn (now + ms timeout) (upload_plan img) es res)"
  proof (cases "lisp_bytes img \<noteq> [] \<and> length (lisp_bytes img) \<le> 524274 \<and> 0 < timeout \<and> locked")
    case True
    with write_lisp_runs [of img timeout locked now es res] show ?thesis by simp
  qed (auto simp: write_lisp_code_def pack_empty_iff Let_def)
qed (use store_pieces [of 384 0 "pack_lisp_code img" mem] in simp)

section \<open>Download\<close>

text \<open>The exchanges of a download of \<open>code\<close>: ten bytes first, then pieces of at most 400 bytes; every
  reply carries the total size, the offset and the bytes at that offset.\<close>

definition read_exchange :: "time \<Rightarrow> bytes \<Rightarrow> nat \<times> nat \<Rightarrow> event" where
  "read_exchange dl code p =
     Asked (frame (id_byte LispReadCode # be (of_nat (snd p) :: u32) @ be (of_nat (fst p) :: u32))) LispReadCode dl True
       (Some (id_byte LispReadCode # be (of_nat (length code) :: u32) @ be (of_nat (fst p) :: u32) @ piece_of code p))"

definition download :: "time \<Rightarrow> bytes \<Rightarrow> event list" where
  "download dl code = map (read_exchange dl code) ((0, 10) # piece_plan 400 10 (length code))"

lemma read_built:
  assumes "1 \<le> unat len" "unat len \<le> 400" "unat offset \<le> 524274"
  shows "build_lisp_read_request len offset = frame (id_byte LispReadCode # be len @ be offset)"
proof -
  have "\<not> (2147483647 :: 64 word) < ucast len + ucast offset"
    using assms by (simp add: word_less_nat_alt sum_64)
  moreover have "len \<noteq> 0" using assms(1) by auto
  ultimately show ?thesis
    using assms by (simp add: build_lisp_read_request_def append_be word_less_nat_alt)
qed

lemma of_nat_u32: "n < 2 ^ 32 \<Longrightarrow> unat (of_nat n :: u32) = n"
  by (simp add: unat_of_nat take_bit_nat_eq_self)

lemma run_read:
  "run_prog (RequestPayload pkt cid dl True (\<lambda>reply.
      case reply of
        None \<Rightarrow> Return None
      | Some p \<Rightarrow> parsed (parse_lisp_read_reply p) (\<lambda>chunk.
          case chunk of None \<Rightarrow> Return None | Some c \<Rightarrow> next c))) es = Some (Some res)
   \<longleftrightarrow> (\<exists>chunk sz off rest.
      es = Asked pkt cid dl True (Some (id_byte LispReadCode # be sz @ be off @ chunk)) # rest
      \<and> unat off + length chunk \<le> unat sz \<and> unat sz \<le> kMaxLispCodeBytes \<and> run_prog (next (chunk, sz, off)) rest = Some (Some res))"
proof -
  have "run_prog (case r of None \<Rightarrow> Return None
      | Some p \<Rightarrow> parsed (parse_lisp_read_reply p) (\<lambda>chunk. case chunk of None \<Rightarrow> Return None | Some c \<Rightarrow> next c)) rest = Some (Some res)
    \<longleftrightarrow> (\<exists>p chunk sz off. r = Some p \<and> parse_lisp_read_reply p = Some (Some (chunk, sz, off))
        \<and> run_prog (next (chunk, sz, off)) rest = Some (Some res))" for r rest
    using reply_parsers_defined(5) by (cases r) (auto simp: parsed_def split: option.splits)
  then show ?thesis unfolding run_RequestPayload lisp_read_reply_iff by blast
qed

lemma take_slice:
  "length ys \<le> length xs \<Longrightarrow> take (length ys + l) xs = ys @ zs \<longleftrightarrow> take (length ys) xs = ys \<and> piece_of xs (length ys, l) = zs"
  by (simp add: take_add piece_of_def append_eq_append_conv)

lemma unat_eq_iff: "n < 2 ^ 32 \<Longrightarrow> unat w = n \<longleftrightarrow> w = of_nat n" for w :: u32
  by (auto simp: unat_of_nat take_bit_nat_eq_self)

lemma read_loop_runs:
  assumes "length img \<le> unat t" "unat t \<le> 524274"
  shows "run_prog (lisp_read_loop dl t img) es = Some (Some res) \<longleftrightarrow>
    length (lisp_bytes res) = unat t \<and> take (length img) (lisp_bytes res) = img
    \<and> es = map (read_exchange dl (lisp_bytes res)) (piece_plan 400 (length img) (unat t))"
  using assms
proof (induction dl t img arbitrary: es rule: lisp_read_loop.induct)
  case (1 dl t img)
  let ?code = "lisp_bytes res" and ?n = "of_nat (length img) :: u32"
  show ?case
  proof (cases "length img < unat t")
    case True
    define l where "l = min 400 (unat t - length img)"
    define rq where "rq = min kLispReadChunkBytes (t - ?n)"
    have l: "unat rq = l" "1 \<le> l" "l \<le> 400" "length img + l \<le> unat t"
      using True unat_requested [OF True] by (auto simp: l_def rq_def)
    have w: "rq = of_nat l" "unat off = length img \<longleftrightarrow> off = ?n" for off :: u32
      using l True "1.prems"(2) unat_eq_iff [of l rq] unat_eq_iff [of "length img" off] by auto
    have built: "build_lisp_read_request rq ?n = frame (id_byte LispReadCode # be (of_nat l :: u32) @ be ?n)"
      using read_built [of rq ?n] l True "1.prems"(2) w(1) of_nat_u32 [of "length img"] by simp
    have IH: "run_prog (lisp_read_loop dl t (img @ chunk)) rest = Some (Some res) \<longleftrightarrow>
        length ?code = unat t \<and> take (length img) ?code = img \<and> piece_of ?code (length img, l) = chunk
        \<and> rest = map (read_exchange dl ?code) (piece_plan 400 (length img + l) (unat t))" if "length chunk = l" for chunk rest
    proof -
      have "run_prog (lisp_read_loop dl t (img @ chunk)) rest = Some (Some res) \<longleftrightarrow>
          length ?code = unat t \<and> take (length (img @ chunk)) ?code = img @ chunk
          \<and> rest = map (read_exchange dl ?code) (piece_plan 400 (length (img @ chunk)) (unat t))"
        by (rule "1.IH" [OF True refl refl])
          (use that l "1.prems"(2) in \<open>simp_all add: w rq_def [symmetric]\<close>)
      then show ?thesis using take_slice [of img ?code l chunk] l(4) that by auto
    qed
    define next_chunk where "next_chunk = (\<lambda>(chunk :: payload, reply_total :: u32, reply_offset :: u32).
        if reply_total \<noteq> t \<or> unat reply_offset \<noteq> length img \<or> length chunk \<noteq> unat rq
        then Return None else lisp_read_loop dl t (img @ chunk))"
    have next_chunk: "run_prog (next_chunk (chunk, sz, off)) rest = Some (Some res) \<longleftrightarrow>
        sz = t \<and> off = ?n \<and> length chunk = l \<and> run_prog (lisp_read_loop dl t (img @ chunk)) rest = Some (Some res)" for chunk sz off rest
      by (auto simp: next_chunk_def w(2) l(1))
    have loop: "lisp_read_loop dl t img = RequestPayload (build_lisp_read_request rq ?n) LispReadCode dl True (\<lambda>reply.
        case reply of
          None \<Rightarrow> Return None
        | Some p \<Rightarrow> parsed (parse_lisp_read_reply p) (\<lambda>chunk. case chunk of None \<Rightarrow> Return None | Some c \<Rightarrow> next_chunk c))"
      using True by (subst lisp_read_loop.simps) (simp add: Let_def rq_def next_chunk_def)
    have "run_prog (lisp_read_loop dl t img) es = Some (Some res) \<longleftrightarrow>
      (\<exists>chunk rest. es = Asked (build_lisp_read_request rq ?n) LispReadCode dl True
           (Some (id_byte LispReadCode # be t @ be ?n @ chunk)) # rest
         \<and> length chunk = l \<and> run_prog (lisp_read_loop dl t (img @ chunk)) rest = Some (Some res))"
      unfolding loop run_read next_chunk using l(4) True "1.prems"(2) of_nat_u32 [of "length img"] by auto
    also have "\<dots> \<longleftrightarrow> length ?code = unat t \<and> take (length img) ?code = img
        \<and> es = read_exchange dl ?code (length img, l) # map (read_exchange dl ?code) (piece_plan 400 (length img + l) (unat t))"
      using l(4) by (auto simp: IH built read_exchange_def piece_of_def)
    finally show ?thesis
      using True l_def by (subst piece_plan.simps) simp
  next
    case False
    then show ?thesis using "1.prems"(1)
      by (subst lisp_read_loop.simps, subst piece_plan.simps) (cases res; auto)
  qed
qed

lemma download_runs:
  "run_prog (request_lisp_code timeout now locked) es = Some (Some img) \<longleftrightarrow>
     0 < timeout \<and> locked
     \<and> (lisp_bytes img = [] \<or> 10 \<le> length (lisp_bytes img) \<and> length (lisp_bytes img) \<le> 524274)
     \<and> es = download (now + ms timeout) (lisp_bytes img)"
proof (cases "0 < timeout \<and> locked")
  case True
  let ?dl = "now + ms timeout" and ?code = "lisp_bytes img"
  define first_chunk where "first_chunk = (\<lambda>(chunk :: payload, total_size :: u32, offset :: u32).
      if offset \<noteq> 0 then Return None
      else if total_size = 0 then Return (Some \<lparr>lisp_bytes = []\<rparr>)
      else if total_size < kInitialLispReadBytes \<or> length chunk \<noteq> unat kInitialLispReadBytes then Return None
      else lisp_read_loop ?dl total_size chunk)"
  have op: "request_lisp_code timeout now locked = RequestPayload (build_lisp_read_request kInitialLispReadBytes 0) LispReadCode ?dl True (\<lambda>reply.
        case reply of
          None \<Rightarrow> Return None
        | Some p \<Rightarrow> parsed (parse_lisp_read_reply p) (\<lambda>chunk. case chunk of None \<Rightarrow> Return None | Some c \<Rightarrow> first_chunk c))"
    unfolding first_chunk_def request_lisp_code_def Let_def using True by simp
  have built: "build_lisp_read_request kInitialLispReadBytes 0 = frame (id_byte LispReadCode # be (10 :: u32) @ be (0 :: u32))"
    using read_built [of 10 0] by (simp add: kInitialLispReadBytes_def)
  have first: "run_prog (first_chunk (chunk, sz, off)) rest = Some (Some img) \<longleftrightarrow>
      off = 0 \<and> (sz = 0 \<and> ?code = [] \<and> rest = []
        \<or> 10 \<le> unat sz \<and> length chunk = 10 \<and> length ?code = unat sz \<and> take 10 ?code = chunk
          \<and> rest = map (read_exchange ?dl ?code) (piece_plan 400 10 (unat sz)))"
    if "unat sz \<le> 524274" for chunk sz off rest
  proof -
    have small: "sz < kInitialLispReadBytes \<longleftrightarrow> unat sz < 10" "unat kInitialLispReadBytes = 10"
      by (simp_all add: kInitialLispReadBytes_def word_less_nat_alt)
    show ?thesis
    proof (cases "sz = 0")
      case True
      then show ?thesis by (cases img) (auto simp: first_chunk_def)
    next
      case False
      then show ?thesis
        using read_loop_runs [of chunk sz ?dl rest img] that by (auto simp: first_chunk_def small)
    qed
  qed
  have "run_prog (request_lisp_code timeout now locked) es = Some (Some img) \<longleftrightarrow>
      (\<exists>chunk sz rest. es = Asked (frame (id_byte LispReadCode # be (10 :: u32) @ be (0 :: u32))) LispReadCode ?dl True
          (Some (id_byte LispReadCode # be (sz :: u32) @ be (0 :: u32) @ chunk)) # rest
        \<and> length chunk \<le> unat sz \<and> unat sz \<le> 524274 \<and> (sz = 0 \<and> ?code = [] \<and> rest = []
        \<or> 10 \<le> unat sz \<and> length chunk = 10 \<and> length ?code = unat sz \<and> take 10 ?code = chunk
          \<and> rest = map (read_exchange ?dl ?code) (piece_plan 400 10 (unat sz))))" (is "_ \<longleftrightarrow> ?runs")
    unfolding op run_read built by (simp add: first del: id_byte.simps run_prog.simps cong: conj_cong)
  also have "\<dots> \<longleftrightarrow> (?code = [] \<or> 10 \<le> length ?code \<and> length ?code \<le> 524274) \<and> es = download ?dl ?code"
  proof
    assume ?runs
    then obtain chunk sz rest where r: "es = Asked (frame (id_byte LispReadCode # be (10 :: u32) @ be (0 :: u32))) LispReadCode ?dl True
          (Some (id_byte LispReadCode # be (sz :: u32) @ be (0 :: u32) @ chunk)) # rest" "length chunk \<le> unat sz" "unat sz \<le> 524274"
      "sz = 0 \<and> ?code = [] \<and> rest = [] \<or> 10 \<le> unat sz \<and> length chunk = 10 \<and> length ?code = unat sz \<and> take 10 ?code = chunk
          \<and> rest = map (read_exchange ?dl ?code) (piece_plan 400 10 (unat sz))" by blast
    have "sz = of_nat (length ?code)" using r(3,4) unat_eq_iff [of "length ?code" sz] by auto
    with r show "(?code = [] \<or> 10 \<le> length ?code \<and> length ?code \<le> 524274) \<and> es = download ?dl ?code"
      by (auto simp: download_def read_exchange_def piece_of_def piece_plan_end)
  next
    assume a: "(?code = [] \<or> 10 \<le> length ?code \<and> length ?code \<le> 524274) \<and> es = download ?dl ?code"
    let ?sz = "of_nat (length ?code) :: u32"
    have "unat ?sz = length ?code" using a by (intro of_nat_u32) auto
    with a show ?runs
      by (intro exI [of _ "take 10 ?code"] exI [of _ ?sz] exI [of _ "map (read_exchange ?dl ?code) (piece_plan 400 10 (length ?code))"])
        (auto simp: download_def read_exchange_def piece_of_def piece_plan_end)
  qed
  finally show ?thesis using True by simp
qed (auto simp: request_lisp_code_def)

text \<open>
  C39: A download returns an image exactly when the controller's replies spell it out: the total
  size is announced first and repeated in every reply, the pieces are asked for one after the
  other from offset zero to the end, and each reply carries the bytes of the image at its offset.
  So an image that a consistent controller holds is returned byte for byte, and no other sequence
  of replies returns anything; images of one to nine bytes are never returned.
\<close>

theorem download_exact:
  "run_prog (request_lisp_code timeout now locked) es = Some (Some img) \<longleftrightarrow>
     0 < timeout \<and> locked
     \<and> (lisp_bytes img = [] \<or> 10 \<le> length (lisp_bytes img) \<and> length (lisp_bytes img) \<le> kMaxLispCodeBytes)
     \<and> es = download (now + ms timeout) (lisp_bytes img)"
  using download_runs by simp

section \<open>Findings\<close>

text \<open>An image of fewer than ten bytes can be uploaded, and a controller that then announces its size
  gets no engaged result from a download.\<close>

lemma short_image_not_returned:
  assumes "lisp_bytes img \<noteq> []" "length (lisp_bytes img) < 10"
  shows "run_prog (write_lisp_code img 1 0 True) (map (acked (ms 1)) (upload_plan img)) = Some Success"
    and "run_prog (request_lisp_code 1 0 True) es \<noteq> Some (Some img)"
  using assms write_lisp_runs [of img 1 True 0] download_runs [of 1 0 True es img] by (auto simp: in_turn_def)

end
