(* ===== verification/Calibration.thy ===== *)
theory Calibration
  imports Management_Spec
begin

text \<open>
  The contract of \<open>run_foc_calibration\<close>: when application output is suppressed and restored around
  the detection, and what the result says.
\<close>

text \<open>The result of a reply: the detection's own code decides, a malformed reply is a rejection.\<close>

definition calibration_outcome :: "payload option \<Rightarrow> foc_calibration_result \<Rightarrow> bool" where
  "calibration_outcome reply res \<longleftrightarrow>
     (case reply of
        None \<Rightarrow> res = \<lparr>operation = NoReply, firmware_code = None\<rparr>
      | Some p \<Rightarrow>
          (\<exists>code. p = id_byte DetectApplyAllFoc # be code
             \<and> res = \<lparr>operation = (if 0 \<le> sint code then Success else Rejected), firmware_code = Some code\<rparr>)
        \<or> (\<nexists>code :: u16. p = id_byte DetectApplyAllFoc # be code) \<and> res = \<lparr>operation = Rejected, firmware_code = None\<rparr>)"

lemma calibration_result_runs:
  "run_prog (calibration_result reply) es = Some res \<longleftrightarrow> es = [] \<and> calibration_outcome reply res"
proof (cases reply)
  case (Some p)
  obtain r where r: "parse_foc_calibration_reply p = Some r" using reply_parsers_defined(2) by blast
  show ?thesis
  proof (cases r)
    case None
    with r have "\<nexists>code. p = id_byte DetectApplyAllFoc # be (code :: u16)" using foc_reply_iff by (metis option.distinct(1) option.inject)
    with Some None r show ?thesis by (auto simp: calibration_result_def calibration_outcome_def parsed_def)
  next
    case (Some code)
    with r have p: "p = id_byte DetectApplyAllFoc # be code" using foc_reply_iff by metis
    with Some \<open>reply = Some p\<close> r show ?thesis
      by (auto simp: calibration_result_def calibration_outcome_def parsed_def be_inj_16 not_le not_less)
  qed
qed (auto simp: calibration_result_def calibration_outcome_def)

lemma suppression_eq: "suppression_duration timeout = min (timeout + 5000) 2147483647"
  by (simp add: suppression_duration_def Let_def min_def)

lemma suppression_deliverable:
  "0 < timeout \<Longrightarrow> build_app_disable_output_command (suppression_duration timeout) \<noteq> []"
  by (simp add: build_app_disable_output_command_def suppression_eq append_be frame_empty_iff frameable_def)

text \<open>The exchanges of a calibration with the request \<open>pkt\<close>: \<open>quiet_ms\<close> is the time of suppression.\<close>

definition calibration_spec :: "bytes \<Rightarrow> bool \<Rightarrow> int \<Rightarrow> time \<Rightarrow> event list \<Rightarrow> foc_calibration_result \<Rightarrow> bool" where
  "calibration_spec pkt ready quiet_ms dl es res \<longleftrightarrow>
     pkt = [] \<and> es = [] \<and> res = \<lparr>operation = InvalidData, firmware_code = None\<rparr>
   \<or> pkt \<noteq> [] \<and> \<not> ready \<and> es = [] \<and> res = \<lparr>operation = NoReply, firmware_code = None\<rparr>
   \<or> pkt \<noteq> [] \<and> ready \<and> es = [OutputSet quiet_ms False] \<and> res = \<lparr>operation = NoReply, firmware_code = None\<rparr>
   \<or> pkt \<noteq> [] \<and> ready \<and>
       (\<exists>reply after. es = [OutputSet quiet_ms True, Asked pkt DetectApplyAllFoc dl True reply] @ after
          \<and> (after = [SawRunning False] \<or> (\<exists>ok. after = [SawRunning True, OutputSet 0 ok]))
          \<and> calibration_outcome reply res)"

lemma restored_runs:
  "run_prog (LoadRunning (\<lambda>r. if r then SetAppOutput 0 (\<lambda>_. calibration_result reply) else calibration_result reply)) es = Some res \<longleftrightarrow>
     (es = [SawRunning False] \<or> (\<exists>ok. es = [SawRunning True, OutputSet 0 ok])) \<and> calibration_outcome reply res" (is "?L \<longleftrightarrow> _")
proof -
  have "?L \<longleftrightarrow> (\<exists>b rest. es = SawRunning b # rest \<and>
      run_prog (if b then SetAppOutput 0 (\<lambda>_. calibration_result reply) else calibration_result reply) rest = Some res)"
    by (rule run_LoadRunning)
  also have "\<dots> \<longleftrightarrow> (\<exists>rest. es = SawRunning True # rest \<and> run_prog (SetAppOutput 0 (\<lambda>_. calibration_result reply)) rest = Some res)
      \<or> (\<exists>rest. es = SawRunning False # rest \<and> run_prog (calibration_result reply) rest = Some res)"
    unfolding ex_bool_eq by (simp only: if_True if_False)
  finally show ?thesis unfolding run_SetAppOutput calibration_result_runs by blast
qed

lemma calibration_runs:
  assumes "build_foc_calibration_request p \<noteq> []" "0 < timeout" "locked"
  shows "run_prog (run_foc_calibration p timeout now locked) es = Some res \<longleftrightarrow>
    calibration_spec (build_foc_calibration_request p) True (min (timeout + 5000) 2147483647) (now + ms timeout) es res"
proof -
  let ?pkt = "build_foc_calibration_request p" and ?dl = "now + ms timeout" and ?quiet = "min (timeout + 5000) 2147483647"
  define detect where "detect = RequestPayload ?pkt DetectApplyAllFoc ?dl True (\<lambda>reply.
      LoadRunning (\<lambda>r. if r then SetAppOutput 0 (\<lambda>_. calibration_result reply) else calibration_result reply))"
  have op: "run_foc_calibration p timeout now locked = SetAppOutput ?quiet (\<lambda>queued.
      if \<not> queued then Return \<lparr>operation = NoReply, firmware_code = None\<rparr> else detect)"
    unfolding run_foc_calibration_def suppression_eq Let_def detect_def using assms by simp
  have "run_prog (run_foc_calibration p timeout now locked) es = Some res \<longleftrightarrow>
      (\<exists>rest. es = OutputSet ?quiet False # rest \<and> run_prog (Return \<lparr>operation = NoReply, firmware_code = None\<rparr>) rest = Some res)
      \<or> (\<exists>rest. es = OutputSet ?quiet True # rest \<and> run_prog detect rest = Some res)"
    unfolding op run_SetAppOutput ex_bool_eq by (simp only: simp_thms if_True if_False disj_commute)
  then show ?thesis
    using assms(1) unfolding detect_def run_RequestPayload restored_runs run_Return calibration_spec_def
    by (simp only: append_Cons append_Nil) blast
qed

text \<open>
  C8: A calibration is refused with nothing sent when its parameters are out of range or the mutex
  is not available in time.  Otherwise application output is suppressed first, for five seconds
  more than the operation may take (as far as 32 bits allow); only if that was queued the detection
  is requested, once, and afterwards, whatever the reply, output is enabled again exactly when
  the client still runs.  The result is success exactly for a well-formed reply with a code that
  is not negative.
\<close>

theorem calibration_contract:
  "(run_prog (run_foc_calibration p timeout now locked) es = Some res \<longleftrightarrow>
      calibration_spec (build_foc_calibration_request p) (0 < timeout \<and> locked) (min (timeout + 5000) 2147483647)
        (now + ms timeout) es res)
   \<and> (if 0 < timeout then build_app_disable_output_command (min (timeout + 5000) 2147483647) \<noteq> [] else True)"
proof
  show "run_prog (run_foc_calibration p timeout now locked) es = Some res \<longleftrightarrow>
      calibration_spec (build_foc_calibration_request p) (0 < timeout \<and> locked) (min (timeout + 5000) 2147483647)
        (now + ms timeout) es res"
  proof (cases "build_foc_calibration_request p \<noteq> [] \<and> 0 < timeout \<and> locked")
    case True
    with calibration_runs show ?thesis by simp
  qed (auto simp: run_foc_calibration_def calibration_spec_def Let_def)
  show "if 0 < timeout then build_app_disable_output_command (min (timeout + 5000) 2147483647) \<noteq> [] else True"
    using suppression_deliverable [of timeout] by (simp add: suppression_eq)
qed

text \<open>The order of the calls is not the order on the wire: a pass of \<open>io_loop\<close> writes one command and one
  query, so with another command queued ahead the detection is written before the suppression.\<close>

lemma detection_can_overtake_suppression:
  assumes c: "running c" "in_flight_request c = None" "command_queue c = [x, suppression]" "x \<noteq> []"
    and r: "request_queue c = [r]" "packet r \<noteq> []" "0 < deadline r"
    and polls: "interval_ms (imu_channel c) \<le> 0" "interval_ms (motor_channel c) \<le> 0"
      "ms (query_guard_window (cfg c)) < duration_max"
  shows "\<exists>c'. io_step\<^sup>*\<^sup>* (CommandPhase, c) (LoopTop, c') \<and> command_queue c' = [suppression]
    \<and> sent c' = sent c @ x @ packet r \<and> in_flight_request c' = Some r"
proof -
  define c1 where "c1 = c\<lparr>command_queue := [suppression], sent := sent c @ x\<rparr>"
  define c2 where "c2 = c1\<lparr>request_queue := [], sent := sent c1 @ packet r, in_flight_request := Some r\<rparr>"
  have "io_step (CommandPhase, c) (after_write TimeoutPhase (c1, True))"
    using c write_at_once [of "c\<lparr>command_queue := [suppression]\<rparr>" x "length x"]
    by (intro SendCommand [where steps = "[Wrote (length x)]" and pkt = x]) (simp_all add: dequeue_command_def c1_def)
  then have 1: "io_step (CommandPhase, c) (TimeoutPhase, c1)" by (simp add: after_write_def)
  have "handle_request_timeout 0 c1 = (c1, False)"
    using c r by (simp add: handle_request_timeout_def c1_def)
  from CheckTimeouts [OF this] have 2: "io_step (TimeoutPhase, c1) (SchedulePhase, c1)" by simp
  have d: "dequeue_ready_query 0 c1 = (c1\<lparr>request_queue := []\<rparr>, Some r)"
    using r polls by (simp add: dequeue_ready_query_def Let_def c1_def)
  have "write_packet [Wrote (length (packet r))] (packet r) (c1\<lparr>request_queue := []\<rparr>) =
      Some (c1\<lparr>request_queue := [], sent := sent c1 @ packet r\<rparr>, True)"
    using c(1) r(2) by (subst write_at_once) (simp_all add: c1_def)
  from SendQuery [OF _ _ d this] have 3: "io_step (SchedulePhase, c1) (LoopTop, c2)"
    using c(2) polls by (simp add: c2_def c1_def select_due_poll_channel_def consider_channel_def)
  from 1 2 3 have "io_step\<^sup>*\<^sup>* (CommandPhase, c) (LoopTop, c2)" by (meson rtranclp.rtrancl_refl rtranclp.rtrancl_into_rtrancl)
  then show ?thesis by (auto simp: c2_def c1_def)
qed

end
