(* ===== verification/Ieee_Arith.thy ===== *)
theory Ieee_Arith
  imports Ieee_Float
begin

text \<open>
  The \<open>float\<close> arithmetic that only the example programs use: sums, differences and products of two
  floats, \<open>std::abs\<close>, \<open>std::max\<close>, \<open>std::clamp\<close>, and decimal literals.  The lemmas bound the results the
  programs rely on: halving keeps a value between zero and itself, a sum of finite floats is never
  a NaN, and clamping a float that is no NaN yields a finite value within the limits.
\<close>

section \<open>Operations\<close>

fun fp_mul :: "(bool \<Rightarrow> nat \<Rightarrow> nat \<Rightarrow> fp) \<Rightarrow> fp \<Rightarrow> fp \<Rightarrow> fp" where
  "fp_mul rnd (FpFin s m e) (FpFin t n f) =
     rnd (s \<noteq> t) (m * n * 2 ^ nat (e + f)) (2 ^ nat (- (e + f)))"
| "fp_mul rnd (FpInf s) (FpInf t) = FpInf (s \<noteq> t)"
| "fp_mul rnd (FpInf s) (FpFin t n f) = (if n = 0 then FpNaN else FpInf (s \<noteq> t))"
| "fp_mul rnd (FpFin s m e) (FpInf t) = (if m = 0 then FpNaN else FpInf (s \<noteq> t))"
| "fp_mul rnd _ _ = FpNaN"

definition f32_mul :: "f32 \<Rightarrow> f32 \<Rightarrow> f32" where
  "f32_mul x y = f32_encode (fp_mul f32_round (f32_decode x) (f32_decode y))"

text \<open>An exact sum of zero is negative only when both operands are.\<close>

fun fp_add :: "(bool \<Rightarrow> nat \<Rightarrow> nat \<Rightarrow> fp) \<Rightarrow> fp \<Rightarrow> fp \<Rightarrow> fp" where
  "fp_add rnd (FpFin s m e) (FpFin t n f) =
     (let c = min e f;
          k = signed_int s m * 2 ^ nat (e - c) + signed_int t n * 2 ^ nat (f - c)
      in if k = 0 then rnd (s \<and> t) 0 1
         else rnd (k < 0) (nat \<bar>k\<bar> * 2 ^ nat c) (2 ^ nat (- c)))"
| "fp_add rnd (FpInf s) (FpInf t) = (if s = t then FpInf s else FpNaN)"
| "fp_add rnd (FpInf s) (FpFin t n f) = FpInf s"
| "fp_add rnd (FpFin s m e) (FpInf t) = FpInf t"
| "fp_add rnd _ _ = FpNaN"

definition f32_add :: "f32 \<Rightarrow> f32 \<Rightarrow> f32" where
  "f32_add x y = f32_encode (fp_add f32_round (f32_decode x) (f32_decode y))"

text \<open>Negation and absolute value act on the sign bit.\<close>

definition f32_neg :: "f32 \<Rightarrow> f32" where
  "f32_neg x = x XOR 0x80000000"

definition f32_sub :: "f32 \<Rightarrow> f32 \<Rightarrow> f32" where
  "f32_sub x y = f32_add x (f32_neg y)"

definition f32_abs :: "f32 \<Rightarrow> f32" where
  "f32_abs x = x AND 0x7FFFFFFF"

text \<open>\<open>std::max\<close>: the second operand only when it is larger.  \<open>std::clamp\<close> compares with \<open><\<close>.\<close>

definition f32_max :: "f32 \<Rightarrow> f32 \<Rightarrow> f32" where
  "f32_max x y = (if f32_less x y then y else x)"

definition f32_clamp :: "f32 \<Rightarrow> f32 \<Rightarrow> f32 \<Rightarrow> f32" where
  "f32_clamp v lo hi = (if f32_less v lo then lo else if f32_less hi v then hi else v)"

text \<open>The literal \<open>num / den\<close> with the suffix \<open>f\<close>.\<close>

definition f32_literal :: "nat \<Rightarrow> nat \<Rightarrow> f32" where
  "f32_literal num den = f32_encode (f32_round False num den)"

section \<open>Lemmas\<close>

lemma f32_round_not_nan: "f32_round s num den \<noteq> FpNaN"
  by (simp add: fp_round_def Let_def split: prod.split)

lemma fp_add_not_nan:
  "fp_isfinite x \<Longrightarrow> fp_isfinite y \<Longrightarrow> fp_add f32_round x y \<noteq> FpNaN"
  by (cases x; cases y) (simp_all add: Let_def f32_round_not_nan)

lemma fp_add_canonical: "f32_canonical x \<Longrightarrow> f32_canonical y \<Longrightarrow> f32_canonical (fp_add f32_round x y)"
  by (cases x; cases y) (simp_all add: Let_def fp_round_canonical del: f32_canonical.simps(1))

lemma f32_neg_decode:
  "f32_decode (f32_neg x) =
     (case f32_decode x of FpNaN \<Rightarrow> FpNaN | FpInf s \<Rightarrow> FpInf (\<not> s) | FpFin s m e \<Rightarrow> FpFin (\<not> s) m e)"
proof -
  have "drop_bit 23 (x XOR 0x80000000) AND 0xFF = drop_bit 23 x AND 0xFF"
    "(x XOR 0x80000000) AND 0x7FFFFF = x AND 0x7FFFFF"
    by (simp_all add: drop_bit_xor bit.conj_xor_distrib2)
  moreover have "bit (x XOR 0x80000000) 31 \<longleftrightarrow> \<not> bit x 31" by (simp add: bit_xor_iff)
  ultimately show ?thesis by (simp add: f32_decode_def f32_neg_def Let_def)
qed

lemma f32_neg_finite [simp]: "f32_isfinite (f32_neg x) = f32_isfinite x"
  by (simp add: f32_isfinite_def f32_neg_decode split: fp.split)

definition f32_isnan :: "f32 \<Rightarrow> bool" where
  "f32_isnan x \<longleftrightarrow> f32_decode x = FpNaN"

lemma f32_add_not_nan: "f32_isfinite x \<Longrightarrow> f32_isfinite y \<Longrightarrow> \<not> f32_isnan (f32_add x y)"
  by (simp add: f32_isnan_def f32_add_def f32_isfinite_def fp_add_not_nan f32_decode_encode
      fp_add_canonical f32_decode_canonical)

lemma f32_sub_not_nan: "f32_isfinite x \<Longrightarrow> f32_isfinite y \<Longrightarrow> \<not> f32_isnan (f32_sub x y)"
  by (simp add: f32_sub_def f32_add_not_nan)

lemma f32_finite_not_nan: "f32_isfinite x \<Longrightarrow> \<not> f32_isnan x"
  by (auto simp: f32_isfinite_def f32_isnan_def)

lemma f32_clamp_bounds:
  assumes "\<not> f32_isnan v" "f32_isfinite lo" "f32_isfinite hi" "f32_real lo \<le> f32_real hi"
  shows "f32_isfinite (f32_clamp v lo hi) \<and> f32_real lo \<le> f32_real (f32_clamp v lo hi)
    \<and> f32_real (f32_clamp v lo hi) \<le> f32_real hi"
proof (cases "f32_isfinite v")
  case True
  with assms show ?thesis
    by (auto simp: f32_clamp_def f32_less_def f32_isfinite_def f32_real_def fp_less_real)
next
  case False
  then obtain s where "f32_decode v = FpInf s"
    using assms(1) by (cases "f32_decode v") (auto simp: f32_isfinite_def f32_isnan_def)
  moreover obtain a m e where "f32_decode lo = FpFin a m e"
    using assms(2) by (cases "f32_decode lo") (auto simp: f32_isfinite_def)
  moreover obtain b n f where "f32_decode hi = FpFin b n f"
    using assms(3) by (cases "f32_decode hi") (auto simp: f32_isfinite_def)
  ultimately show ?thesis
    using assms(2-4) by (auto simp: f32_clamp_def f32_less_def)
qed

lemma f32_clamp_inside:
  "f32_isfinite v \<Longrightarrow> f32_isfinite lo \<Longrightarrow> f32_isfinite hi \<Longrightarrow> f32_real lo \<le> f32_real v \<Longrightarrow>
     f32_real v \<le> f32_real hi \<Longrightarrow> f32_clamp v lo hi = v"
  by (simp add: f32_clamp_def f32_less_def f32_isfinite_def f32_real_def fp_less_real)

text \<open>Whole-number literals are exact; the fractions of the sources are given by their bits.\<close>

lemma f32_literal_of_nat:
  "n < 2 ^ 24 \<Longrightarrow> f32_isfinite (f32_literal n 1) \<and> f32_real (f32_literal n 1) = real n"
  using f32_of_int_exact [of "int n"] by (simp add: f32_literal_def f32_of_int_def)

lemmas float_eval = fp_round_def fp_exponent_def scale_ratio_def nearest_even_def Let_def compute_floorlog

lemma f32_literal_bits:
  "f32_literal 1 2 = 0x3F000000" "f32_literal 20 100 = 0x3E4CCCCD" "f32_literal 40 100 = 0x3ECCCCCD"
  by (simp_all add: f32_literal_def float_eval)

lemma f32_literal_decoded:
  "f32_decode (f32_literal 1 2) = FpFin False (2 ^ 23) (- 24)"
  "f32_decode (f32_literal 20 100) = FpFin False 13421773 (- 26)"
  "f32_decode (f32_literal 40 100) = FpFin False 13421773 (- 25)"
  by (simp_all only: f32_literal_bits) (simp_all add: f32_decode_fields)

text \<open>The rounding error is at most the value itself, and at most half of it above the smallest
  positive \<open>float\<close>.\<close>

lemma f32_round_half_error:
  assumes pos: "0 < num" "0 < den" and r: "f32_round s num den = FpFin t m e"
  defines "y \<equiv> real num / real den"
  assumes "2 powi (- 150) \<le> y"
  shows "\<bar>real m * 2 powi e - y\<bar> \<le> y"
    and "2 powi (- 149) \<le> y \<Longrightarrow> \<bar>real m * 2 powi e - y\<bar> \<le> y / 2"
proof -
  let ?e = "fp_exponent 24 num den"
  define d where "d = \<bar>real m * 2 powi e - y\<bar>"
  have d: "d \<le> 2 powi (max (- 149) ?e) / 2"
    using fp_round_error(2) [OF pos _ r] by (simp add: d_def y_def)
  have "2 powi 23 * 2 powi ?e \<le> y * 2 powi (- ?e) * 2 powi ?e"
    using fp_exponent_bounds(1) [OF pos, of 24] by (intro mult_right_mono) (simp_all add: y_def)
  also have "y * 2 powi (- ?e) * 2 powi ?e = y" by (simp flip: power_int_add)
  finally have "8388608 * 2 powi ?e \<le> y" by simp
  moreover have "(0::real) \<le> 2 powi ?e" by simp
  ultimately have e: "2 powi ?e / 2 \<le> y / 2" by linarith
  have half: "(2::real) powi (- 149) / 2 = 2 powi (- 150)" by (simp add: power_int_minus)
  have "(2::real) powi (max (- 149) ?e) / 2 \<le> 2 powi (- 150) \<or> 2 powi (max (- 149) ?e) / 2 \<le> y / 2"
    using e half by (cases "?e \<le> - 149") (simp_all only: max_absorb1 max_absorb2 not_le less_imp_le, simp_all)
  with d have d: "d \<le> 2 powi (- 150) \<or> d \<le> y / 2" by linarith
  have y: "0 \<le> y" by (simp add: y_def)
  show "\<bar>real m * 2 powi e - y\<bar> \<le> y"
    unfolding d_def [symmetric] using d assms(5) y by linarith
  show "\<bar>real m * 2 powi e - y\<bar> \<le> y / 2" if "2 powi (- 149) \<le> y"
    unfolding d_def [symmetric] using d that half by linarith
qed

lemma f32_half:
  assumes fin: "f32_isfinite x" and nonneg: "0 \<le> f32_real x"
  defines "h \<equiv> f32_mul x (f32_literal 1 2)"
  shows "f32_isfinite h \<and> 0 \<le> f32_real h \<and> f32_real h \<le> f32_real x
    \<and> (2 powi (- 148) \<le> f32_real x \<longrightarrow> 0 < f32_real h)"
proof -
  obtain s m e where x: "f32_decode x = FpFin s m e"
    using fin by (cases "f32_decode x") (auto simp: f32_isfinite_def)
  have b: "m < 2 ^ 24" "- 149 \<le> e" "e \<le> 104" using f32_decode_finite_bounds [OF x] by auto
  define num den where "num = m * 2 ^ 23 * 2 ^ nat (e - 24)" and "den = (2::nat) ^ nat (24 - e)"
  define y where "y = real m * 2 powi (e - 1)"
  have h: "h = f32_encode (f32_round s num den)"
    by (simp add: h_def f32_mul_def x f32_literal_decoded(1) [unfolded One_nat_def] num_def den_def)
  have den: "0 < den" by (simp add: den_def)
  have "real num / real den = real m * 2 powi 23 * (2 ^ nat (e - 24) / 2 ^ nat (24 - e))"
    by (simp add: num_def den_def)
  also have "\<dots> = real m * (2 powi 23 * 2 powi (e - 24))" using powi_split [of "e - 24"] by simp
  also have "\<dots> = y" by (simp add: y_def power_int_diff)
  finally have y: "real num / real den = y" .
  have fx: "f32_real x = (if s then - 1 else 1) * (2 * y)"
    by (simp add: f32_real_def x y_def power_int_diff)
  show ?thesis
  proof (cases "m = 0")
    case True
    then show ?thesis
      unfolding h f32_encoded [OF den] fx by (simp add: num_def y_def fp_round_zero)
  next
    case False
    then have pos: "0 < num" "0 < (24::nat)" and yp: "0 < y" by (simp_all add: num_def y_def)
    then have s: "\<not> s" using nonneg fx by (cases s) simp_all
    have "1 * 2 powi (- 150) \<le> y"
      unfolding y_def using False b by (intro mult_mono power_int_increasing) auto
    then have lo: "2 powi (- 150) \<le> real num / real den" by (simp add: y)
    have "real m < real (2 ^ 24)" using b(1) by (simp only: of_nat_less_iff)
    then have "y < 2 ^ 24 * 2 powi 103"
      unfolding y_def using b by (intro mult_less_le_imp_less power_int_increasing) auto
    then have "real num / real den < 2 powi (104 + int 24 - 1)" by (simp add: y)
    then have "fp_isfinite (f32_round s num den)"
      by (intro fp_round_finite [OF pos(1) den pos(2)]) simp_all
    then obtain t n f where r: "f32_round s num den = FpFin t n f"
      by (cases "f32_round s num den") auto
    note err = f32_round_half_error [OF pos(1) den r lo, unfolded y]
    have t: "\<not> t" using fp_round_error(1) [OF pos(1) den pos(2) r] s by simp
    have hz: "f32_isfinite h" "f32_real h = real n * 2 powi f"
      unfolding h f32_encoded [OF den] by (simp_all add: r t)
    have "0 < f32_real h" if "2 powi (- 148) \<le> f32_real x"
    proof -
      have "2 powi (- 149) \<le> y" using that s by (simp add: fx power_int_minus)
      from err(2) [OF this] yp hz(2) show ?thesis by linarith
    qed
    moreover have "0 \<le> f32_real h" "f32_real h \<le> 2 * y" using err(1) hz(2) by linarith+
    ultimately show ?thesis using hz(1) s by (simp add: fx)
  qed
qed

end
