(* ===== verification/Smoke.thy ===== *)
theory Smoke
  imports Example_Args Command_Queue
begin

text \<open>
  The hardware smoke test, \<open>examples/controller_hardware_smoke.cpp\<close>: the telemetry monitor, the
  command thread with its phases, the monitoring loop of the main thread, and \<open>main\<close> with its exit
  codes.  What the program finds out while it runs (clock readings, atomics written by the other
  thread, what the client's operations answer) is an input: a list with one entry per pass of a
  loop.  A loop whose list ends is still running, the value \<open>None\<close>.  The calls of the actuator
  setters are recorded in order; \<open>perform\<close> gives them their meaning on the client model.  Text output
  is left out.
\<close>

section \<open>Telemetry\<close>

record telemetry_monitor =
  mon_imu_samples :: nat
  mon_motor_samples :: nat
  last_imu :: "imu_data option"
  last_motor :: "motor_state option"
  last_imu_seen :: time
  last_motor_seen :: time
  mon_fault_observed :: bool

definition new_monitor :: telemetry_monitor where
  "new_monitor =
     \<lparr>mon_imu_samples = 0, mon_motor_samples = 0, last_imu = None, last_motor = None,
      last_imu_seen = 0, last_motor_seen = 0, mon_fault_observed = False\<rparr>"

definition on_imu :: "time \<Rightarrow> imu_data \<Rightarrow> telemetry_monitor \<Rightarrow> telemetry_monitor" where
  "on_imu now imu m =
     m\<lparr>mon_imu_samples := mon_imu_samples m + 1, last_imu := Some imu, last_imu_seen := now\<rparr>"

definition on_motor :: "time \<Rightarrow> motor_state \<Rightarrow> telemetry_monitor \<Rightarrow> telemetry_monitor" where
  "on_motor now motor m =
     m\<lparr>mon_motor_samples := mon_motor_samples m + 1, last_motor := Some motor, last_motor_seen := now,
       mon_fault_observed := mon_fault_observed m \<or> fault_code motor \<noteq> 0\<rparr>"

record telemetry_snapshot =
  imu_samples :: nat
  motor_samples :: nat
  snap_imu :: "imu_data option"
  snap_motor :: "motor_state option"
  imu_age :: "int option"
  motor_age :: "int option"
  fault_observed :: bool

text \<open>\<open>duration_cast<milliseconds>\<close> truncates toward zero.\<close>

definition millis :: "int \<Rightarrow> int" where
  "millis d = (if d < 0 then - (- d div 1000000) else d div 1000000)"

definition snapshot :: "time \<Rightarrow> telemetry_monitor \<Rightarrow> telemetry_snapshot" where
  "snapshot now m =
     \<lparr>imu_samples = mon_imu_samples m, motor_samples = mon_motor_samples m,
      snap_imu = last_imu m, snap_motor = last_motor m,
      imu_age = map_option (\<lambda>_. millis (now - last_imu_seen m)) (last_imu m),
      motor_age = map_option (\<lambda>_. millis (now - last_motor_seen m)) (last_motor m),
      fault_observed = mon_fault_observed m\<rparr>"

definition age_string :: "int option \<Rightarrow> string" where
  "age_string age = (case age of None \<Rightarrow> ''n/a'' | Some a \<Rightarrow> int_text a @ ''ms'')"

text \<open>Each poll is a clock reading and, before the deadline, the value of the predicate; \<open>final\<close> is its
  value at the end.\<close>

fun wait_until :: "time \<Rightarrow> (time \<times> bool) list \<Rightarrow> bool \<Rightarrow> bool option" where
  "wait_until dl [] final = None"
| "wait_until dl ((now, holds) # polls) final =
     (if now < dl then (if holds then Some True else wait_until dl polls final) else Some final)"

section \<open>Commands\<close>

datatype actuator_call = CallDuty f32 | CallCurrent f32 | CallRpm int | CallServo f32 | CallBrake f32

fun perform :: "time \<Rightarrow> actuator_call \<Rightarrow> client \<Rightarrow> client \<times> bool" where
  "perform now (CallDuty d) c = set_duty now d c"
| "perform now (CallCurrent a) c = set_current now a c"
| "perform now (CallRpm r) c = set_rpm now (word_of_int r) c"
| "perform now (CallServo p) c = set_servo_pos now p c"
| "perform now (CallBrake a) c = set_current_brake now a c"

definition clamp_servo :: "f32 \<Rightarrow> f32" where
  "clamp_servo value = f32_clamp value 0 (f32_literal 1 1)"

text \<open>Calls joined by \<open>&&\<close>: those made, and whether all were accepted.\<close>

fun send_all :: "(actuator_call \<Rightarrow> bool) \<Rightarrow> actuator_call list \<Rightarrow> actuator_call list \<times> bool" where
  "send_all accepts [] = ([], True)"
| "send_all accepts (x # xs) =
     (if accepts x then (let (made, ok) = send_all accepts xs in (x # made, ok)) else ([x], False))"

text \<open>One evaluation of the loop condition of \<open>stream_phase\<close> and what the setters answer in that pass.\<close>

record loop_pass =
  pass_now :: time
  pass_stop :: bool
  pass_accepts :: "actuator_call \<Rightarrow> bool"

text \<open>The clock when the phase starts, its passes, and the last read of \<open>stop_requested\<close>.\<close>

record phase_run =
  phase_started :: time
  passes :: "loop_pass list"
  stop_after :: bool

record phase_result =
  phase_name :: string
  phase_ok :: bool
  commands_sent :: nat

fun stream_loop :: "time \<Rightarrow> actuator_call list list \<Rightarrow> bool \<Rightarrow> nat \<Rightarrow> loop_pass list
    \<Rightarrow> (bool \<times> nat \<times> actuator_call list) option" where
  "stream_loop dl values stopped index [] = None"
| "stream_loop dl values stopped index (p # ps) =
     (if pass_now p < dl \<and> \<not> pass_stop p then
        (let (made, ok) = send_all (pass_accepts p) (values ! (index mod length values))
         in if \<not> ok then Some (False, index, made)
            else map_option (\<lambda>(ok, n, calls). (ok, n, made @ calls))
                   (stream_loop dl values stopped (index + 1) ps))
      else Some (\<not> stopped, index, []))"

definition stream_phase :: "string \<Rightarrow> actuator_call list list \<Rightarrow> int \<Rightarrow> phase_run
    \<Rightarrow> (phase_result \<times> actuator_call list) option" where
  "stream_phase name values duration run =
     map_option (\<lambda>(ok, n, calls). (\<lparr>phase_name = name, phase_ok = ok, commands_sent = n\<rparr>, calls))
       (stream_loop (phase_started run + ms duration) values (stop_after run) 0 (passes run))"

section \<open>The command thread\<close>

record phase =
  phase_index :: nat
  phase_title :: string
  phase_values :: "actuator_call list list"
  command_period :: int
  neutral_calls :: "actuator_call list"

text \<open>\<open>options.rpm / 2\<close> is the division of a positive number.\<close>

definition half :: "f32 \<Rightarrow> f32" where
  "half v = f32_mul v (f32_literal 1 2)"

definition phases :: "options \<Rightarrow> phase list" where
  "phases opts =
     (let d = opt_duty opts; a = opt_current opts; r = opt_rpm opts; b = opt_brake_current opts;
          center = servo_center opts;
          left = clamp_servo (f32_sub center (servo_amplitude opts));
          right = clamp_servo (f32_add center (servo_amplitude opts))
      in [\<lparr>phase_index = 1, phase_title = ''duty'',
           phase_values = map (\<lambda>v. [CallDuty v]) [0, half d, d, half d, 0],
           command_period = 120, neutral_calls = [CallDuty 0]\<rparr>,
          \<lparr>phase_index = 2, phase_title = ''current'',
           phase_values = map (\<lambda>v. [CallCurrent v]) [0, half a, a, half a, 0],
           command_period = 120, neutral_calls = [CallCurrent 0]\<rparr>,
          \<lparr>phase_index = 3, phase_title = ''rpm'',
           phase_values = map (\<lambda>v. [CallRpm v]) [0, r div 2, r, r div 2, 0],
           command_period = 120, neutral_calls = [CallRpm 0]\<rparr>,
          \<lparr>phase_index = 4, phase_title = ''throttle_steering'',
           phase_values = map (\<lambda>(v, s). [CallDuty v, CallServo (clamp_servo s)])
             [(0, center), (half d, left), (d, center), (half d, right), (0, center)],
           command_period = 140, neutral_calls = [CallDuty 0, CallServo (clamp_servo center)]\<rparr>] @
         (if f32_less 0 b then
            [\<lparr>phase_index = 5, phase_title = ''brake_current'',
              phase_values = map (\<lambda>v. [CallBrake v]) [half b, b, half b],
              command_period = 120, neutral_calls = [CallCurrent 0]\<rparr>]
          else []) @
         [\<lparr>phase_index = 6, phase_title = ''servo'',
           phase_values = map (\<lambda>s. [CallServo (clamp_servo s)]) [center, left, center, right, center],
           command_period = 160, neutral_calls = [CallServo (clamp_servo center)]\<rparr>])"

datatype thread_event = ActivePhase nat | Call actuator_call | CommandThreadDone

text \<open>\<open>run_phase\<close>, \<open>record_result\<close> and the early returns: the results in order, \<open>phase_failure\<close>, and the
  stores and calls of the thread.\<close>

fun command_thread :: "int \<Rightarrow> phase list \<Rightarrow> phase_run list
    \<Rightarrow> (phase_result list \<times> bool \<times> thread_event list) option" where
  "command_thread duration [] runs = Some ([], False, [ActivePhase 0, CommandThreadDone])"
| "command_thread duration (p # ps) [] = None"
| "command_thread duration (p # ps) (r # rs) =
     (case stream_phase (phase_title p) (phase_values p) duration r of
        None \<Rightarrow> None
      | Some (res, calls) \<Rightarrow>
          let events = ActivePhase (phase_index p) # map Call calls @ [ActivePhase 0]
          in if \<not> phase_ok res then Some ([res], True, events @ [CommandThreadDone])
             else map_option
                    (\<lambda>(results, failure, es). (res # results, failure, events @ map Call (neutral_calls p) @ es))
                    (command_thread duration ps rs))"

section \<open>The monitoring loop\<close>

text \<open>What one pass of the loop reads: the clock, a snapshot, three loads of \<open>active_phase\<close>, the clock
  for the status line, the outcome of a firmware query, and the two flags at the end.\<close>

record watch_pass =
  w_now :: time
  w_snapshot :: telemetry_snapshot
  w_phase :: nat
  w_phase_rpm :: nat
  w_status_now :: time
  w_phase_query :: nat
  w_query :: bool
  w_done :: bool
  w_failure :: bool

record watch =
  last_progress :: telemetry_snapshot
  imu_progress :: bool
  motor_progress :: bool
  peak_abs_rpm :: f32
  next_status :: time
  fw_completed :: bool
  fw_success :: bool
  watch_failure :: bool
  stop_commands :: bool

definition telemetry_stale :: "int \<Rightarrow> telemetry_snapshot \<Rightarrow> bool" where
  "telemetry_stale timeout s \<longleftrightarrow>
     (case (imu_age s, motor_age s) of
        (Some i, Some m) \<Rightarrow> i > timeout \<or> m > timeout
      | _ \<Rightarrow> True)"

text \<open>The checks of an armed run while a phase is active; the flag: leave the loop.\<close>

definition watch_active :: "int \<Rightarrow> watch_pass \<Rightarrow> watch \<Rightarrow> watch \<times> bool" where
  "watch_active timeout p w =
     (let s = w_snapshot p
      in if fault_observed s \<or> telemetry_stale timeout s
         then (w\<lparr>watch_failure := True, stop_commands := True\<rparr>, True)
         else
           let w = (if imu_samples s > imu_samples (last_progress w) then w\<lparr>imu_progress := True\<rparr> else w);
               w = (if motor_samples s > motor_samples (last_progress w) then w\<lparr>motor_progress := True\<rparr> else w);
               w = (if w_phase_rpm p = 3
                    then (case snap_motor s of
                            Some motor \<Rightarrow> w\<lparr>peak_abs_rpm := f32_max (peak_abs_rpm w) (f32_abs (rpm motor))\<rparr>
                          | None \<Rightarrow> w)
                    else w)
           in (w, False))"

definition watch_body :: "options \<Rightarrow> int \<Rightarrow> watch_pass \<Rightarrow> watch \<Rightarrow> watch \<times> bool" where
  "watch_body opts timeout p w =
     (let (w, leave) = (if arm_actuators opts \<and> w_phase p \<noteq> 0 then watch_active timeout p w else (w, False))
      in if leave then (w, True)
         else
           let w = w\<lparr>last_progress := w_snapshot p\<rparr>;
               w = (if w_status_now p \<ge> next_status w
                    then w\<lparr>next_status := next_status w + ms (status_interval opts)\<rparr> else w);
               w = (if arm_actuators opts \<and> \<not> fw_completed w \<and> w_phase_query p \<noteq> 0
                    then w\<lparr>fw_success := w_query p, fw_completed := True\<rparr> else w)
           in (w, arm_actuators opts \<and> w_done p \<and> (fw_completed w \<or> w_failure p)))"

fun watch_loop :: "options \<Rightarrow> int \<Rightarrow> time \<Rightarrow> watch_pass list \<Rightarrow> watch \<Rightarrow> watch option" where
  "watch_loop opts timeout dl [] w = None"
| "watch_loop opts timeout dl (p # ps) w =
     (if w_now p < dl then
        (case watch_body opts timeout p w of
           (w, leave) \<Rightarrow> if leave then Some w else watch_loop opts timeout dl ps w)
      else Some w)"

section \<open>The main function\<close>

definition smoke_config :: "options \<Rightarrow> controller_config" where
  "smoke_config opts =
     default_controller_config
       \<lparr>device_path := opt_device_path opts, baud := opt_baud opts,
        imu_poll_interval := opt_imu_poll_interval opts, motor_poll_interval := opt_motor_poll_interval opts,
        poll_response_timeout := 100, max_brake_current := opt_brake_current opts,
        command_watchdog_timeout := 500, command_watchdog_action := Coast\<rparr>"

definition telemetry_stale_timeout :: "options \<Rightarrow> int" where
  "telemetry_stale_timeout opts =
     max (opt_imu_poll_interval opts) (opt_motor_poll_interval opts) * 4
       + poll_response_timeout (smoke_config opts)"

definition monitoring_time :: "options \<Rightarrow> int" where
  "monitoring_time opts = (if arm_actuators opts then phase_duration opts * 6 + 2000 else 3000)"

text \<open>What \<open>main\<close> finds out, in the order of the code.\<close>

record smoke_world =
  connect_ok :: bool
  initial_fw :: "fw_version option"
  imu_wait_start :: time
  imu_polls :: "(time \<times> bool) list"
  imu_at_end :: bool
  motor_wait_start :: time
  motor_polls :: "(time \<times> bool) list"
  motor_at_end :: bool
  startup_snapshot :: telemetry_snapshot
  progress_snapshot :: telemetry_snapshot
  phase_runs :: "phase_run list"
  monitoring_start :: time
  status_start :: time
  watch_passes :: "watch_pass list"
  connected_after_phases :: bool
  safe_accepts :: "actuator_call \<Rightarrow> bool"
  final_snapshot :: telemetry_snapshot
  transport_connected :: bool

definition queue_safe_outputs :: "(actuator_call \<Rightarrow> bool) \<Rightarrow> f32 \<Rightarrow> actuator_call list \<times> bool" where
  "queue_safe_outputs accepts center = send_all accepts [CallCurrent 0, CallServo (clamp_servo center)]"

definition start_watch :: "smoke_world \<Rightarrow> watch" where
  "start_watch world =
     \<lparr>last_progress = progress_snapshot world, imu_progress = False, motor_progress = False,
      peak_abs_rpm = 0, next_status = status_start world, fw_completed = False, fw_success = False,
      watch_failure = False, stop_commands = False\<rparr>"

definition smoke_success :: "options \<Rightarrow> smoke_world \<Rightarrow> watch \<Rightarrow> bool \<Rightarrow> bool \<Rightarrow> bool" where
  "smoke_success opts world w phase_failure safe_outputs_queued \<longleftrightarrow>
     (let final = final_snapshot world;
          telemetry_fresh = (case (imu_age final, motor_age final) of
                               (Some i, Some m) \<Rightarrow> i \<le> telemetry_stale_timeout opts \<and> m \<le> telemetry_stale_timeout opts
                             | _ \<Rightarrow> False);
          rpm_feedback_observed = f32_less (f32_literal 1 1) (peak_abs_rpm w)
      in if \<not> arm_actuators opts then
           imu_samples final > 0 \<and> motor_samples final > 0 \<and> transport_connected world
             \<and> telemetry_fresh \<and> \<not> fault_observed final
         else
           \<not> phase_failure \<and> imu_progress w \<and> motor_progress w \<and> fw_success w \<and> safe_outputs_queued
             \<and> rpm_feedback_observed \<and> transport_connected world \<and> telemetry_fresh
             \<and> \<not> fault_observed final)"

text \<open>The calls that reach the client, in order; those of the command thread come before the join.\<close>

datatype smoke_event = Connected | Sent actuator_call | Disconnected

fun thread_calls :: "thread_event list \<Rightarrow> actuator_call list" where
  "thread_calls [] = []"
| "thread_calls (Call x # es) = x # thread_calls es"
| "thread_calls (_ # es) = thread_calls es"

text \<open>From the start of the command thread to the verdict.  After the join \<open>phase_failure\<close> holds what
  either thread stored.\<close>

definition smoke_run :: "options \<Rightarrow> smoke_world \<Rightarrow> (int \<times> actuator_call list) option" where
  "smoke_run opts world =
     (case (if arm_actuators opts then command_thread (phase_duration opts) (phases opts) (phase_runs world)
            else Some ([], False, [])) of
        None \<Rightarrow> None
      | Some (results, thread_failure, events) \<Rightarrow>
          (case watch_loop opts (telemetry_stale_timeout opts)
                  (monitoring_start world + ms (monitoring_time opts)) (watch_passes world) (start_watch world) of
             None \<Rightarrow> None
           | Some w \<Rightarrow>
               let (safe_calls, safe_outputs_queued) =
                     (if arm_actuators opts then
                        (if connected_after_phases world
                         then queue_safe_outputs (safe_accepts world) (servo_center opts) else ([], False))
                      else ([], True))
               in Some (if smoke_success opts world w (thread_failure \<or> watch_failure w) safe_outputs_queued
                        then 0 else 6,
                        thread_calls events @ safe_calls)))"

definition smoke_main :: "string list \<Rightarrow> smoke_world \<Rightarrow> (int \<times> smoke_event list) option" where
  "smoke_main argv world =
     (case parse_args argv of
        Inl Usage \<Rightarrow> Some (0, [])
      | Inl (Thrown _) \<Rightarrow> Some (7, [])
      | Inr opts \<Rightarrow>
          if \<not> connect_ok world then Some (2, [])
          else if initial_fw world = None then Some (3, [Connected, Disconnected])
          else
            (case wait_until (imu_wait_start world + ms 1500) (imu_polls world) (imu_at_end world) of
               None \<Rightarrow> None
             | Some got_imu \<Rightarrow>
                 (case wait_until (motor_wait_start world + ms 1500) (motor_polls world) (motor_at_end world) of
                    None \<Rightarrow> None
                  | Some got_motor \<Rightarrow>
                      if \<not> got_imu \<or> \<not> got_motor then Some (4, [Connected, Disconnected])
                      else if fault_observed (startup_snapshot world) then Some (5, [Connected, Disconnected])
                      else map_option (\<lambda>(code, calls). (code, Connected # map Sent calls @ [Disconnected]))
                             (smoke_run opts world))))"

section \<open>What the monitor remembers\<close>

text \<open>The two callbacks as updates of one object.\<close>

datatype telemetry_sample = ImuSample time imu_data | MotorSample time motor_state

primrec observe :: "telemetry_sample \<Rightarrow> telemetry_monitor \<Rightarrow> telemetry_monitor" where
  "observe (ImuSample t d) m = on_imu t d m"
| "observe (MotorSample t d) m = on_motor t d m"

definition imu_list :: "telemetry_sample list \<Rightarrow> (time \<times> imu_data) list" where
  "imu_list xs = concat (map (\<lambda>x. case x of ImuSample t d \<Rightarrow> [(t, d)] | _ \<Rightarrow> []) xs)"

definition motor_list :: "telemetry_sample list \<Rightarrow> (time \<times> motor_state) list" where
  "motor_list xs = concat (map (\<lambda>x. case x of MotorSample t d \<Rightarrow> [(t, d)] | _ \<Rightarrow> []) xs)"

lemma sample_lists [simp]:
  "imu_list [] = []" "motor_list [] = []"
  "imu_list (xs @ [ImuSample t d]) = imu_list xs @ [(t, d)]" "motor_list (xs @ [ImuSample t d]) = motor_list xs"
  "imu_list (xs @ [MotorSample t m]) = imu_list xs" "motor_list (xs @ [MotorSample t m]) = motor_list xs @ [(t, m)]"
  by (simp_all add: imu_list_def motor_list_def)

lemma age_string_inj: "age_string a = age_string b \<Longrightarrow> a = b"
proof (cases a; cases b)
  fix x y
  assume "age_string a = age_string b" "a = Some x" "b = Some y"
  then have "int_text x = int_text y" by (simp add: age_string_def)
  then have "Some (x, ([] :: string)) = Some (y, [])" by (metis scan_decimal)
  with \<open>a = Some x\<close> \<open>b = Some y\<close> show "a = b" by simp
next
  fix y
  assume "age_string a = age_string b" "a = None" "b = Some y"
  then show "a = b" using int_text_head [of y] by (auto simp: age_string_def is_digit_def)
next
  fix x
  assume "age_string a = age_string b" "a = Some x" "b = None"
  then show "a = b" using int_text_head [of x] by (auto simp: age_string_def is_digit_def)
qed simp

text \<open>A snapshot counts all samples, holds the last one of each kind with its age, and reports a fault
  once any motor sample had one.\<close>

lemma snapshot_summary:
  fixes xs now
  defines "s \<equiv> snapshot now (fold observe xs new_monitor)"
  shows "imu_samples s = length (imu_list xs) \<and> motor_samples s = length (motor_list xs)
    \<and> (fault_observed s \<longleftrightarrow> (\<exists>(t, d)\<in>set (motor_list xs). fault_code d \<noteq> 0))
    \<and> imu_age s = (if imu_list xs = [] then None else Some (millis (now - fst (last (imu_list xs)))))
    \<and> motor_age s = (if motor_list xs = [] then None else Some (millis (now - fst (last (motor_list xs)))))
    \<and> snap_imu s = (if imu_list xs = [] then None else Some (snd (last (imu_list xs))))
    \<and> snap_motor s = (if motor_list xs = [] then None else Some (snd (last (motor_list xs))))"
  unfolding s_def
proof (induction xs rule: rev_induct)
  case (snoc x xs)
  then show ?case by (cases x) (auto simp: snapshot_def on_imu_def on_motor_def split: if_splits)
qed (simp add: snapshot_def new_monitor_def)

section \<open>Limits of the calls\<close>

fun within_limits :: "options \<Rightarrow> actuator_call \<Rightarrow> bool" where
  "within_limits opts (CallDuty d) \<longleftrightarrow> in_range d 0 (min (f32_real (opt_duty opts)) (13421773 / 2 ^ 26))"
| "within_limits opts (CallCurrent a) \<longleftrightarrow> in_range a 0 (min (f32_real (opt_current opts)) 20)"
| "within_limits opts (CallRpm r) \<longleftrightarrow> 0 \<le> r \<and> r \<le> min (opt_rpm opts) 3000"
| "within_limits opts (CallServo p) \<longleftrightarrow> in_range p 0 1"
| "within_limits opts (CallBrake b) \<longleftrightarrow> in_range b 0 (min (f32_real (opt_brake_current opts)) 5)"

text \<open>What the packet of a call tells the firmware.\<close>

fun tells :: "bytes \<Rightarrow> actuator_call \<Rightarrow> bool" where
  "tells pkt (CallDuty d) \<longleftrightarrow> carries_i32 pkt SetDuty \<lfloor>f32_real d * 100000\<rfloor>"
| "tells pkt (CallCurrent a) \<longleftrightarrow> carries_i32 pkt SetCurrent \<lfloor>f32_real a * 1000\<rfloor>"
| "tells pkt (CallRpm r) \<longleftrightarrow> carries_i32 pkt SetRpm r"
| "tells pkt (CallServo p) \<longleftrightarrow> carries_i16 pkt SetServoPos \<lfloor>f32_real p * 1000\<rfloor>"
| "tells pkt (CallBrake a) \<longleftrightarrow> carries_i32 pkt SetCurrentBrake \<lfloor>f32_real a * 1000\<rfloor>"

text \<open>A brake request of zero is refused by the client.\<close>

fun brakes_nothing :: "actuator_call \<Rightarrow> bool" where
  "brakes_nothing (CallBrake b) \<longleftrightarrow> f32_real b = 0"
| "brakes_nothing _ \<longleftrightarrow> False"

lemma positive_finite: "0 < f32_real x \<Longrightarrow> f32_isfinite x"
  by (cases "f32_decode x") (auto simp: f32_isfinite_def f32_real_def)

lemma in_range_zero: "0 \<le> hi \<Longrightarrow> in_range 0 0 hi"
  by (simp add: in_range_def)

lemma in_range_half: "in_range v 0 hi \<Longrightarrow> in_range (half v) 0 hi"
  using f32_half [of v] by (auto simp: in_range_def half_def)

lemma clamp_servo_range: "\<not> f32_isnan v \<Longrightarrow> in_range (clamp_servo v) 0 1"
  using f32_clamp_bounds [of v 0 "f32_literal 1 1"] limit_values(9,10)
  by (simp add: in_range_def clamp_servo_def del: One_nat_def)

lemma in_range_not_nan: "in_range v lo hi \<Longrightarrow> \<not> f32_isnan v"
  by (simp add: in_range_def f32_finite_not_nan)

definition calls_of :: "phase list \<Rightarrow> actuator_call set" where
  "calls_of ps = (\<Union>p\<in>set ps. (\<Union>(set ` set (phase_values p))) \<union> set (neutral_calls p))"

lemma phases_within_limits:
  assumes ok: "options_ok opts" and x: "x \<in> calls_of (phases opts)"
  shows "within_limits opts x"
proof -
  have d: "in_range (opt_duty opts) 0 (min (f32_real (opt_duty opts)) (13421773 / 2 ^ 26))"
    and a: "in_range (opt_current opts) 0 (min (f32_real (opt_current opts)) 20)"
    and b: "in_range (opt_brake_current opts) 0 (min (f32_real (opt_brake_current opts)) 5)"
    and r: "0 \<le> opt_rpm opts" "opt_rpm opts \<le> 3000"
    using ok by (simp_all add: options_ok_def in_range_def)
  have fin: "f32_isfinite (servo_center opts)" "f32_isfinite (servo_amplitude opts)"
    using ok by (simp_all add: options_ok_def in_range_def)
  have s: "in_range (clamp_servo (servo_center opts)) 0 1"
    "in_range (clamp_servo (f32_sub (servo_center opts) (servo_amplitude opts))) 0 1"
    "in_range (clamp_servo (f32_add (servo_center opts) (servo_amplitude opts))) 0 1"
    using fin by (simp_all add: clamp_servo_range f32_finite_not_nan f32_add_not_nan f32_sub_not_nan)
  note s' = s(2,3) [THEN in_range_not_nan, THEN clamp_servo_range]
  show ?thesis
    using x d a b r s s' in_range_half [OF d] in_range_half [OF a] in_range_half [OF b] in_range_zero
    by (auto simp: calls_of_def phases_def Let_def in_range_def split: if_splits)
qed

section \<open>Which calls a run makes\<close>

lemma send_all_calls: "set (fst (send_all accepts xs)) \<subseteq> set xs"
  by (induction xs) (auto simp: case_prod_unfold Let_def)

lemma stream_loop_calls:
  "stream_loop dl values stopped index ps = Some (ok, n, calls) \<Longrightarrow> values \<noteq> [] \<Longrightarrow>
     set calls \<subseteq> \<Union>(set ` set values)"
proof (induction ps arbitrary: index ok n calls)
  case (Cons p ps)
  have "values ! (index mod length values) \<in> set values" using Cons.prems(2) by simp
  then have "set (fst (send_all (pass_accepts p) (values ! (index mod length values)))) \<subseteq> \<Union>(set ` set values)"
    using send_all_calls by blast
  with Cons show ?case by (auto simp: case_prod_unfold Let_def split: if_splits) blast+
qed simp

lemma thread_calls_append [simp]: "thread_calls (xs @ ys) = thread_calls xs @ thread_calls ys"
  by (induction xs rule: thread_calls.induct) simp_all

lemma thread_calls_map [simp]: "thread_calls (map Call xs) = xs"
  by (induction xs) simp_all

lemma stream_phase_calls:
  "stream_phase name values duration r = Some (res, calls) \<Longrightarrow> values \<noteq> [] \<Longrightarrow> set calls \<subseteq> \<Union>(set ` set values)"
  by (auto simp: stream_phase_def dest: stream_loop_calls)

lemma command_thread_calls:
  "command_thread duration ps rs = Some (results, failure, events) \<Longrightarrow> \<forall>p\<in>set ps. phase_values p \<noteq> [] \<Longrightarrow>
     set (thread_calls events) \<subseteq> calls_of ps"
proof (induction duration ps rs arbitrary: results failure events rule: command_thread.induct)
  case (3 duration p ps r rs)
  obtain res calls where st: "stream_phase (phase_title p) (phase_values p) duration r = Some (res, calls)"
    using 3(2) by (auto split: option.splits)
  have c: "set calls \<subseteq> \<Union>(set ` set (phase_values p))"
    using stream_phase_calls [OF st] 3(3) by simp
  show ?case
  proof (cases "phase_ok res")
    case True
    then obtain results' events' where rest: "command_thread duration ps rs = Some (results', failure, events')"
      and ev: "events = ActivePhase (phase_index p) # map Call calls @ [ActivePhase 0] @ map Call (neutral_calls p) @ events'"
      using 3(2) st by (auto simp: Let_def)
    have "set (thread_calls events') \<subseteq> calls_of ps"
      using 3(1) [OF st refl refl] True rest 3(3) by simp
    then show ?thesis using c by (auto simp: ev calls_of_def)
  next
    case False
    then show ?thesis using 3(2) st c by (auto simp: Let_def calls_of_def)
  qed
qed (simp_all add: calls_of_def)

section \<open>What the client does with a call\<close>

text \<open>The packet of a call within its limits; the brake current is clamped to the configured maximum first.\<close>

fun call_packet :: "f32 \<Rightarrow> actuator_call \<Rightarrow> bytes" where
  "call_packet limit (CallDuty d) = build_set_duty_command d"
| "call_packet limit (CallCurrent a) = build_set_current_command a"
| "call_packet limit (CallRpm r) = build_set_rpm_command (word_of_int r)"
| "call_packet limit (CallServo p) = build_set_servo_pos_command p"
| "call_packet limit (CallBrake a) = build_set_current_brake_command (clamp_brake_current a limit)"

lemma carried_floor_32:
  assumes "feed_bytes [] pkt = Some ([], [id_byte cid # be (word_of_int (trunc_real r) :: u32)])"
    and "0 \<le> r" "r \<le> 2147483647"
  shows "carries_i32 pkt cid \<lfloor>r\<rfloor>"
  using carries_i32I [OF assms(1)] assms(2,3) by (simp add: sint_trunc_32) (simp add: trunc_real_def)

lemma carried_floor_16:
  assumes "feed_bytes [] pkt = Some ([], [id_byte cid # be (word_of_int (trunc_real r) :: u16)])"
    and "0 \<le> r" "r \<le> 32767"
  shows "carries_i16 pkt cid \<lfloor>r\<rfloor>"
  using carries_i16I [OF assms(1)] assms(2,3) by (simp add: sint_trunc_16) (simp add: trunc_real_def)

lemma rpm_packet:
  "carries_i32 (build_set_rpm_command w) SetRpm (sint w) \<and> packet_ok (build_set_rpm_command w)"
proof -
  have f: "frameable (id_byte SetRpm # be w)" by (simp add: frameable_def)
  have "feed_bytes [] (build_set_rpm_command w) = Some ([], [id_byte SetRpm # be w])"
    using feed_bytes_frame [OF f] by (simp add: build_set_rpm_command_def append_be)
  from carries_i32I [OF this] show ?thesis
    using length_frame [OF f] by (simp add: build_set_rpm_command_def append_be packet_ok_def)
qed

lemma call_packet_ok:
  assumes "within_limits opts x" "\<not> brakes_nothing x"
  shows "packet_ok (call_packet (opt_brake_current opts) x) \<and> tells (call_packet (opt_brake_current opts) x) x"
proof (cases x)
  case (CallDuty d)
  with assms have "build_set_duty_command d \<noteq> []" "0 \<le> f32_real d" "f32_real d \<le> 1"
    by (auto simp: duty.refused_iff duty_range_def in_range_def)
  with CallDuty show ?thesis
    using framed_packet_ok [OF duty.framed [of d]] carried_floor_32 [OF duty.delivered [of d]] by auto
next
  case (CallCurrent a)
  with assms have "build_set_current_command a \<noteq> []" "0 \<le> f32_real a" "f32_real a \<le> 20"
    by (auto simp: current.refused_iff current_range_def in_range_def)
  with CallCurrent show ?thesis
    using framed_packet_ok [OF current.framed [of a]] carried_floor_32 [OF current.delivered [of a]] by auto
next
  case (CallRpm r)
  with assms have "sint (word_of_int r :: u32) = r" by (intro sint_word_of_int_32) auto
  with CallRpm show ?thesis using rpm_packet [of "word_of_int r"] by simp
next
  case (CallServo p)
  with assms have "build_set_servo_pos_command p \<noteq> []" "0 \<le> f32_real p" "f32_real p \<le> 1"
    by (auto simp: servo.refused_iff servo_range_def in_range_def)
  with CallServo show ?thesis
    using framed_packet_ok [OF servo.framed [of p]] carried_floor_16 [OF servo.delivered [of p]] by auto
next
  case (CallBrake b)
  define l where "l = clamp_brake_current b (opt_brake_current opts)"
  have b: "f32_isfinite b" "0 < f32_real b" "f32_real b \<le> f32_real (opt_brake_current opts)" "f32_real b \<le> 5"
    using CallBrake assms by (auto simp: in_range_def)
  have m: "f32_isfinite (opt_brake_current opts)" using b(2,3) by (intro positive_finite) simp
  with b have l: "f32_isfinite l" "f32_real l = f32_real b"
    using clamp_real [of b "opt_brake_current opts"] by (simp_all add: l_def)
  then have "build_set_current_brake_command l \<noteq> []"
    using b by (simp add: brake.refused_iff current_range_def)
  with CallBrake show ?thesis
    using framed_packet_ok [OF brake.framed [of l]] brake_packet [of l] b l by (simp add: l_def)
qed

lemma perform_enqueues:
  assumes "cfg c = smoke_config opts" "within_limits opts x" "\<not> brakes_nothing x"
  shows "perform now x c = enqueue_command now (call_packet (opt_brake_current opts) x) True c"
proof (cases x)
  case (CallBrake b)
  have b: "f32_isfinite b" "0 < f32_real b" "f32_real b \<le> f32_real (opt_brake_current opts)"
    using CallBrake assms by (auto simp: in_range_def)
  then have "f32_isfinite (opt_brake_current opts)" by (intro positive_finite) simp
  with b have "f32_isfinite (clamp_brake_current b (opt_brake_current opts))"
    "f32_real (clamp_brake_current b (opt_brake_current opts)) = f32_real b"
    using clamp_real [of b "opt_brake_current opts"] by simp_all
  with b CallBrake assms(1) show ?thesis
    by (simp add: set_current_brake_def enqueue_control_command_def Let_def smoke_config_def f32_less_real f32_le_real)
qed (simp_all add: set_duty_def set_current_def set_rpm_def set_servo_pos_def enqueue_control_command_def)

lemma perform_keeps:
  "running (fst (perform now x c)) = running c" "cfg (fst (perform now x c)) = cfg c"
  by (cases x; simp add: set_duty_def set_current_def set_rpm_def set_servo_pos_def set_current_brake_def
      enqueue_control_command_def enqueue_command_def Let_def wake_io_thread_def)+

lemma perform_accepted:
  assumes "running c" "cfg c = smoke_config opts" "within_limits opts x" "\<not> brakes_nothing x"
  shows "\<exists>c' q pkt. perform now x c = (c', True) \<and> command_queue c' = q @ [pkt] \<and> tells pkt x
    \<and> control_watchdog c' = \<lparr>wd_deadline = now + ms 500, armed = True\<rparr>"
proof -
  note pk = call_packet_ok [OF assms(3,4)]
  have w: "control_watchdog_enabled (cfg c)" "command_watchdog_timeout (cfg c) = 500"
    by (simp_all add: assms(2) smoke_config_def control_watchdog_enabled_def)
  show ?thesis
    unfolding perform_enqueues [OF assms(2-4)]
    by (rule enqueue_accepted [OF assms(1) pk [THEN conjunct1], of now True]) (use pk w in auto)
qed

lemma perform_zero_brake:
  "within_limits opts x \<Longrightarrow> brakes_nothing x \<Longrightarrow> perform now x c = (c, False)"
  using clamp_real by (cases x) (auto simp: set_current_brake_def Let_def f32_less_real f32_le_real)

section \<open>The contract between a phase and the client\<close>

text \<open>A client that is ready accepts every legal call and stays ready; then a phase fails only when a
  stop is requested.\<close>

locale actuator_client =
  fixes perform_call :: "time \<Rightarrow> actuator_call \<Rightarrow> 'c \<Rightarrow> 'c \<times> bool"
    and ready :: "'c \<Rightarrow> bool"
    and legal :: "actuator_call \<Rightarrow> bool"
  assumes accepts: "ready c \<Longrightarrow> legal x \<Longrightarrow> snd (perform_call now x c)"
    and keeps_ready: "ready c \<Longrightarrow> ready (fst (perform_call now x c))"
begin

lemma send_all_accepted:
  "\<forall>x\<in>set xs. legal x \<and> (\<exists>c now. ready c \<and> answer x = snd (perform_call now x c)) \<Longrightarrow> snd (send_all answer xs)"
  using accepts by (induction xs) (auto simp: case_prod_unfold Let_def)

lemma stream_loop_verdict:
  assumes "\<forall>p\<in>set ps. \<forall>x. \<exists>c now. ready c \<and> pass_accepts p x = snd (perform_call now x c)"
    and "values \<noteq> []" "\<forall>xs\<in>set values. \<forall>x\<in>set xs. legal x"
    and "stream_loop dl values stopped index ps = Some (ok, n, calls)"
  shows "ok \<longleftrightarrow> \<not> stopped"
  using assms(1,4)
proof (induction ps arbitrary: index ok n calls)
  case (Cons p ps)
  have "values ! (index mod length values) \<in> set values" using assms(2) by simp
  then have "snd (send_all (pass_accepts p) (values ! (index mod length values)))"
    using Cons.prems(1) assms(3) by (intro send_all_accepted) auto
  with Cons show ?case by (auto simp: case_prod_unfold Let_def split: if_splits)
qed simp

lemma performed_in_turn:
  "ready c \<Longrightarrow> \<forall>x\<in>set xs. legal x \<Longrightarrow> ready (fold (\<lambda>x c. fst (perform_call now x c)) xs c)"
  using keeps_ready by (induction xs arbitrary: c) auto

end

interpretation smoke_client: actuator_client perform
  "\<lambda>c :: client. running c \<and> cfg c = smoke_config opts" "\<lambda>x. within_limits opts x \<and> \<not> brakes_nothing x" for opts
proof
  fix c :: client and x now
  assume "running c \<and> cfg c = smoke_config opts" "within_limits opts x \<and> \<not> brakes_nothing x"
  with perform_accepted [of c opts x now] show "snd (perform now x c)" by auto
qed (simp add: perform_keeps)

section \<open>Shape of a run\<close>

lemma phase_values_nonempty: "p \<in> set (phases opts) \<Longrightarrow> phase_values p \<noteq> []"
  by (auto simp: phases_def Let_def split: if_splits)

lemma smoke_run_calls:
  assumes "options_ok opts" "smoke_run opts world = Some (code, calls)" "x \<in> set calls"
  shows "arm_actuators opts \<and> within_limits opts x"
proof -
  have safe: "within_limits opts y" if "y \<in> set (fst (queue_safe_outputs (safe_accepts world) (servo_center opts)))" for y
  proof -
    have "y = CallCurrent 0 \<or> y = CallServo (clamp_servo (servo_center opts))"
      using that send_all_calls unfolding queue_safe_outputs_def by fastforce
    then show ?thesis
      using assms(1) clamp_servo_range [of "servo_center opts"]
      by (auto simp: options_ok_def in_range_def f32_finite_not_nan)
  qed
  show ?thesis
    using assms(2,3) safe phases_within_limits [OF assms(1)] phase_values_nonempty
    by (auto simp: smoke_run_def case_prod_unfold Let_def split: option.splits if_splits dest!: command_thread_calls)
      blast+
qed

lemma smoke_main_cases:
  assumes "smoke_main argv world = Some (code, events)"
  obtains "parse_args argv = Inl Usage" "code = 0" "events = []"
  | e where "parse_args argv = Inl (Thrown e)" "code = 7" "events = []"
  | opts where "parse_args argv = Inr opts" "\<not> connect_ok world" "code = 2" "events = []"
  | opts where "parse_args argv = Inr opts" "connect_ok world" "code \<in> {3, 4, 5}" "events = [Connected, Disconnected]"
  | opts calls where "parse_args argv = Inr opts" "connect_ok world" "smoke_run opts world = Some (code, calls)"
      "\<not> fault_observed (startup_snapshot world)" "events = Connected # map Sent calls @ [Disconnected]"
  using assms by (auto simp: smoke_main_def split: sum.splits args_exit.splits if_splits option.splits)

lemma command_thread_results:
  "command_thread duration ps rs = Some (results, failure, events) \<Longrightarrow>
     (if failure then \<exists>before r. results = before @ [r] \<and> (\<forall>x\<in>set before. phase_ok x) \<and> \<not> phase_ok r
      else map phase_name results = map phase_title ps \<and> (\<forall>x\<in>set results. phase_ok x))"
proof (induction duration ps rs arbitrary: results failure events rule: command_thread.induct)
  case (3 duration p ps r rs)
  obtain res calls where st: "stream_phase (phase_title p) (phase_values p) duration r = Some (res, calls)"
    using 3(2) by (auto split: option.splits)
  then have name: "phase_name res = phase_title p" by (auto simp: stream_phase_def)
  show ?case
  proof (cases "phase_ok res")
    case True
    then obtain results' events' where
      rest: "command_thread duration ps rs = Some (results', failure, events')" "results = res # results'"
      using 3(2) st by (auto simp: Let_def)
    have ih: "if failure then \<exists>before r. results' = before @ [r] \<and> (\<forall>x\<in>set before. phase_ok x) \<and> \<not> phase_ok r
      else map phase_name results' = map phase_title ps \<and> (\<forall>x\<in>set results'. phase_ok x)"
      using 3(1) [OF st refl refl] True rest(1) by simp
    show ?thesis
    proof (cases failure)
      case True
      then obtain before r where "results' = before @ [r]" "\<forall>x\<in>set before. phase_ok x" "\<not> phase_ok r"
        using ih by auto
      then show ?thesis
        using True \<open>phase_ok res\<close> rest(2) by (auto intro!: exI [of _ "res # before"])
    qed (use ih name rest(2) True in simp)
  qed (use 3(2) st in \<open>auto simp: Let_def\<close>)
qed simp_all

text \<open>A phase that ran to its end in \<open>k\<close> passes: each began before the end of the phase and without a
  stop request, all its calls were accepted, and the next look at the clock found the phase over,
  still without a stop request.\<close>

definition phase_completed :: "int \<Rightarrow> phase \<Rightarrow> phase_run \<Rightarrow> nat \<Rightarrow> bool" where
  "phase_completed duration p r k \<longleftrightarrow>
     k < length (passes r)
     \<and> (\<forall>i<k. pass_now (passes r ! i) < phase_started r + ms duration \<and> \<not> pass_stop (passes r ! i)
          \<and> (\<forall>x \<in> set (phase_values p ! (i mod length (phase_values p))). pass_accepts (passes r ! i) x))
     \<and> phase_started r + ms duration \<le> pass_now (passes r ! k) \<and> \<not> stop_after r"

text \<open>The calls of such a phase: its values in turn, then the neutral ones.\<close>

definition phase_sent :: "phase \<Rightarrow> nat \<Rightarrow> actuator_call list" where
  "phase_sent p k = concat (map (\<lambda>i. phase_values p ! (i mod length (phase_values p))) [0..<k]) @ neutral_calls p"

text \<open>A stop request is never taken back: one that was seen in a pass is still there after the loop.\<close>

definition stop_sticky :: "phase_run \<Rightarrow> bool" where
  "stop_sticky r \<longleftrightarrow> ((\<exists>q \<in> set (passes r). pass_stop q) \<longrightarrow> stop_after r)"

lemma send_all_ok: "snd (send_all accepts xs) \<Longrightarrow> fst (send_all accepts xs) = xs \<and> (\<forall>x \<in> set xs. accepts x)"
  by (induction xs) (auto simp: Let_def case_prod_unfold split: if_splits)

lemma upt_shift: "map f [0..<Suc k] = f 0 # map (\<lambda>i. f (Suc i)) [0..<k]"
  by (simp add: upt_conv_Cons flip: map_Suc_upt del: upt_Suc)

lemma stream_loop_complete:
  "stream_loop dl values stopped index ps = Some (True, n, calls) \<Longrightarrow>
     \<exists>k < length ps. n = index + k \<and> \<not> stopped
       \<and> (\<forall>i<k. pass_now (ps ! i) < dl \<and> \<not> pass_stop (ps ! i)
            \<and> (\<forall>x \<in> set (values ! ((index + i) mod length values)). pass_accepts (ps ! i) x))
       \<and> (dl \<le> pass_now (ps ! k) \<or> pass_stop (ps ! k))
       \<and> calls = concat (map (\<lambda>i. values ! ((index + i) mod length values)) [0..<k])"
proof (induction ps arbitrary: index n calls)
  case (Cons p ps)
  show ?case
  proof (cases "pass_now p < dl \<and> \<not> pass_stop p")
    case True
    let ?v = "values ! (index mod length values)"
    obtain calls' where rest: "stream_loop dl values stopped (index + 1) ps = Some (True, n, calls')"
      and sent: "snd (send_all (pass_accepts p) ?v)" "calls = ?v @ calls'"
      using Cons.prems True send_all_ok [of "pass_accepts p" ?v]
      by (auto simp: Let_def case_prod_unfold split: if_splits)
    from Cons.IH [OF rest] obtain k where k: "k < length ps" "n = index + 1 + k" "\<not> stopped"
      "\<forall>i<k. pass_now (ps ! i) < dl \<and> \<not> pass_stop (ps ! i)
            \<and> (\<forall>x \<in> set (values ! ((index + 1 + i) mod length values)). pass_accepts (ps ! i) x)"
      "dl \<le> pass_now (ps ! k) \<or> pass_stop (ps ! k)"
      "calls' = concat (map (\<lambda>i. values ! ((index + 1 + i) mod length values)) [0..<k])" by blast
    have "calls = concat (map (\<lambda>i. values ! ((index + i) mod length values)) [0..<Suc k])"
      unfolding upt_shift using sent(2) k(6) by simp
    moreover have "\<forall>i<Suc k. pass_now ((p # ps) ! i) < dl \<and> \<not> pass_stop ((p # ps) ! i)
            \<and> (\<forall>x \<in> set (values ! ((index + i) mod length values)). pass_accepts ((p # ps) ! i) x)"
      using k(4) True send_all_ok [OF sent(1)] by (auto simp: less_Suc_eq_0_disj)
    ultimately show ?thesis using k(1-3,5) by (intro exI [of _ "Suc k"]) simp
  qed (use Cons.prems in auto)
qed simp

lemma stream_phase_complete:
  assumes "stream_phase name (phase_values p) duration r = Some (res, calls)" "phase_ok res" "stop_sticky r"
  shows "phase_completed duration p r (commands_sent res) \<and> calls @ neutral_calls p = phase_sent p (commands_sent res)"
proof -
  have "stream_loop (phase_started r + ms duration) (phase_values p) (stop_after r) 0 (passes r)
      = Some (True, commands_sent res, calls)"
    using assms(1,2) by (auto simp: stream_phase_def)
  from stream_loop_complete [OF this] assms(3) show ?thesis
    by (auto simp: phase_completed_def phase_sent_def stop_sticky_def)
qed

lemma command_thread_complete:
  "command_thread duration ps rs = Some (results, False, events) \<Longrightarrow> \<forall>r \<in> set rs. stop_sticky r \<Longrightarrow>
     length results = length ps \<and> length ps \<le> length rs
     \<and> (\<forall>j < length ps. phase_completed duration (ps ! j) (rs ! j) (commands_sent (results ! j)))
     \<and> thread_calls events = concat (map2 phase_sent ps (map commands_sent results))"
proof (induction duration ps rs arbitrary: results events rule: command_thread.induct)
  case (3 duration p ps r rs)
  obtain res calls where st: "stream_phase (phase_title p) (phase_values p) duration r = Some (res, calls)"
    using 3(2) by (auto split: option.splits)
  then have ok: "phase_ok res" using 3(2) by (auto simp: Let_def split: if_splits)
  then obtain results' events' where rest: "command_thread duration ps rs = Some (results', False, events')"
    "results = res # results'"
    "events = ActivePhase (phase_index p) # map Call calls @ [ActivePhase 0] @ map Call (neutral_calls p) @ events'"
    using 3(2) st by (auto simp: Let_def)
  have "stop_sticky r" "\<forall>r \<in> set rs. stop_sticky r" using 3(3) by simp_all
  with 3(1) [OF st refl refl] ok rest(1) stream_phase_complete [OF st ok] show ?case
    by (auto simp: rest(2,3) less_Suc_eq_0_disj)
qed simp_all

lemma watch_body_flags:
  "stop_commands w = watch_failure w \<Longrightarrow>
     stop_commands (fst (watch_body opts timeout p w)) = watch_failure (fst (watch_body opts timeout p w))"
  by (simp add: watch_body_def watch_active_def Let_def case_prod_unfold split: option.split)

lemma watch_loop_flags:
  "watch_loop opts timeout dl ps w = Some w' \<Longrightarrow> stop_commands w = watch_failure w \<Longrightarrow>
     stop_commands w' = watch_failure w'"
proof (induction ps arbitrary: w)
  case (Cons p ps)
  then show ?case
    using watch_body_flags [of w opts timeout p] by (auto split: if_splits prod.splits)
qed simp

section \<open>Loops end\<close>

text \<open>Clock readings with sleeps of at least \<open>gap\<close> milliseconds between them, enough of them to cover
  \<open>whole\<close> milliseconds.\<close>

definition paced :: "time \<Rightarrow> int \<Rightarrow> int \<Rightarrow> time list \<Rightarrow> bool" where
  "paced start gap whole clocks \<longleftrightarrow>
     (\<forall>i<length clocks. start + int i * ms gap \<le> clocks ! i) \<and> whole \<le> gap * (int (length clocks) - 1)
       \<and> clocks \<noteq> []"

lemma paced_reaches:
  assumes "paced start gap whole clocks"
  shows "\<exists>t\<in>set clocks. start + ms whole \<le> t"
proof -
  have len: "length clocks - 1 < length clocks" using assms by (simp add: paced_def)
  then have "start + int (length clocks - 1) * ms gap \<le> clocks ! (length clocks - 1)"
    using assms by (simp add: paced_def)
  moreover have "int (length clocks - 1) = int (length clocks) - 1" using len by simp
  then have "ms whole \<le> int (length clocks - 1) * ms gap"
    using assms by (simp only: paced_def) (simp add: mult.commute)
  ultimately show ?thesis using len by (meson nth_mem order_trans add_left_mono)
qed

lemma wait_until_returns: "\<exists>t\<in>set (map fst polls). dl \<le> t \<Longrightarrow> wait_until dl polls final \<noteq> None"
  by (induction dl polls final rule: wait_until.induct) auto

lemma stream_loop_returns: "\<exists>t\<in>set (map pass_now ps). dl \<le> t \<Longrightarrow> stream_loop dl values stopped index ps \<noteq> None"
proof (induction ps arbitrary: index)
  case (Cons p ps)
  show ?case
  proof (cases "\<exists>t\<in>set (map pass_now ps). dl \<le> t")
    case True
    then show ?thesis using Cons.IH [of "index + 1"] by (auto simp: Let_def case_prod_unfold)
  qed (use Cons.prems in auto)
qed simp

lemma stream_phase_returns:
  assumes "paced (phase_started r) gap duration (map pass_now (passes r))"
  shows "stream_phase name values duration r \<noteq> None"
  using stream_loop_returns [OF paced_reaches [OF assms]] by (simp add: stream_phase_def)

lemma watch_loop_returns: "\<exists>t\<in>set (map w_now ps). dl \<le> t \<Longrightarrow> watch_loop opts timeout dl ps w \<noteq> None"
  by (induction ps arbitrary: w) (auto split: prod.split)

lemma command_thread_returns:
  "length ps \<le> length rs \<Longrightarrow>
   \<forall>(p, r)\<in>set (zip ps rs). paced (phase_started r) (command_period p) duration (map pass_now (passes r)) \<Longrightarrow>
   command_thread duration ps rs \<noteq> None"
proof (induction duration ps rs rule: command_thread.induct)
  case (3 duration p ps r rs)
  then have "stream_phase (phase_title p) (phase_values p) duration r \<noteq> None"
    using stream_phase_returns by auto
  then obtain res calls where "stream_phase (phase_title p) (phase_values p) duration r = Some (res, calls)" by auto
  moreover from this have "command_thread duration ps rs \<noteq> None" if "phase_ok res"
    using that 3 by (auto simp del: not_None_eq)
  ultimately show ?case by (auto simp: Let_def)
qed simp_all

section \<open>An example run\<close>

text \<open>An armed run with default options in which every phase ends at its first look at the clock.\<close>

definition example_argv :: "string list" where
  "example_argv = [''smoke'', ''--device'', ''/dev/ttyACM0'', ''--arm-actuators'']"

definition example_options :: options where
  "example_options = default_options\<lparr>opt_device_path := ''/dev/ttyACM0'', arm_actuators := True\<rparr>"

definition example_snapshot :: "nat \<Rightarrow> telemetry_snapshot" where
  "example_snapshot n =
     snapshot 0 (on_motor 0 (default_motor_state\<lparr>rpm := 0x447A0000\<rparr>)
       (on_imu 0 default_imu_data (new_monitor\<lparr>mon_imu_samples := n, mon_motor_samples := n\<rparr>)))"

definition example_phase_run :: phase_run where
  "example_phase_run =
     \<lparr>phase_started = 0, passes = [\<lparr>pass_now = ms 1500, pass_stop = False, pass_accepts = \<lambda>_. True\<rparr>],
      stop_after = False\<rparr>"

definition example_world :: smoke_world where
  "example_world =
     \<lparr>connect_ok = True, initial_fw = Some \<lparr>major = 6, minor = 2\<rparr>,
      imu_wait_start = 0, imu_polls = [(0, True)], imu_at_end = True,
      motor_wait_start = 0, motor_polls = [(0, True)], motor_at_end = True,
      startup_snapshot = example_snapshot 0, progress_snapshot = example_snapshot 0,
      phase_runs = replicate 6 example_phase_run,
      monitoring_start = 0, status_start = 0,
      watch_passes = [\<lparr>w_now = 0, w_snapshot = example_snapshot 1, w_phase = 3, w_phase_rpm = 3,
        w_status_now = 0, w_phase_query = 3, w_query = True, w_done = True, w_failure = False\<rparr>],
      connected_after_phases = True, safe_accepts = \<lambda>_. True,
      final_snapshot = example_snapshot 1, transport_connected = True\<rparr>"

lemma default_literals:
  "f32_literal 5 100 = 0x3D4CCCCD" "f32_literal 10 1 = 0x41200000" "f32_literal 75 100 = 0x3F400000"
  "f32_literal 50 100 = 0x3F000000" "f32_literal 10 100 = 0x3DCCCCCD"
  by (simp_all add: f32_literal_def float_eval)

lemma default_values:
  "f32_decode 0x3D4CCCCD = FpFin False 13421773 (- 28)" "f32_decode 0x41200000 = FpFin False 10485760 (- 20)"
  "f32_decode 0x3F400000 = FpFin False 12582912 (- 24)" "f32_decode 0x3F000000 = FpFin False 8388608 (- 24)"
  "f32_decode 0x3DCCCCCD = FpFin False 13421773 (- 27)" "f32_decode 0x447A0000 = FpFin False 16384000 (- 14)"
  by (simp_all add: f32_decode_fields)

lemmas float_values = f32_isfinite_def f32_real_def default_values power_int_minus

lemma example_options_ok: "options_ok example_options"
  by (simp add: options_ok_def example_options_def default_options_def default_literals in_range_def float_values
      del: One_nat_def)

lemma example_parsed: "parse_args example_argv = Inr example_options"
proof -
  have "parse_loop (tl example_argv) default_options = Inr example_options"
    by (simp add: example_argv_def example_options_def set_option_def)
  then show ?thesis by (simp add: parse_args_def check_options_iff example_options_ok)
qed

lemma example_phase: "stream_phase name values 1500 example_phase_run =
    Some (\<lparr>phase_name = name, phase_ok = True, commands_sent = 0\<rparr>, [])"
  by (simp add: stream_phase_def example_phase_run_def)

lemma example_thread:
  "map_option (\<lambda>(_, failure, events). (failure, thread_calls events))
     (command_thread 1500 (phases example_options) (phase_runs example_world)) =
   Some (False, [CallDuty 0, CallCurrent 0, CallRpm 0, CallDuty 0,
     CallServo (clamp_servo (servo_center example_options)), CallCurrent 0,
     CallServo (clamp_servo (servo_center example_options))])"
proof -
  have "f32_less 0 (opt_brake_current example_options)"
    by (simp add: example_options_def default_options_def default_literals f32_less_def default_values
        f32_decode_fields [of 0] signed_int_def)
  moreover have "phase_runs example_world = [example_phase_run, example_phase_run, example_phase_run,
      example_phase_run, example_phase_run, example_phase_run]"
    by (simp add: example_world_def numeral_eq_Suc)
  ultimately show ?thesis by (simp add: phases_def Let_def example_phase)
qed

lemma example_snapshot_values [simp]:
  "imu_samples (example_snapshot n) = n + 1" "motor_samples (example_snapshot n) = n + 1"
  "imu_age (example_snapshot n) = Some 0" "motor_age (example_snapshot n) = Some 0"
  "\<not> fault_observed (example_snapshot n)"
  "snap_motor (example_snapshot n) = Some (default_motor_state\<lparr>rpm := 0x447A0000\<rparr>)"
  by (simp_all add: example_snapshot_def snapshot_def on_motor_def on_imu_def new_monitor_def millis_def
      default_motor_state_def)

lemma example_peak: "f32_max 0 (f32_abs 0x447A0000) = 0x447A0000" "f32_less (f32_literal 1 1) 0x447A0000"
proof -
  have "f32_isfinite 0x447A0000" "f32_real 0x447A0000 = 1000" by (simp_all add: float_values)
  moreover have "f32_isfinite (f32_literal 1 1)" "f32_real (f32_literal 1 1) = 1" by (rule limit_values)+
  ultimately show "f32_max 0 (f32_abs 0x447A0000) = 0x447A0000" "f32_less (f32_literal 1 1) 0x447A0000"
    by (simp_all add: f32_max_def f32_abs_def f32_less_real f32_le_real)
qed

lemma example_watch:
  "watch_loop example_options (telemetry_stale_timeout example_options)
     (monitoring_start example_world + ms (monitoring_time example_options))
     (watch_passes example_world) (start_watch example_world) =
   Some ((start_watch example_world)\<lparr>last_progress := example_snapshot 1, imu_progress := True,
     motor_progress := True, peak_abs_rpm := 0x447A0000, next_status := ms 500, fw_completed := True,
     fw_success := True\<rparr>)"
proof -
  have w: "watch_passes example_world = [\<lparr>w_now = 0, w_snapshot = example_snapshot 1, w_phase = 3, w_phase_rpm = 3,
        w_status_now = 0, w_phase_query = 3, w_query = True, w_done = True, w_failure = False\<rparr>]"
    "monitoring_start example_world = 0" "status_start example_world = 0"
    "progress_snapshot example_world = example_snapshot 0" by (simp_all add: example_world_def)
  have o: "arm_actuators example_options" "telemetry_stale_timeout example_options = 300"
    "monitoring_time example_options = 11000" "status_interval example_options = 500"
    by (simp_all add: example_options_def default_options_def telemetry_stale_timeout_def smoke_config_def
        monitoring_time_def)
  show ?thesis
    by (simp add: w o watch_body_def watch_active_def Let_def telemetry_stale_def start_watch_def example_peak)
qed

text \<open>The calls of the example run.\<close>

definition example_calls :: "actuator_call list" where
  "example_calls = [CallDuty 0, CallCurrent 0, CallRpm 0, CallDuty 0,
     CallServo (clamp_servo (servo_center example_options)), CallCurrent 0,
     CallServo (clamp_servo (servo_center example_options)),
     CallCurrent 0, CallServo (clamp_servo (servo_center example_options))]"

lemma example_run:
  "smoke_main example_argv example_world = Some (0, Connected # map Sent example_calls @ [Disconnected])"
proof -
  obtain results events where
    t: "command_thread 1500 (phases example_options) (phase_runs example_world) = Some (results, False, events)"
      "thread_calls events @ [CallCurrent 0, CallServo (clamp_servo (servo_center example_options))] = example_calls"
    using example_thread by (auto simp: example_calls_def)
  have o: "arm_actuators example_options" "phase_duration example_options = 1500"
    "telemetry_stale_timeout example_options = 300"
    by (simp_all add: example_options_def default_options_def telemetry_stale_timeout_def smoke_config_def)
  have "smoke_run example_options example_world = Some (0, example_calls)"
    unfolding smoke_run_def o(2) t(1) example_watch
    using t(2) example_peak(2)
    by (simp add: o example_world_def queue_safe_outputs_def smoke_success_def start_watch_def)
  then show ?thesis
    by (simp add: smoke_main_def example_parsed example_world_def)
qed


section \<open>Properties of the program\<close>

text \<open>
  C20: Whatever the arguments and whatever happens while the smoke test runs, every command it
  asks the client to send is one of an armed run and lies within the limits the options were
  checked against: at most the requested duty cycle (0.20), current (20 A), speed (3000 rpm) and
  brake current (5 A), never negative, servo positions in [0, 1].  A running client with the
  configuration of the program queues each of them as a packet that tells the firmware exactly
  this value and arms the 500 ms watchdog; the one exception is a brake current that halving
  rounded to zero, which the client refuses without effect.
\<close>

theorem smoke_commands_safe:
  assumes "smoke_main argv world = Some (code, events)" "Sent x \<in> set events"
  shows "\<exists>opts. parse_args argv = Inr opts \<and> arm_actuators opts \<and> connect_ok world \<and> within_limits opts x
    \<and> (\<forall>now c. running c \<and> cfg c = smoke_config opts \<longrightarrow>
         (if brakes_nothing x then perform now x c = (c, False)
          else \<exists>c' q pkt. perform now x c = (c', True) \<and> command_queue c' = q @ [pkt] \<and> tells pkt x
            \<and> control_watchdog c' = \<lparr>wd_deadline = now + ms 500, armed = True\<rparr>))"
  using assms(1)
proof (rule smoke_main_cases)
  fix opts calls
  assume run: "parse_args argv = Inr opts" "connect_ok world" "smoke_run opts world = Some (code, calls)"
    and "events = Connected # map Sent calls @ [Disconnected]"
  with assms(2) have "x \<in> set calls" by auto
  from smoke_run_calls [OF parse_args_ok [OF run(1)] run(3) this]
  have "arm_actuators opts" and lim: "within_limits opts x" by auto
  then show ?thesis
    using run(1,2) perform_accepted [OF _ _ lim] perform_zero_brake [OF lim] by auto
qed (use assms(2) in auto)

theorem smoke_commands_safe_witness:
  "\<exists>opts. parse_args example_argv = Inr opts \<and> arm_actuators opts \<and> connect_ok example_world
    \<and> within_limits opts (CallRpm 0)
    \<and> (\<forall>now c. running c \<and> cfg c = smoke_config opts \<longrightarrow>
         (if brakes_nothing (CallRpm 0) then perform now (CallRpm 0) c = (c, False)
          else \<exists>c' q pkt. perform now (CallRpm 0) c = (c', True) \<and> command_queue c' = q @ [pkt]
            \<and> tells pkt (CallRpm 0)
            \<and> control_watchdog c' = \<lparr>wd_deadline = now + ms 500, armed = True\<rparr>))"
  by (rule smoke_commands_safe [OF example_run]) (simp add: example_calls_def)

text \<open>
  C24: An armed smoke test exits with 0 only if all of this holds.  Every phase of its plan, in
  order, ran until its duration was over: each pass before that sent the next values of the phase
  in turn, every call of it was accepted, and no stop was requested in any pass nor after the last.
  The monitoring loop saw progress of both kinds of telemetry, a firmware reply under load and no
  reason to stop.  The commands of the run are exactly the values of these passes, after each phase
  its neutral values, and at last zero current and the servo centre, which were accepted before the
  disconnect.  (The flag that requests a stop is only ever set, which is the hypothesis.)
\<close>

theorem smoke_success_means:
  assumes "parse_args argv = Inr opts" "arm_actuators opts" "smoke_main argv world = Some (0, events)"
    and "\<forall>r \<in> set (phase_runs world). stop_sticky r"
  shows "\<exists>results stores w.
      command_thread (phase_duration opts) (phases opts) (phase_runs world) = Some (results, False, stores)
    \<and> map phase_name results = map phase_title (phases opts) \<and> (\<forall>r\<in>set results. phase_ok r)
    \<and> length (phases opts) \<le> length (phase_runs world)
    \<and> (\<forall>j < length (phases opts).
         phase_completed (phase_duration opts) (phases opts ! j) (phase_runs world ! j) (commands_sent (results ! j)))
    \<and> watch_loop opts (telemetry_stale_timeout opts) (monitoring_start world + ms (monitoring_time opts))
         (watch_passes world) (start_watch world) = Some w
    \<and> \<not> stop_commands w \<and> imu_progress w \<and> motor_progress w \<and> fw_success w
    \<and> \<not> fault_observed (startup_snapshot world) \<and> \<not> fault_observed (final_snapshot world)
    \<and> safe_accepts world (CallCurrent 0) \<and> safe_accepts world (CallServo (clamp_servo (servo_center opts)))
    \<and> events = Connected # map Sent (concat (map2 phase_sent (phases opts) (map commands_sent results))
         @ [CallCurrent 0, CallServo (clamp_servo (servo_center opts))]) @ [Disconnected]"
  using assms(3)
proof (rule smoke_main_cases)
  fix opts' calls
  assume run: "parse_args argv = Inr opts'" "smoke_run opts' world = Some (0, calls)"
    and fine: "\<not> fault_observed (startup_snapshot world)"
    and ev: "events = Connected # map Sent calls @ [Disconnected]"
  have [simp]: "opts' = opts" using run(1) assms(1) by simp
  obtain results failure stores where
    thread: "command_thread (phase_duration opts) (phases opts) (phase_runs world) = Some (results, failure, stores)"
    using run(2) assms(2) by (auto simp: smoke_run_def split: option.splits)
  obtain w where w: "watch_loop opts (telemetry_stale_timeout opts) (monitoring_start world + ms (monitoring_time opts))
      (watch_passes world) (start_watch world) = Some w"
    using run(2) assms(2) thread by (auto simp: smoke_run_def split: option.splits)
  have flags: "stop_commands w = watch_failure w"
    using watch_loop_flags [OF w] by (simp add: start_watch_def)
  have checks: "\<not> failure \<and> \<not> watch_failure w \<and> imu_progress w \<and> motor_progress w \<and> fw_success w
      \<and> \<not> fault_observed (final_snapshot world) \<and> connected_after_phases world
      \<and> snd (queue_safe_outputs (safe_accepts world) (servo_center opts))
      \<and> calls = thread_calls stores @ fst (queue_safe_outputs (safe_accepts world) (servo_center opts))"
    using run(2) assms(2) thread w
    by (auto simp: smoke_run_def smoke_success_def Let_def case_prod_unfold split: if_splits option.splits)
  then have thread': "command_thread (phase_duration opts) (phases opts) (phase_runs world) = Some (results, False, stores)"
    using thread by simp
  note complete = command_thread_complete [OF thread' assms(4)]
  show ?thesis
    using thread' complete
    by (intro exI conjI) (use checks w flags fine ev command_thread_results [OF thread] in
        \<open>auto simp: queue_safe_outputs_def Let_def split: if_splits\<close>)
qed (use assms in auto)

lemma example_sticky: "\<forall>r \<in> set (phase_runs example_world). stop_sticky r"
  by (simp add: example_world_def stop_sticky_def example_phase_run_def)

theorem smoke_success_means_witness:
  "\<exists>results stores. command_thread (phase_duration example_options) (phases example_options) (phase_runs example_world)
        = Some (results, False, stores)
    \<and> Connected # map Sent example_calls @ [Disconnected] =
      Connected # map Sent (concat (map2 phase_sent (phases example_options) (map commands_sent results))
         @ [CallCurrent 0, CallServo (clamp_servo (servo_center example_options))]) @ [Disconnected]"
  using smoke_success_means [OF example_parsed _ example_run example_sticky]
  by (simp add: example_options_def del: map_append) blast

text \<open>The dead-man rule of the program's configuration: for 500 ms after an accepted call the watchdog
  keeps quiet, then it drops what is queued and lets the motor coast.\<close>

theorem silence_coasts:
  fixes now t :: time
  assumes "running c" "cfg c = smoke_config opts" "within_limits opts x" "\<not> brakes_nothing x"
  defines "c' \<equiv> fst (perform now x c)"
  shows "if t < now + ms 500 then dequeue_due_watchdog_command t c' = (c', None)
    else \<exists>c'' pkt. dequeue_due_watchdog_command t c' = (c'', Some pkt) \<and> command_queue c'' = []
      \<and> \<not> armed (control_watchdog c'') \<and> carries_i32 pkt SetCurrent 0"
proof -
  have "control_watchdog c' = \<lparr>wd_deadline = now + ms 500, armed = True\<rparr>"
    using perform_accepted [OF assms(1-4), of now] by (auto simp: c'_def)
  moreover have "running c'" "cfg c' = smoke_config opts" by (simp_all add: c'_def perform_keeps assms)
  ultimately show ?thesis
    using coast_packet
    by (simp add: dequeue_due_watchdog_command_def control_watchdog_enabled_def smoke_config_def default_watchdog_def)
qed

text \<open>A fault or stale telemetry in an active phase stops the monitoring loop at once and requests a
  stop; a phase that finds the request at its first look makes no call and ends the thread; and
  a run that was stopped never reports success.\<close>

lemma watch_stops:
  assumes "w_now p < dl" "arm_actuators opts" "w_phase p \<noteq> 0"
    and "fault_observed (w_snapshot p) \<or> telemetry_stale timeout (w_snapshot p)"
  shows "watch_loop opts timeout dl (p # ps) w = Some (w\<lparr>watch_failure := True, stop_commands := True\<rparr>)"
  using assms by (simp add: watch_body_def watch_active_def Let_def)

lemma stop_ends_thread:
  assumes "passes r = q # qs" "pass_stop q" "stop_after r"
  shows "command_thread duration (p # ps) (r # rs) =
    Some ([\<lparr>phase_name = phase_title p, phase_ok = False, commands_sent = 0\<rparr>], True,
      [ActivePhase (phase_index p), ActivePhase 0, CommandThreadDone])"
  using assms by (simp add: stream_phase_def Let_def)

theorem stopped_run_fails:
  assumes "arm_actuators opts" "smoke_run opts world = Some (code, calls)"
    and "watch_loop opts (telemetry_stale_timeout opts) (monitoring_start world + ms (monitoring_time opts))
      (watch_passes world) (start_watch world) = Some w" "stop_commands w"
  shows "code = 6"
proof -
  have "watch_failure w" using watch_loop_flags [OF assms(3)] assms(4) by (simp add: start_watch_def)
  with assms show ?thesis
    by (auto simp: smoke_run_def smoke_success_def Let_def case_prod_unfold split: option.splits if_splits)
qed

text \<open>Every run of the program ends: the sleeps between the passes of its loops bound their number.\<close>

theorem smoke_returns:
  assumes "parse_args argv = Inr opts"
    and "paced (imu_wait_start world) 20 1500 (map fst (imu_polls world))"
    and "paced (motor_wait_start world) 20 1500 (map fst (motor_polls world))"
    and "length (phases opts) \<le> length (phase_runs world)"
    and "\<forall>(p, r)\<in>set (zip (phases opts) (phase_runs world)).
           paced (phase_started r) (command_period p) (phase_duration opts) (map pass_now (passes r))"
    and "paced (monitoring_start world) 50 (monitoring_time opts) (map w_now (watch_passes world))"
  shows "\<exists>code events. smoke_main argv world = Some (code, events)"
proof -
  have "smoke_run opts world \<noteq> None"
    using command_thread_returns [OF assms(4,5)] watch_loop_returns [OF paced_reaches [OF assms(6)]]
    by (auto simp: smoke_run_def Let_def case_prod_unfold simp del: not_None_eq split: option.split)
  then show ?thesis
    using wait_until_returns [OF paced_reaches [OF assms(2)], of "imu_at_end world"]
      wait_until_returns [OF paced_reaches [OF assms(3)], of "motor_at_end world"] assms(1)
    by (auto simp: smoke_main_def)
qed

end
