(* ===== verification/Probe.thy ===== *)
theory Probe
  imports Smoke
begin

text \<open>
  The bring-up probe, \<open>examples/controller_probe.cpp\<close>: its arguments, the wait for a first sample
  of each kind in the client's caches, and the exit codes of \<open>main\<close>.  As in the smoke test the clock
  readings and the client states that the polls find are inputs, and a wait whose list of polls
  ends is still running.  The lemmas show when the probe reports success, that the wait ends, and
  that its baud argument is read like the integers of the smoke test.
\<close>

section \<open>Arguments\<close>

text \<open>\<open>std::stoi\<close>: the value and the number of characters consumed; \<open>None\<close>: it throws.\<close>

definition stoi :: "string \<Rightarrow> (int \<times> nat) option" where
  "stoi text =
     (case scan_int text of
        None \<Rightarrow> None
      | Some (v, rest) \<Rightarrow>
          if v < - (2 ^ 31) \<or> 2 ^ 31 \<le> v then None else Some (v, length text - length rest))"

definition probe_args :: "string list \<Rightarrow> args_exit + controller_config" where
  "probe_args argv =
     (if length argv > 3 then Inl (Thrown ''too many arguments'')
      else if length argv > 1 \<and> (argv ! 1 = ''-h'' \<or> argv ! 1 = ''--help'') then Inl Usage
      else
        let config = default_controller_config;
            config = (if length argv > 1 then config\<lparr>device_path := argv ! 1\<rparr> else config);
            polled = (\<lambda>config. config\<lparr>imu_poll_interval := 20, motor_poll_interval := 50,
                        poll_response_timeout := 50, query_guard_window := 5\<rparr>)
        in if length argv > 2 then
             (case stoi (argv ! 2) of
                None \<Rightarrow> Inl (Thrown ''stoi'')
              | Some (v, consumed) \<Rightarrow>
                  if consumed \<noteq> length (argv ! 2) then Inl (Thrown (''invalid baud: '' @ argv ! 2))
                  else Inr (polled (config\<lparr>baud := v\<rparr>)))
           else Inr (polled config))"

section \<open>The program\<close>

fun wait_for_sample :: "(client \<Rightarrow> 'a option) \<Rightarrow> time \<Rightarrow> (time \<times> client) list \<Rightarrow> client \<Rightarrow> bool option" where
  "wait_for_sample getter dl [] final = None"
| "wait_for_sample getter dl ((now, c) # polls) final =
     (if now < dl then (if getter c \<noteq> None then Some True else wait_for_sample getter dl polls final)
      else Some (getter final \<noteq> None))"

record probe_world =
  probe_connect_ok :: bool
  probe_fw :: "fw_version option"
  probe_imu_start :: time
  probe_imu_polls :: "(time \<times> client) list"
  probe_imu_final :: client
  probe_motor_start :: time
  probe_motor_polls :: "(time \<times> client) list"
  probe_motor_final :: client

definition probe_main :: "string list \<Rightarrow> probe_world \<Rightarrow> int option" where
  "probe_main argv world =
     (case probe_args argv of
        Inl Usage \<Rightarrow> Some 0
      | Inl (Thrown _) \<Rightarrow> Some 4
      | Inr config \<Rightarrow>
          if \<not> probe_connect_ok world then Some 2
          else
            (case wait_for_sample latest_imu (probe_imu_start world + ms 750)
                    (probe_imu_polls world) (probe_imu_final world) of
               None \<Rightarrow> None
             | Some got_imu \<Rightarrow>
                 (case wait_for_sample latest_motor_state (probe_motor_start world + ms 750)
                         (probe_motor_polls world) (probe_motor_final world) of
                    None \<Rightarrow> None
                  | Some got_motor \<Rightarrow>
                      Some (if probe_fw world = None \<or> \<not> got_imu \<or> \<not> got_motor then 3 else 0))))"

section \<open>Properties\<close>

text \<open>The probe reads its baud rate as the smoke test reads an integer option.\<close>

lemma stoi_like_parse_value:
  "parse_value_int flag txt = Inr v \<longleftrightarrow> stoi txt = Some (v, length txt)"
proof -
  have "length txt - length rest = length txt \<longleftrightarrow> rest = []" if "scan_int txt = Some (w, rest)" for w rest
  proof -
    have "length (snd (read_sign s)) \<le> length s" for s by (cases s) auto
    then have "length (dropWhile is_digit (snd (read_sign (dropWhile is_space txt)))) \<le> length txt"
      by (meson length_dropWhile_le order_trans)
    moreover have "rest = dropWhile is_digit (snd (read_sign (dropWhile is_space txt)))" "txt \<noteq> []"
      using that by (auto simp: scan_int_def Let_def case_prod_unfold split: if_splits)
    ultimately have "length rest \<le> length txt" "0 < length txt" by simp_all
    then have "length txt - length rest = length txt \<longleftrightarrow> length rest = 0" by linarith
    then show ?thesis by simp
  qed
  then show ?thesis
    by (cases "scan_int txt") (auto simp: parse_value_int_def stoi_def split: if_splits)
qed

lemma wait_for_sample_iff:
  "wait_for_sample getter dl polls final =
     wait_until dl (map (\<lambda>(t, c). (t, getter c \<noteq> None)) polls) (getter final \<noteq> None)"
  by (induction getter dl polls final rule: wait_for_sample.induct) auto

lemma wait_for_sample_returns:
  assumes "paced start 10 750 (map fst polls)"
  shows "wait_for_sample getter (start + ms 750) polls final \<noteq> None"
proof -
  have "map fst (map (\<lambda>(t, c). (t, getter c \<noteq> None)) polls) = map fst polls" by (simp add: case_prod_unfold)
  then show ?thesis
    unfolding wait_for_sample_iff using paced_reaches [OF assms] by (intro wait_until_returns) metis
qed

text \<open>A sample counts when some poll before the deadline, or the last look, finds it.\<close>

lemma wait_for_sample_true:
  "wait_for_sample getter dl polls final = Some True \<Longrightarrow>
     getter final \<noteq> None \<or> (\<exists>(t, c)\<in>set polls. t < dl \<and> getter c \<noteq> None)"
  by (induction getter dl polls final rule: wait_for_sample.induct) (auto split: if_splits)

theorem probe_success_means:
  assumes "probe_args argv = Inr config" "probe_main argv world = Some 0"
  shows "probe_connect_ok world \<and> probe_fw world \<noteq> None
    \<and> (\<exists>c. latest_imu c \<noteq> None \<and> c \<in> insert (probe_imu_final world) (snd ` set (probe_imu_polls world)))
    \<and> (\<exists>c. latest_motor_state c \<noteq> None \<and> c \<in> insert (probe_motor_final world) (snd ` set (probe_motor_polls world)))"
  using assms by (force simp: probe_main_def split: if_splits option.splits dest!: wait_for_sample_true)

theorem probe_returns:
  assumes "paced (probe_imu_start world) 10 750 (map fst (probe_imu_polls world))"
    and "paced (probe_motor_start world) 10 750 (map fst (probe_motor_polls world))"
  shows "\<exists>code. probe_main argv world = Some code"
  using wait_for_sample_returns [OF assms(1), of latest_imu "probe_imu_final world"]
    wait_for_sample_returns [OF assms(2), of latest_motor_state "probe_motor_final world"]
  by (auto simp: probe_main_def split: sum.split args_exit.split)

end
