(* ===== verification/Spec2Isabelle.thy ===== *)
theory Spec2Isabelle
  imports Parser_Streams Publication Lisp_Transfer Calibration Probe
begin

text \<open>
  Verification of \<open>goat_motor_controller\<close>, a C++17 client library for motor controllers that speak
  the VESC serial protocol.

  \<^bold>\<open>The program.\<close>  \<open>src/protocol.cpp\<close> builds request packets and parses reply payloads, both pure
  functions on byte vectors.  \<open>src/packet_parser.cpp\<close> turns the incoming byte stream back into
  payloads.  \<open>src/controller_client.cpp\<close> owns the connection: callers on any thread queue commands
  and requests, one I/O thread polls the device, writes what is queued, dispatches replies, and runs
  a watchdog that replaces stale control input by a safe stop; blocking management operations
  (configurations, stored LispBM code, calibration) are sequences of requests.

  \<^bold>\<open>Theories, in the order of their dependency.\<close>
  \<^item> \<open>Goat_Prelude\<close>: machine types, checked vector access, the locale \<open>step_invariant\<close> of invariants of
    a step relation.
  \<^item> \<open>Ieee_Float\<close>: binary32 and binary64 with rounding to nearest even, as the code uses them; a
    \<open>float\<close> is its bit pattern.
  \<^item> \<open>Goat_Types\<close>: \<open>types.hpp\<close> and \<open>protocol_ids.hpp\<close>, field by field.
  \<^item> \<open>Crc16\<close>: both copies of the CRC; equality of the copies, linearity, detection of bursts.
  \<^item> \<open>Wire_Codec\<close>: the helpers of \<open>protocol.cpp\<close> and \<open>frame\<close>.
  \<^item> \<open>Packet_Parser\<close>, \<open>Parser_Streams\<close>: \<open>PacketParser\<close> over its buffer; memory safety, round trip
    under any split into reads, soundness, recovery after damage and noise, and a stream on which it
    never recovers.  The locale \<open>packet_codec\<close> is what a client of a framed transport relies on.
  \<^item> \<open>Protocol_Build\<close>, \<open>Protocol_Parse\<close>: every \<open>build_*\<close> and \<open>parse_*\<close>; when a packet is built and what
    it carries (locale \<open>float_command\<close> for the four commands with a float argument), which payloads
    are accepted, the value and accuracy of each field, and that no parser reads outside its payload.
  \<^item> \<open>Client_State\<close>: the data members and nested types of \<open>ControllerClient\<close> as records, the simple
    accessors, and the subscriptions (locale \<open>subscriptions\<close>, interpreted for both sample kinds).
  \<^item> \<open>Scheduler\<close>: the command queue, the watchdog, the request queue, time-outs, dispatch and poll
    channels, one definition per member function on the record \<open>client\<close>.
  \<^item> \<open>Command_Queue\<close>: the queue keeps the latest packet per command (locale \<open>coalescing_queue\<close>), the
    watchdog fires once, limits of brake and duty requests.
  \<^item> \<open>Requests\<close>: each waiting caller is owned by exactly one request; time-outs, order of queries,
    fairness of polling, routing of replies.
  \<^item> \<open>Transport\<close>: \<open>write_packet\<close>, \<open>wait_until_writable\<close>, reading; exactness and termination of writes.
  \<^item> \<open>Io_Loop\<close>: \<open>io_loop\<close> as a step relation between the places of its body, the calls of other
    threads as steps of the same state, and the exact wait before a pass.  The bytes of a read are
    fed one by one (\<open>feed_one\<close>), and each callback of a published sample is a step of its own.
  \<^item> \<open>Io_Invariant\<close>: the invariant of all interleavings; nobody is left waiting; the device receives
    whole frames.
  \<^item> \<open>Lifecycle\<close>: \<open>connect\<close>, \<open>disconnect\<close>, \<open>open_serial\<close>, \<open>find_devices\<close> and the clean-up over the
    descriptors of the process (locale \<open>descriptor_table\<close>); no leak, no foreign close, exact success.
  \<^item> \<open>Publication\<close>: what a subscriber gets over all interleavings of the life cycle: every sample that
    is published while it is registered, once and in order, and after the reset of its handle at most
    the one call that was already copied.
  \<^item> \<open>Management\<close>, \<open>Management_Runs\<close>: the blocking operations as programs over the calls they make,
    and their executions on the scheduler and the I/O thread; every execution is a run of the program.
  \<^item> \<open>Management_Spec\<close>, \<open>Lisp_Transfer\<close>, \<open>Calibration\<close>: the contracts of configuration writes (locale
    \<open>config_exchange\<close>, interpreted for motor and application images), of uploads and downloads of
    stored code, and of the calibration.
  \<^item> \<open>Ieee_Arith\<close>, \<open>Example_Args\<close>, \<open>Smoke\<close>, \<open>Probe\<close>: the programs under \<open>examples/\<close>.  Command lines and
    their checks, the telemetry monitor, the command thread and the monitoring loop of the hardware
    smoke test with its verdict, and the bring-up probe.  Commands stay within the checked limits
    and are accepted by a running client (locale \<open>actuator_client\<close>), success means that every phase
    ran its whole duration with every call accepted and neutral outputs last, silence lets the motor
    coast, and both programs end.

  \<^bold>\<open>Correspondence.\<close>  A \<open>std::vector<uint8_t>\<close> is a list of 8-bit words, a fixed-width integer a word
  of its width.  A result \<open>None\<close> of type \<open>checked\<close> is an access outside a vector; the theorems show
  that it never happens.  A \<open>shared_ptr<QueryState>\<close> is an index into the list of all query states,
  so that the aliasing between a waiting caller and the request that completes it is explicit.
  Operations that hold the scheduler mutex are single steps.  What comes from outside (clock
  readings, outcomes of \<open>read\<close>, \<open>write\<close>, \<open>select\<close>, \<open>open\<close>, \<open>fcntl\<close>, \<open>termios\<close> calls and \<open>glob\<close>, the
  custom opener, the results of \<open>try_lock_until\<close>) is an argument of the definitions or a free choice
  of a step, so the theorems hold for all of it.  What \<open>cfmakeraw\<close> of the C library does is such an
  argument; \<open>connect_exactly\<close> says what follows if it does what its manual says
  (\<open>cfmakeraw_documented\<close>).  The record \<open>kernel\<close> is environment, not code of the repository: it keeps
  which descriptors are open and whose they are, so that leaks and foreign closes can be stated.
  Which descriptor a call returns is its field \<open>alloc\<close>, of which only \<open>alloc_ok\<close> is used: the
  descriptor is not open yet and not negative.  A custom opener may store any number in \<open>fd_\<close> or
  none, return either verdict or throw; what it stores is taken to be the client's from then on,
  which is the contract under which \<open>connect\<close> and \<open>disconnect\<close> close it.

  \<^bold>\<open>Loops and bounds.\<close>  The parser's loop, the byte loops and the transfer loops are functions with a
  termination proof.  \<open>write_loop\<close> and \<open>wait_until_writable\<close> consume an explicit list of outcomes of
  system calls; they may wait for ever, and \<open>write_packet_returns\<close> gives the outcomes under which
  they return.  \<open>io_loop\<close> is a step relation, so it needs no bound.  Management programs are finite
  trees, so every execution of one is finite once its requests return, which \<open>no_waiter_left_behind\<close>
  gives when the I/O thread ends.  The loops of the example programs consume one entry of a list per
  pass; \<open>smoke_returns\<close> and \<open>probe_returns\<close> show that sleeps of the programmed length make them end.

  \<^bold>\<open>Abstractions.\<close>  Time points are unbounded integers (a 64-bit nanosecond count overflows after
  292 years), subscription identifiers are natural numbers, and the offset counter of an upload is
  one as well (a packed image has fewer than \<open>2 ^ 20\<close> bytes).  A callback is represented by whether
  it is callable and by the samples it receives.  Publishing copies the callable callbacks
  (\<open>publishing\<close>); the copies are called one at a time, in any order (the code walks an unordered
  map), with calls of other threads in between, so a copied callback may run after its handle was
  reset.  The dispatch of a payload up to that copy is one step, although it takes the locks of the
  scheduler, the caches and the registry in turn: a call of another thread that comes between two of
  them touches one of these parts only, and has on it the effect of the same call before or after
  the step.  The wake pipe is a flag: whether it holds an unread byte.

  \<^bold>\<open>Not modelled.\<close>  The memory model of the C++ threads below the level of mutexes and atomics; the
  priority with which the kernel schedules threads; exceptions of memory allocation and of thread
  creation in the smoke test; the text the example programs print, which changes no state.  In the
  smoke test the flags one thread reads from the other are free inputs of that thread, so the
  theorems cover every interleaving.  The header files hold declarations and comments besides the
  types and constants that are modelled.
\<close>

end
